(* ===== verification/Prelude.thy ===== *)
theory Prelude
  imports Main "HOL-Library.Word"
begin

text \<open>
  Shared vocabulary of the DirectLink development: machine integers, the faults a C++
  operation can end in (undefined behaviour made explicit), the error monad in which the
  operations run, the generic ``call until it reports no more data'' loop that every user
  of a codec contains, and a ledger of library-owned objects (allocated, referenced,
  freed) with which resource safety is stated.
\<close>

named_theorems keeps "equations for the fields an operation leaves alone"

section \<open>Machine integers\<close>

type_synonym byte = "8 word"
type_synonym i32 = "32 word"
type_synonym i64 = "64 word"
type_synonym u64 = "64 word"

text \<open>
  A C++ \<open>int\<close> whose arithmetic cannot leave its range is an \<open>int\<close>; where the range
  matters the value is a word, read as two's complement with \<open>sint\<close>.
  \<open>c_div2\<close> is C++'s \<open>x / 2\<close> (truncation towards zero) and \<open>size_t\<close> is the conversion
  of a signed value to the 64-bit unsigned \<open>std::size_t\<close>.
\<close>

definition c_div2 :: "int \<Rightarrow> int" where
  "c_div2 x = (if 0 \<le> x then x div 2 else - ((- x) div 2))"

definition size_t :: "int \<Rightarrow> int" where
  "size_t x = (if 0 \<le> x then x else x + 2 ^ 64)"

section \<open>Faults and the error monad\<close>

text \<open>
  What C++ leaves undefined, and not returning at all, are results like any other, so a
  theorem that an operation returns \<open>Inr\<close> says that none of them happens.
\<close>

datatype fault =
    NullDeref
  | UseAfterFree
  | OutOfBounds
  | SignedOverflow
  | NonTermination
  | UncaughtException

type_synonym 'a run = "fault + 'a"

fun andThen :: "'e + 'a \<Rightarrow> ('a \<Rightarrow> 'e + 'b) \<Rightarrow> 'e + 'b" where
  "andThen (Inl e) f = Inl e"
| "andThen (Inr x) f = f x"

fun succeeds :: "'e + 'a \<Rightarrow> bool" where
  "succeeds (Inl e) = False"
| "succeeds (Inr x) = True"

lemma andThen_Inr_iff [simp]:
  "andThen m f = Inr y \<longleftrightarrow> (\<exists>x. m = Inr x \<and> f x = Inr y)"
  by (cases m) auto

lemma succeeds_iff: "succeeds m \<longleftrightarrow> (\<exists>x. m = Inr x)"
  by (cases m) auto

lemma andThen_Inr_id [simp]: "andThen m Inr = m"
  by (cases m) auto

lemma andThen_assoc: "andThen (andThen m f) g = andThen m (\<lambda>x. andThen (f x) g)"
  by (cases m) auto

section \<open>Receive loops\<close>

text \<open>
  \<open>while (receive(ctx, out) == 0) \<dots>\<close>: the loop asks until it gets no more, and hands on
  every answer in order. Whether it ends is up to the library, so its value is an option;
  \<open>drains\<close> is the library's documented behaviour that it eventually reports no more data.
\<close>

partial_function (option) receive_loop :: "('c \<Rightarrow> 'x option \<times> 'c) \<Rightarrow> 'c \<Rightarrow> ('x list \<times> 'c) option"
where
  "receive_loop rcv c =
     (case rcv c of
        (None, c') \<Rightarrow> Some ([], c')
      | (Some x, c') \<Rightarrow>
          Option.bind (receive_loop rcv c') (\<lambda>(xs, d). Some (x # xs, d)))"

declare receive_loop.simps [code]

inductive drains :: "('c \<Rightarrow> 'x option \<times> 'c) \<Rightarrow> 'c \<Rightarrow> bool" for rcv where
  drains_stop: "rcv c = (None, c') \<Longrightarrow> drains rcv c"
| drains_more: "rcv c = (Some x, c') \<Longrightarrow> drains rcv c' \<Longrightarrow> drains rcv c"

inductive_simps drains_stop_iff: "drains rcv c"

lemma receive_loop_drains: "drains rcv c \<Longrightarrow> \<exists>xs d. receive_loop rcv c = Some (xs, d)"
proof (induction rule: drains.induct)
  case (drains_stop c c')
  then show ?case by (simp add: receive_loop.simps [of rcv c])
next
  case (drains_more c x c')
  then show ?case by (auto simp: receive_loop.simps [of rcv c])
qed

lemma receive_loop_Some_drains:
  fixes rcv :: "'c \<Rightarrow> 'x option \<times> 'c"
  assumes "receive_loop rcv c = Some r"
  shows "drains rcv c"
proof (rule receive_loop.raw_induct [where P = "\<lambda>rcv c r. drains rcv c", OF _ assms])
  fix f :: "('c \<Rightarrow> 'x option \<times> 'c) \<Rightarrow> 'c \<Rightarrow> ('x list \<times> 'c) option" and rcv c r
  assume IH: "\<And>rcv c r. f rcv c = Some r \<Longrightarrow> drains rcv c"
    and eq: "(case rcv c of (None, c') \<Rightarrow> Some ([], c')
      | (Some x, c') \<Rightarrow> Option.bind (f rcv c') (\<lambda>(xs, d). Some (x # xs, d))) = Some r"
  show "drains rcv c"
  proof (cases "rcv c")
    case (Pair a c')
    with eq IH show ?thesis
      by (cases a) (auto intro: drains.intros split: bind_splits)
  qed
qed

lemma receive_loop_Some_iff: "(\<exists>r. receive_loop rcv c = Some r) \<longleftrightarrow> drains rcv c"
  using receive_loop_drains receive_loop_Some_drains by fastforce

text \<open>A measure that every answer decreases is enough for the loop to end.\<close>

lemma drains_measure:
  assumes "\<And>c x c'. rcv c = (Some x, c') \<Longrightarrow> m c' < (m c :: nat)"
  shows "drains rcv c"
proof (induction "m c" arbitrary: c rule: less_induct)
  case less
  obtain a c' where rc: "rcv c = (a, c')" by fastforce
  show ?case
  proof (cases a)
    case None
    with rc show ?thesis by (auto intro: drains_stop)
  next
    case (Some x)
    with rc assms have "m c' < m c" by blast
    then have "drains rcv c'" by (rule less)
    with rc Some show ?thesis by (auto intro: drains_more)
  qed
qed

text \<open>Every result of the loop is the answer to some call.\<close>

lemma receive_loop_mem:
  assumes "receive_loop rcv c = Some (xs, d)" "x \<in> set xs"
  shows "\<exists>c c'. rcv c = (Some x, c')"
proof -
  have "drains rcv c" using assms(1) by (rule receive_loop_Some_drains)
  then show ?thesis using assms
  proof (induction arbitrary: xs rule: drains.induct)
    case (drains_stop c c')
    then show ?case by (simp add: receive_loop.simps [of _ c])
  next
    case (drains_more c y c')
    then obtain ys where "xs = y # ys" "receive_loop rcv c' = Some (ys, d)"
      by (auto simp: receive_loop.simps [of _ c] split: bind_splits)
    with drains_more show ?case by auto
  qed
qed

text \<open>What every answer keeps, the loop keeps.\<close>

lemma receive_loop_keeps:
  assumes "receive_loop rcv c = Some (xs, d)" and "I c"
    and "\<And>c x c'. I c \<Longrightarrow> rcv c = (x, c') \<Longrightarrow> I c'"
  shows "I d"
proof -
  have "drains rcv c" using assms(1) by (rule receive_loop_Some_drains)
  then show ?thesis using assms
  proof (induction arbitrary: xs rule: drains.induct)
    case (drains_stop c c')
    then show ?case by (auto simp: receive_loop.simps [of rcv c])
  next
    case (drains_more c x c')
    then obtain ys where "receive_loop rcv c' = Some (ys, d)"
      by (auto simp: receive_loop.simps [of rcv c] split: bind_splits)
    with drains_more show ?case by blast
  qed
qed

section \<open>A ledger of library objects\<close>

text \<open>
  FFmpeg contexts and frames, and GStreamer objects, live in the libraries and are named by
  handles. The ledger records which handles are live; releasing a dead one is a fault.
\<close>

type_synonym handle = nat

record ledger =
  next_handle :: handle
  live :: "handle list"

definition wf_ledger :: "ledger \<Rightarrow> bool" where
  "wf_ledger L \<longleftrightarrow> distinct (live L) \<and> (\<forall>h \<in> set (live L). h < next_handle L)"

definition acquire :: "ledger \<Rightarrow> handle \<times> ledger" where
  "acquire L = (next_handle L,
     L\<lparr>next_handle := Suc (next_handle L), live := next_handle L # live L\<rparr>)"

definition release :: "handle \<Rightarrow> ledger \<Rightarrow> ledger run" where
  "release h L = (if h \<in> set (live L) then Inr (L\<lparr>live := remove1 h (live L)\<rparr>) else Inl UseAfterFree)"

text \<open>Releasing what a possibly null pointer points at, as \<open>if (p != nullptr) free(p)\<close> does.\<close>

fun release_opt :: "handle option \<Rightarrow> ledger \<Rightarrow> ledger run" where
  "release_opt None L = Inr L"
| "release_opt (Some h) L = release h L"

fun use_handle :: "handle \<Rightarrow> ledger \<Rightarrow> ledger run" where
  "use_handle h L = (if h \<in> set (live L) then Inr L else Inl UseAfterFree)"

lemma wf_acquire: "wf_ledger L \<Longrightarrow> acquire L = (h, L') \<Longrightarrow> wf_ledger L'"
  by (force simp: wf_ledger_def acquire_def)

lemma acquire_live: "acquire L = (h, L') \<Longrightarrow> set (live L') = insert h (set (live L))"
  by (auto simp: acquire_def)

lemma acquire_fresh: "wf_ledger L \<Longrightarrow> acquire L = (h, L') \<Longrightarrow> h \<notin> set (live L)"
  by (auto simp: wf_ledger_def acquire_def)

lemma wf_release: "wf_ledger L \<Longrightarrow> release h L = Inr L' \<Longrightarrow> wf_ledger L'"
  by (auto simp: wf_ledger_def release_def split: if_splits dest: notin_set_remove1)

lemma release_live:
  "wf_ledger L \<Longrightarrow> release h L = Inr L' \<Longrightarrow> set (live L') = set (live L) - {h}"
  by (auto simp: wf_ledger_def release_def split: if_splits)

lemma release_succeeds [simp]: "succeeds (release h L) \<longleftrightarrow> h \<in> set (live L)"
  by (simp add: release_def)

lemma release_acquire:
  "acquire L = (h, L') \<Longrightarrow> release h L' = Inr (L'\<lparr>live := live L\<rparr>)"
  by (auto simp: acquire_def release_def)

lemma wf_release_opt: "wf_ledger L \<Longrightarrow> release_opt p L = Inr L' \<Longrightarrow> wf_ledger L'"
  by (cases p) (auto dest: wf_release)

lemma release_opt_live:
  "wf_ledger L \<Longrightarrow> release_opt p L = Inr L' \<Longrightarrow> set (live L') = set (live L) - set_option p"
  by (cases p) (auto dest: release_live)

lemma release_opt_succeeds:
  "set_option p \<subseteq> set (live L) \<Longrightarrow> succeeds (release_opt p L)"
  by (cases p) (auto simp: release_def)

text \<open>Releasing several handles in turn, and growing a ledger by several.\<close>

fun release_all :: "handle list \<Rightarrow> ledger \<Rightarrow> ledger run" where
  "release_all [] L = Inr L"
| "release_all (h # hs) L = andThen (release h L) (release_all hs)"

fun opt_list :: "'a option \<Rightarrow> 'a list" where
  "opt_list None = []"
| "opt_list (Some x) = [x]"

lemma set_opt_list [simp]: "set (opt_list p) = set_option p"
  by (cases p) auto

lemma distinct_opt_list [simp]: "distinct (opt_list p)"
  by (cases p) auto

lemma release_all_Nil: "release_all [] = Inr"
  by (rule ext) simp

lemma release_all_single: "release_all [h] = release h"
  by (rule ext) (simp add: release_all_Nil)

lemma release_opt_all: "release_opt p L = release_all (opt_list p) L"
  by (cases p) (simp_all add: release_all_Nil)

lemma release_all_append: "release_all (xs @ ys) L = andThen (release_all xs L) (release_all ys)"
proof (induction xs arbitrary: L)
  case (Cons x xs)
  then show ?case by (cases "release x L") auto
qed simp

lemma release_all_live:
  assumes "wf_ledger L" "distinct hs" "set hs \<subseteq> set (live L)"
  shows "\<exists>L'. release_all hs L = Inr L' \<and> wf_ledger L' \<and> set (live L') = set (live L) - set hs"
  using assms
proof (induction hs arbitrary: L)
  case (Cons h hs)
  then obtain L1 where l: "release h L = Inr L1" by (auto simp: release_def)
  have "wf_ledger L1" "set (live L1) = set (live L) - {h}"
    using wf_release [OF Cons.prems(1) l] release_live [OF Cons.prems(1) l] by auto
  moreover from this Cons.prems have "set hs \<subseteq> set (live L1)" by auto
  ultimately show ?case using Cons.IH [of L1] Cons.prems l by auto
qed simp

text \<open>\<open>grows L hs L'\<close>: between \<open>L\<close> and \<open>L'\<close> exactly the new, distinct handles \<open>hs\<close>
  were allocated.\<close>

definition grows :: "ledger \<Rightarrow> handle list \<Rightarrow> ledger \<Rightarrow> bool" where
  "grows L hs L' \<longleftrightarrow> wf_ledger L' \<and> distinct hs \<and> set hs \<inter> set (live L) = {}
     \<and> set (live L') = set (live L) \<union> set hs"

lemma grows_refl: "wf_ledger L \<Longrightarrow> grows L [] L"
  by (simp add: grows_def)

lemma grows_cong: "grows L hs L' \<Longrightarrow> distinct hs' \<Longrightarrow> set hs' = set hs \<Longrightarrow> grows L hs' L'"
  by (simp add: grows_def)

lemma grows_release:
  assumes "grows L (xs @ ys @ zs) L1"
  shows "\<exists>L2. release_all ys L1 = Inr L2 \<and> grows L (xs @ zs) L2"
proof -
  from assms have "wf_ledger L1" "distinct ys" "set ys \<subseteq> set (live L1)" by (auto simp: grows_def)
  from release_all_live [OF this] assms show ?thesis by (auto simp: grows_def)
qed

lemma grows_acquire: "grows L hs L1 \<Longrightarrow> acquire L1 = (h, L2) \<Longrightarrow> grows L (h # hs) L2"
  using acquire_fresh [of L1 h L2] wf_acquire [of L1 h L2] acquire_live [of L1 h L2]
  by (auto simp: grows_def)

lemma grows_trans: "grows L hs L1 \<Longrightarrow> grows L1 ks L2 \<Longrightarrow> grows L (ks @ hs) L2"
  by (auto simp: grows_def)

lemma grows_shrink:
  assumes "grows L (xs @ ys) L1" "wf_ledger L2" "set (live L2) = set (live L1) - set ys"
  shows "grows L xs L2"
  using assms by (auto simp: grows_def)

text \<open>An allocating library call: a fresh handle, or null when it fails.\<close>

definition try_acquire :: "bool \<Rightarrow> ledger \<Rightarrow> handle option \<times> ledger" where
  "try_acquire ok L = (if ok then (case acquire L of (h, L') \<Rightarrow> (Some h, L')) else (None, L))"

lemma grows_try_acquire:
  "grows L hs L1 \<Longrightarrow> try_acquire ok L1 = (p, L2) \<Longrightarrow> grows L (opt_list p @ hs) L2"
  by (auto simp: try_acquire_def intro: grows_acquire split: if_splits prod.splits)

lemma release_all_grown:
  assumes "grows L hs L1" "distinct hs'" "set hs' = set hs"
  shows "\<exists>L2. release_all hs' L1 = Inr L2 \<and> set (live L2) = set (live L)"
  using release_all_live [of L1 hs'] assms by (auto simp: grows_def)

text \<open>An object that is created, used by one call and given back at once (caps, pads, buses).\<close>

definition transient :: "ledger \<Rightarrow> ledger run" where
  "transient L = (case acquire L of (h, L') \<Rightarrow> release h L')"

lemma transient_eq: "transient L = Inr (L\<lparr>next_handle := Suc (next_handle L)\<rparr>)"
  by (simp add: transient_def acquire_def release_def)

lemma grows_transient: "grows L hs L1 \<Longrightarrow> transient L1 = Inr L2 \<Longrightarrow> grows L hs L2"
  by (auto simp: transient_eq grows_def wf_ledger_def less_SucI)

lemma live_transient: "transient L = Inr L' \<Longrightarrow> live L' = live L"
  by (auto simp: transient_eq)

text \<open>
  \<open>balanced L L'\<close>: what was taken between \<open>L\<close> and \<open>L'\<close> was given back; only the supply of
  fresh handles has moved on.
\<close>

definition balanced :: "ledger \<Rightarrow> ledger \<Rightarrow> bool" where
  "balanced L L' \<longleftrightarrow> live L' = live L \<and> next_handle L \<le> next_handle L'"

lemma balanced_refl [simp]: "balanced L L"
  by (simp add: balanced_def)

lemma balanced_trans: "balanced L L1 \<Longrightarrow> balanced L1 L2 \<Longrightarrow> balanced L L2"
  by (simp add: balanced_def)

lemma balanced_wf: "balanced L L' \<Longrightarrow> wf_ledger L \<Longrightarrow> wf_ledger L'"
  by (auto simp: balanced_def wf_ledger_def)

lemma balanced_live: "balanced L L' \<Longrightarrow> live L' = live L"
  by (simp add: balanced_def)

lemma balanced_transient: "transient L = Inr L' \<Longrightarrow> balanced L L'"
  by (auto simp: transient_eq balanced_def)

lemma grows_balanced: "grows L hs L1 \<Longrightarrow> balanced L1 L2 \<Longrightarrow> grows L hs L2"
  using balanced_wf by (auto simp: grows_def balanced_def)

lemma balanced_grows: "balanced L L1 \<Longrightarrow> grows L1 hs L2 \<Longrightarrow> grows L hs L2"
  by (simp add: grows_def balanced_def)

section \<open>Startable services\<close>

text \<open>
  Cameras, publishers and pipelines are started and stopped by their owners in the same way.
  The contract: a start that reports success leaves the service running, one that does not
  changes nothing about that, and after a stop it is not running. What follows for a whole
  history of starts and stops is proved here once.
\<close>

datatype 'e service_op = Start 'e | Stop 'e

locale service =
  fixes start :: "'e \<Rightarrow> 's \<Rightarrow> ('r \<times> 's) run"
    and stop :: "'e \<Rightarrow> 's \<Rightarrow> ('r \<times> 's) run"
    and running :: "'s \<Rightarrow> bool"
    and inv :: "'s \<Rightarrow> bool"
    and ok :: "'r \<Rightarrow> bool"
  assumes start_inv: "inv s \<Longrightarrow> start e s = Inr (r, s') \<Longrightarrow> inv s'"
    and stop_inv: "inv s \<Longrightarrow> stop e s = Inr (r, s') \<Longrightarrow> inv s'"
    and start_running: "inv s \<Longrightarrow> start e s = Inr (r, s') \<Longrightarrow> running s' \<longleftrightarrow> running s \<or> ok r"
    and stop_running: "inv s \<Longrightarrow> stop e s = Inr (r, s') \<Longrightarrow> \<not> running s'"
begin

primrec history :: "'e service_op list \<Rightarrow> 's \<Rightarrow> ('r list \<times> 's) run" where
  "history [] s = Inr ([], s)"
| "history (op # ops) s =
     andThen (case op of Start e \<Rightarrow> start e s | Stop e \<Rightarrow> stop e s)
       (\<lambda>(r, s'). andThen (history ops s') (\<lambda>(rs, s''). Inr (r # rs, s'')))"

primrec up :: "bool \<Rightarrow> ('e service_op \<times> 'r) list \<Rightarrow> bool" where
  "up b [] = b"
| "up b (x # xs) = up (case fst x of Start e \<Rightarrow> b \<or> ok (snd x) | Stop e \<Rightarrow> False) xs"

lemma history_running:
  "inv s \<Longrightarrow> history ops s = Inr (rs, s') \<Longrightarrow>
   inv s' \<and> length rs = length ops \<and> running s' = up (running s) (zip ops rs)"
proof (induction ops arbitrary: s rs)
  case (Cons op ops)
  then obtain r s1 rs1 where 1: "(case op of Start e \<Rightarrow> start e s | Stop e \<Rightarrow> stop e s) = Inr (r, s1)"
    and 2: "history ops s1 = Inr (rs1, s')" and rs: "rs = r # rs1" by auto
  have "inv s1 \<and> (running s1 \<longleftrightarrow> (case op of Start e \<Rightarrow> running s \<or> ok r | Stop e \<Rightarrow> False))"
  proof (cases op)
    case (Start e)
    with 1 have "start e s = Inr (r, s1)" by simp
    with start_inv start_running Cons.prems(1) Start show ?thesis by simp
  next
    case (Stop e)
    with 1 have "stop e s = Inr (r, s1)" by simp
    with stop_inv stop_running Cons.prems(1) Stop show ?thesis by simp
  qed
  with Cons.IH [of s1 rs1] 2 rs show ?case by (cases op) simp_all
qed simp

end

end
