(* ===== verification/Common_Types.thy ===== *)
theory Common_Types
  imports Prelude
begin

text \<open>
  The data types the C++ components share: \<open>video-core/include/common/types.hpp\<close>,
  \<open>networking/include/types.hpp\<close>, the configuration structs, the parts of FFmpeg's
  \<open>AVFrame\<close>, \<open>AVPacket\<close> and \<open>AVRational\<close> the code reads and writes, and the two
  \<open>rescaleToNs\<close> helpers.
\<close>

section \<open>Result codes\<close>

datatype Result =
    Success
  | ErrorInvalidParameter
  | ErrorDeviceNotFound
  | ErrorInitFailed
  | ErrorEncodeFailed
  | ErrorCaptureFailed
  | ErrorDecodeFailed
  | ErrorNoData

text \<open>An \<open>enum class \<dots> : std::uint8_t\<close> has an 8-bit value; the constructors count from 0.\<close>

fun Result_value :: "Result \<Rightarrow> 8 word" where
  "Result_value Success = 0"
| "Result_value ErrorInvalidParameter = 1"
| "Result_value ErrorDeviceNotFound = 2"
| "Result_value ErrorInitFailed = 3"
| "Result_value ErrorEncodeFailed = 4"
| "Result_value ErrorCaptureFailed = 5"
| "Result_value ErrorDecodeFailed = 6"
| "Result_value ErrorNoData = 7"

text \<open>
  The switch runs on the underlying value, which a cast can take outside the enumerators:
  then the \<open>default\<close> branch answers.
\<close>

definition resultToString :: "8 word \<Rightarrow> string" where
  "resultToString r =
     (if r = Result_value Success then ''Success''
      else if r = Result_value ErrorInvalidParameter then ''Invalid parameter''
      else if r = Result_value ErrorDeviceNotFound then ''Device not found''
      else if r = Result_value ErrorInitFailed then ''Initialization failed''
      else if r = Result_value ErrorEncodeFailed then ''Encode failed''
      else if r = Result_value ErrorCaptureFailed then ''Capture failed''
      else if r = Result_value ErrorDecodeFailed then ''Decode failed''
      else if r = Result_value ErrorNoData then ''No data available''
      else ''Unknown error'')"

datatype NetResult =
    NetSuccess
  | NetErrorInvalidParameter
  | NetErrorPipelineFailed
  | NetErrorConnectionFailed
  | NetErrorAuthFailed
  | NetErrorNotInitialized

fun NetResult_value :: "NetResult \<Rightarrow> 8 word" where
  "NetResult_value NetSuccess = 0"
| "NetResult_value NetErrorInvalidParameter = 1"
| "NetResult_value NetErrorPipelineFailed = 2"
| "NetResult_value NetErrorConnectionFailed = 3"
| "NetResult_value NetErrorAuthFailed = 4"
| "NetResult_value NetErrorNotInitialized = 5"

definition net_resultToString :: "8 word \<Rightarrow> string" where
  "net_resultToString r =
     (if r = NetResult_value NetSuccess then ''Success''
      else if r = NetResult_value NetErrorInvalidParameter then ''Invalid parameter''
      else if r = NetResult_value NetErrorPipelineFailed then ''Pipeline failed''
      else if r = NetResult_value NetErrorConnectionFailed then ''Connection failed''
      else if r = NetResult_value NetErrorAuthFailed then ''Authentication failed''
      else if r = NetResult_value NetErrorNotInitialized then ''Not initialized''
      else ''Unknown error'')"

lemma Result_value_inject: "Result_value a = Result_value b \<longleftrightarrow> a = b"
  by (cases a; cases b) simp_all

lemma NetResult_value_inject: "NetResult_value a = NetResult_value b \<longleftrightarrow> a = b"
  by (cases a; cases b) simp_all

section \<open>FFmpeg data the code handles\<close>

datatype pix_fmt =
    PIX_FMT_NONE
  | PIX_FMT_YUV420P
  | PIX_FMT_YUV422P
  | PIX_FMT_YUV444P
  | PIX_FMT_YUVJ420P
  | PIX_FMT_YUVJ422P
  | PIX_FMT_YUVJ444P
  | PIX_FMT_OTHER int

datatype color_range = RANGE_UNSPECIFIED | RANGE_MPEG | RANGE_JPEG

datatype pict_type = PICTURE_TYPE_NONE | PICTURE_TYPE_I

record rational =
  num :: int
  den :: int

record av_frame =
  af_format :: pix_fmt
  af_width :: int
  af_height :: int
  af_linesize :: "int list"
  af_data :: "byte list list"
  af_color_range :: color_range
  af_pict_type :: pict_type
  af_pts :: i64

record av_packet =
  ap_pts :: i64
  ap_dts :: i64
  ap_size :: i32
  ap_flags :: i32
  ap_data :: "byte list"

definition AV_NOPTS_VALUE :: i64 where
  "AV_NOPTS_VALUE = 0x8000000000000000"

definition AV_PKT_FLAG_KEY :: i32 where
  "AV_PKT_FLAG_KEY = 1"

text \<open>GStreamer's element states.\<close>

datatype gst_state = GST_NULL | GST_READY | GST_PAUSED | GST_PLAYING

section \<open>Frames and packets of the program\<close>

record Frame =
  fr_frame :: "av_frame option"
  fr_pts :: i64
  fr_width :: int
  fr_height :: int
  fr_format :: pix_fmt

definition default_Frame :: Frame where
  "default_Frame = \<lparr>fr_frame = None, fr_pts = 0, fr_width = 0, fr_height = 0,
     fr_format = PIX_FMT_NONE\<rparr>"

record Packet =
  pk_packet :: "av_packet option"
  pk_pts :: i64
  pk_dts :: i64
  pk_size :: i32
  pk_isKeyframe :: bool

definition default_Packet :: Packet where
  "default_Packet = \<lparr>pk_packet = None, pk_pts = 0, pk_dts = 0, pk_size = 0,
     pk_isKeyframe = False\<rparr>"

section \<open>Configuration\<close>

record CaptureConfig =
  cc_devicePath :: string
  cc_inputFormat :: string
  cc_pixelFormat :: string
  cc_width :: int
  cc_height :: int
  cc_framerate :: int
  cc_bufferSize :: int

definition default_CaptureConfig :: CaptureConfig where
  "default_CaptureConfig = \<lparr>cc_devicePath = ''/dev/video0'', cc_inputFormat = ''v4l2'',
     cc_pixelFormat = '''', cc_width = 0, cc_height = 0, cc_framerate = 30, cc_bufferSize = 4\<rparr>"

datatype Preset = UltraFast | Fast | Medium | Slow

datatype EncoderType = Software | Hardware

record EncoderConfig =
  ec_width :: int
  ec_height :: int
  ec_bitrate :: int
  ec_framerate :: int
  ec_gopSize :: int
  ec_preset :: Preset
  ec_type :: EncoderType

definition default_EncoderConfig :: EncoderConfig where
  "default_EncoderConfig = \<lparr>ec_width = 0, ec_height = 0, ec_bitrate = 4000000,
     ec_framerate = 30, ec_gopSize = 60, ec_preset = UltraFast, ec_type = Software\<rparr>"

section \<open>Time bases\<close>

text \<open>
  \<open>av_rescale_q\<close> is FFmpeg's and stays a parameter; its documented result is
  \<open>a * bq / cq\<close> rounded to the nearest integer. \<open>rescales_to_nearest\<close> states that where
  the result fits into 64 bits.
\<close>

type_synonym rescale_q = "i64 \<Rightarrow> rational \<Rightarrow> rational \<Rightarrow> i64"

definition ns_tb :: rational where
  "ns_tb = \<lparr>num = 1, den = 1000000000\<rparr>"

definition fps_tb :: "int \<Rightarrow> rational" where
  "fps_tb framerate = \<lparr>num = 1, den = framerate\<rparr>"

definition fits_i64 :: "int \<Rightarrow> bool" where
  "fits_i64 x \<longleftrightarrow> - (2 ^ 62) \<le> x \<and> x \<le> 2 ^ 62"

definition rescales_to_nearest :: "rescale_q \<Rightarrow> bool" where
  "rescales_to_nearest resc \<longleftrightarrow>
     (\<forall>a b c. 0 < num b \<and> 0 < den b \<and> 0 < num c \<and> 0 < den c
        \<and> fits_i64 (sint a * num b * den c div (den b * num c)) \<longrightarrow>
        2 * \<bar>sint (resc a b c) * (den b * num c) - sint a * (num b * den c)\<bar> \<le> den b * num c)"

lemma div_fits:
  fixes x f :: int
  assumes "0 < f" and "\<bar>x\<bar> \<le> 2 ^ 62 * f"
  shows "fits_i64 (x div f)"
proof -
  have "(- (2 ^ 62)) * f \<le> x" "x \<le> 2 ^ 62 * f" using assms(2) by (simp_all add: abs_le_iff)
  then have "((- (2 ^ 62)) * f) div f \<le> x div f" "x div f \<le> (2 ^ 62 * f) div f"
    using assms(1) by (auto intro: zdiv_mono1 simp only:)
  moreover have "((- (2 ^ 62)) * f) div f = - (2 ^ 62)" "(2 ^ 62 * f) div f = 2 ^ 62"
    using assms(1) by (intro nonzero_mult_div_cancel_right, simp)+
  ultimately show ?thesis by (simp only: fits_i64_def)
qed

lemma rescales_to_nearestD:
  "rescales_to_nearest resc \<Longrightarrow> 0 < num b \<Longrightarrow> 0 < den b \<Longrightarrow> 0 < num c \<Longrightarrow> 0 < den c \<Longrightarrow>
   fits_i64 (sint a * num b * den c div (den b * num c)) \<Longrightarrow>
   2 * \<bar>sint (resc a b c) * (den b * num c) - sint a * (num b * den c)\<bar> \<le> den b * num c"
  by (simp add: rescales_to_nearest_def)

text \<open>\<open>Encoder::rescaleToNs\<close> and \<open>Decoder::rescaleToNs\<close> have the same body.\<close>

definition rescaleToNs :: "rescale_q \<Rightarrow> i64 \<Rightarrow> rational \<Rightarrow> i64" where
  "rescaleToNs resc value src_tb =
     (if value = AV_NOPTS_VALUE then 0 else resc value src_tb ns_tb)"

definition dec_rescaleToNs :: "rescale_q \<Rightarrow> i64 \<Rightarrow> rational \<Rightarrow> i64" where
  "dec_rescaleToNs resc value src_tb =
     (if value = AV_NOPTS_VALUE then 0 else resc value src_tb ns_tb)"

text \<open>A concrete rescaling, for evaluation: nearest, halves upwards.\<close>

definition rescale_ref :: rescale_q where
  "rescale_ref a b c = word_of_int
     ((2 * (sint a * (num b * den c)) + den b * num c) div (2 * (den b * num c)))"

lemma sint_word_of_int_i64:
  "- (2 ^ 63) \<le> x \<Longrightarrow> x < 2 ^ 63 \<Longrightarrow> sint (word_of_int x :: i64) = x"
  by (simp add: int_word_sint)

lemma nearest_div:
  fixes x d :: int
  assumes "0 < d"
  shows "2 * \<bar>((2 * x + d) div (2 * d)) * d - x\<bar> \<le> d"
proof -
  let ?q = "(2 * x + d) div (2 * d)" and ?r = "(2 * x + d) mod (2 * d)"
  have "?q * (2 * d) + ?r = 2 * x + d" by (rule div_mult_mod_eq)
  then have "2 * (?q * d - x) = d - ?r" by (simp add: algebra_simps)
  moreover have "0 \<le> ?r" "?r < 2 * d" using assms by simp_all
  ultimately show ?thesis by (simp only: abs_if split: if_split) linarith
qed

lemma nearest_div_floor:
  fixes x d :: int
  assumes "0 < d"
  shows "x div d \<le> (2 * x + d) div (2 * d)" and "(2 * x + d) div (2 * d) \<le> x div d + 1"
proof -
  have "x div d = (2 * x) div (2 * d)" by simp
  also have "\<dots> \<le> (2 * x + d) div (2 * d)" using assms by (intro zdiv_mono1) auto
  finally show "x div d \<le> (2 * x + d) div (2 * d)" .
  have "(2 * x + d) div (2 * d) \<le> (2 * x + 2 * d) div (2 * d)"
    using assms by (intro zdiv_mono1) auto
  also have "\<dots> = (2 * (x + d)) div (2 * d)" by (simp add: distrib_left)
  also have "\<dots> = (x + d) div d" by (rule div_mult_mult1) simp
  also have "\<dots> = x div d + 1" using assms by (intro div_add_self2) simp
  finally show "(2 * x + d) div (2 * d) \<le> x div d + 1" .
qed

lemma rescale_ref_nearest: "rescales_to_nearest rescale_ref"
  unfolding rescales_to_nearest_def
proof (intro allI impI, elim conjE)
  fix a :: i64 and b c :: rational
  assume pos: "0 < num b" "0 < den b" "0 < num c" "0 < den c"
    and fits: "fits_i64 (sint a * num b * den c div (den b * num c))"
  let ?x = "sint a * (num b * den c)" and ?d = "den b * num c"
  have d: "0 < ?d" using pos by simp
  have "sint (rescale_ref a b c) = (2 * ?x + ?d) div (2 * ?d)"
    unfolding rescale_ref_def using nearest_div_floor [OF d, of ?x] fits
    by (intro sint_word_of_int_i64) (simp_all add: fits_i64_def mult.assoc)
  with nearest_div [OF d, of ?x]
  show "2 * \<bar>sint (rescale_ref a b c) * ?d - ?x\<bar> \<le> ?d" by simp
qed

end
