(* ===== verification/Plane_Copy.thy ===== *)
theory Plane_Copy
  imports Common_Types
begin

text \<open>
  Copying image planes row by row. Three places of the program contain this loop: the
  camera capture thread (GStreamer buffer to \<open>AVFrame\<close>), the operator's preview
  (\<open>AVFrame\<close> to \<open>QVideoFrame\<close>) and the director's frame reader (LiveKit buffer to
  \<open>QVideoFrame\<close>). They share the row loop and differ in how wide and how high a plane
  they take, so the loop is verified once, in a locale, and the three instances are
  interpretations of it.
\<close>

section \<open>memcpy and the row loop\<close>

text \<open>
  \<open>std::memcpy(dst + doff, src + soff, n)\<close> on two buffers: outside either buffer the
  behaviour is undefined, which is the fault \<open>OutOfBounds\<close>.
\<close>

definition memcpy :: "byte list \<Rightarrow> int \<Rightarrow> byte list \<Rightarrow> int \<Rightarrow> int \<Rightarrow> byte list run" where
  "memcpy dst doff src soff n =
     (if 0 \<le> doff \<and> 0 \<le> soff \<and> 0 \<le> n \<and> doff + n \<le> int (length dst)
         \<and> soff + n \<le> int (length src)
      then Inr (take (nat doff) dst @ take (nat n) (drop (nat soff) src)
                @ drop (nat (doff + n)) dst)
      else Inl OutOfBounds)"

text \<open>
  \<open>for (int row = 0; row < height; ++row) memcpy(dst + row * dst_stride,
  src + row * src_stride, width)\<close>, from row \<open>row\<close> on.
\<close>

function copy_rows ::
  "int \<Rightarrow> int \<Rightarrow> int \<Rightarrow> int \<Rightarrow> byte list \<Rightarrow> int \<Rightarrow> byte list \<Rightarrow> byte list run" where
  "copy_rows height width dst_stride src_stride src row dst =
     (if row < height
      then andThen (memcpy dst (row * dst_stride) src (row * src_stride) (size_t width))
             (copy_rows height width dst_stride src_stride src (row + 1))
      else Inr dst)"
  by pat_completeness auto
termination
  by (relation "measure (\<lambda>(height, width, ds, ss, src, row, dst). nat (height - row))") auto

declare copy_rows.simps [simp del]

lemma memcpy_length: "memcpy dst doff src soff n = Inr dst' \<Longrightarrow> length dst' = length dst"
  by (auto simp: memcpy_def split: if_splits)

lemma memcpy_nth:
  assumes "memcpy dst doff src soff n = Inr dst'" and "i < length dst"
  shows "dst' ! i =
    (if doff \<le> int i \<and> int i < doff + n then src ! nat (soff + (int i - doff)) else dst ! i)"
proof -
  from assms(1) have b: "0 \<le> doff" "0 \<le> soff" "0 \<le> n" "doff + n \<le> int (length dst)"
      "soff + n \<le> int (length src)"
    and d: "dst' = take (nat doff) dst @ take (nat n) (drop (nat soff) src)
      @ drop (nat (doff + n)) dst"
    by (auto simp: memcpy_def split: if_splits)
  have ld: "nat doff \<le> length dst" "nat soff + nat n \<le> length src" using b by auto
  consider "i < nat doff" | "nat doff \<le> i" "i < nat doff + nat n" | "nat doff + nat n \<le> i"
    by linarith
  then show ?thesis
  proof cases
    case 1
    then have "\<not> doff \<le> int i" by linarith
    with 1 b ld d show ?thesis by (simp add: nth_append)
  next
    case 2
    then have "i - nat doff < nat n" "i - nat doff < length src - nat soff"
      using ld by linarith+
    then have "dst' ! i = src ! (nat soff + (i - nat doff))"
      using 2 b ld d by (simp add: nth_append)
    moreover have "nat (soff + (int i - doff)) = nat soff + (i - nat doff)" using b 2 by linarith
    ultimately show ?thesis using b 2 by auto
  next
    case 3
    then have "\<not> i - nat doff < nat n" "\<not> int i < doff + n" "\<not> i < nat doff"
        "min (length src - nat soff) (nat n) = nat n"
      using ld b by linarith+
    with 3 b ld d assms(2) show ?thesis by (simp add: nth_append nat_add_distrib)
  qed
qed

section \<open>A plane's geometry and what the row loop does with it\<close>

text \<open>
  The contract between a caller and the row loop: rows are at least as far apart as the
  bytes copied, and both buffers hold every row that is copied.
\<close>

definition plane_fits :: "int \<Rightarrow> int \<Rightarrow> int \<Rightarrow> int \<Rightarrow> byte list \<Rightarrow> byte list \<Rightarrow> bool" where
  "plane_fits height width dst_stride src_stride src dst \<longleftrightarrow>
     0 \<le> width \<and> width \<le> dst_stride \<and> width \<le> src_stride
     \<and> height * dst_stride \<le> int (length dst) \<and> height * src_stride \<le> int (length src)"

text \<open>
  Position \<open>i\<close> of a destination with row distance \<open>ds\<close> is in row \<open>i div ds\<close>, column
  \<open>i mod ds\<close>. \<open>copied\<close> is the specification of a finished copy.
\<close>

definition copied :: "int \<Rightarrow> int \<Rightarrow> int \<Rightarrow> int \<Rightarrow> byte list \<Rightarrow> byte list \<Rightarrow> byte list \<Rightarrow> bool" where
  "copied height width dst_stride src_stride src dst dst' \<longleftrightarrow>
     length dst' = length dst \<and>
     (\<forall>row col. 0 \<le> row \<and> 0 \<le> col \<and> col < dst_stride
        \<and> row * dst_stride + col < int (length dst) \<longrightarrow>
        dst' ! nat (row * dst_stride + col) =
          (if row < height \<and> col < width
           then src ! nat (row * src_stride + col)
           else dst ! nat (row * dst_stride + col)))"

lemma row_offset_bound:
  fixes row height stride width :: int
  assumes "0 \<le> row" "row < height" "width \<le> stride" "0 \<le> width"
  shows "row * stride + width \<le> height * stride"
proof -
  have "row * stride + width \<le> (row + 1) * stride" using assms by (simp add: algebra_simps)
  also have "\<dots> \<le> height * stride" using assms by (intro mult_right_mono) auto
  finally show ?thesis .
qed

lemma in_row_iff:
  fixes row r col stride width :: int
  assumes "0 \<le> col" "col < stride" "width \<le> stride" "0 \<le> width"
  shows "(row * stride \<le> r * stride + col \<and> r * stride + col < row * stride + width)
     \<longleftrightarrow> (r = row \<and> col < width)"
proof
  assume h: "row * stride \<le> r * stride + col \<and> r * stride + col < row * stride + width"
  have s: "0 < stride" using assms by simp
  have "row = (row * stride) div stride" using s by simp
  also have "\<dots> \<le> (r * stride + col) div stride" using h s by (intro zdiv_mono1) auto
  also have "\<dots> = r" using assms s by simp
  finally have a: "row \<le> r" .
  have "r * stride < (row + 1) * stride" using h assms by (simp add: algebra_simps)
  then have "r \<le> row" using s by (simp add: mult_less_cancel_right)
  with a h show "r = row \<and> col < width" by simp
qed (use assms in auto)

lemma memcpy_row:
  assumes fit: "plane_fits height width ds ss src dst" and row: "0 \<le> row" "row < height"
  obtains dst' where "memcpy dst (row * ds) src (row * ss) (size_t width) = Inr dst'"
    and "length dst' = length dst"
    and "\<And>r col. 0 \<le> r \<Longrightarrow> 0 \<le> col \<Longrightarrow> col < ds \<Longrightarrow> r * ds + col < int (length dst) \<Longrightarrow>
      dst' ! nat (r * ds + col) =
        (if r = row \<and> col < width then src ! nat (r * ss + col) else dst ! nat (r * ds + col))"
proof -
  from fit have w: "0 \<le> width" "width \<le> ds" "width \<le> ss"
    and l: "height * ds \<le> int (length dst)" "height * ss \<le> int (length src)"
    by (auto simp: plane_fits_def)
  have "row * ds + width \<le> int (length dst)" "row * ss + width \<le> int (length src)"
    using row_offset_bound [OF row] w l by (meson order_trans)+
  then obtain dst' where m: "memcpy dst (row * ds) src (row * ss) (size_t width) = Inr dst'"
    using row w by (auto simp: memcpy_def size_t_def)
  show thesis
  proof (rule that [OF m memcpy_length [OF m]])
    fix r col :: int
    assume rc: "0 \<le> r" "0 \<le> col" "col < ds" "r * ds + col < int (length dst)"
    have nn: "0 \<le> r * ds + col" using rc by simp
    then have "nat (r * ds + col) < length dst" using rc by linarith
    from memcpy_nth [OF m this] nn w
    have "dst' ! nat (r * ds + col) =
      (if row * ds \<le> r * ds + col \<and> r * ds + col < row * ds + width
       then src ! nat (row * ss + (r * ds + col - row * ds)) else dst ! nat (r * ds + col))"
      by (simp add: size_t_def)
    with in_row_iff [of col ds width row r] rc w
    show "dst' ! nat (r * ds + col) =
        (if r = row \<and> col < width then src ! nat (r * ss + col) else dst ! nat (r * ds + col))"
      by auto
  qed
qed

lemma copy_rows_from:
  assumes "plane_fits height width ds ss src dst" and "0 \<le> row"
  shows "\<exists>dst'. copy_rows height width ds ss src row dst = Inr dst' \<and> length dst' = length dst \<and>
     (\<forall>r col. 0 \<le> r \<and> 0 \<le> col \<and> col < ds \<and> r * ds + col < int (length dst) \<longrightarrow>
        dst' ! nat (r * ds + col) =
          (if row \<le> r \<and> r < height \<and> col < width
           then src ! nat (r * ss + col) else dst ! nat (r * ds + col)))"
  using assms
proof (induction height width ds ss src row dst rule: copy_rows.induct)
  case (1 height width ds ss src row dst)
  show ?case
  proof (cases "row < height")
    case False
    then show ?thesis by (auto simp: copy_rows.simps [of height width ds ss src row dst])
  next
    case True
    with "1.prems" obtain d1 where m: "memcpy dst (row * ds) src (row * ss) (size_t width) = Inr d1"
      and len: "length d1 = length dst"
      and nth: "\<And>r col. 0 \<le> r \<Longrightarrow> 0 \<le> col \<Longrightarrow> col < ds \<Longrightarrow> r * ds + col < int (length dst) \<Longrightarrow>
        d1 ! nat (r * ds + col) =
        (if r = row \<and> col < width then src ! nat (r * ss + col) else dst ! nat (r * ds + col))"
      using memcpy_row by blast
    have "plane_fits height width ds ss src d1" using "1.prems" len by (simp add: plane_fits_def)
    then obtain d2 where r2: "copy_rows height width ds ss src (row + 1) d1 = Inr d2"
      and l2: "length d2 = length d1"
      and n2: "\<forall>r col. 0 \<le> r \<and> 0 \<le> col \<and> col < ds \<and> r * ds + col < int (length d1) \<longrightarrow>
        d2 ! nat (r * ds + col) =
          (if row + 1 \<le> r \<and> r < height \<and> col < width
           then src ! nat (r * ss + col) else d1 ! nat (r * ds + col))"
      using "1.IH" [OF True] "1.prems"(2) by fastforce
    have "copy_rows height width ds ss src row dst = Inr d2"
      using True m r2 by (simp add: copy_rows.simps [of height width ds ss src row dst])
    moreover have "length d2 = length dst" using l2 len by simp
    ultimately show ?thesis using n2 nth len True by (intro exI [of _ d2]) auto
  qed
qed

theorem copy_rows_copied:
  assumes "plane_fits height width ds ss src dst"
  shows "\<exists>dst'. copy_rows height width ds ss src 0 dst = Inr dst'
     \<and> copied height width ds ss src dst dst'"
  using copy_rows_from [OF assms, of 0] by (auto simp: copied_def)

section \<open>Planes of an image\<close>

text \<open>
  A plane is a row distance with its bytes. The three loops visit planes 0, 1, 2 in order;
  \<open>rows p\<close> and \<open>cols p src_stride dst_stride\<close> are what the caller computes for plane
  \<open>p\<close> before it runs the row loop.
\<close>

type_synonym plane = "int \<times> byte list"

fun copy_planes ::
  "(nat \<Rightarrow> int) \<Rightarrow> (nat \<Rightarrow> int \<Rightarrow> int \<Rightarrow> int) \<Rightarrow> nat \<Rightarrow> nat \<Rightarrow> plane list \<Rightarrow> plane list \<Rightarrow>
   plane list run" where
  "copy_planes rows cols p 0 srcs dsts = Inr dsts"
| "copy_planes rows cols p (Suc n) ((ss, s) # srcs) ((ds, d) # dsts) =
     andThen (copy_rows (rows p) (cols p ss ds) ds ss s 0 d)
       (\<lambda>d'. andThen (copy_planes rows cols (Suc p) n srcs dsts)
          (\<lambda>ds'. Inr ((ds, d') # ds')))"
| "copy_planes rows cols p (Suc n) _ _ = Inl OutOfBounds"

text \<open>Rows a YUV 4:2:0 plane of an image of height \<open>h\<close> really has: chroma rounds up.\<close>

definition plane_rows :: "int \<Rightarrow> nat \<Rightarrow> int" where
  "plane_rows h p = (if p = 0 then h else (h + 1) div 2)"

text \<open>The three callers: rows and columns as each computes them.\<close>

definition capture_rows :: "int \<Rightarrow> nat \<Rightarrow> int" where
  "capture_rows h p = (if p = 0 then h else c_div2 (h + 1))"

definition preview_rows :: "int \<Rightarrow> nat \<Rightarrow> int" where
  "preview_rows h p = (if p = 0 then h else c_div2 h)"

definition reader_rows :: "int \<Rightarrow> nat \<Rightarrow> int" where
  "reader_rows h p = (if p = 0 then h else c_div2 h)"

definition min_cols :: "nat \<Rightarrow> int \<Rightarrow> int \<Rightarrow> int" where
  "min_cols p src_stride dst_stride = min src_stride dst_stride"

definition reader_cols :: "int \<Rightarrow> nat \<Rightarrow> int \<Rightarrow> int \<Rightarrow> int" where
  "reader_cols w p src_stride dst_stride = (if p = 0 then w else c_div2 w)"

text \<open>What the copying callers rely on: strides that are wide enough, planes that are complete.\<close>

definition strides_nonneg :: "nat \<Rightarrow> int \<Rightarrow> int \<Rightarrow> bool" where
  "strides_nonneg p ss ds \<longleftrightarrow> 0 \<le> ss \<and> 0 \<le> ds"

definition strides_hold :: "int \<Rightarrow> nat \<Rightarrow> int \<Rightarrow> int \<Rightarrow> bool" where
  "strides_hold w p ss ds \<longleftrightarrow> 0 \<le> w \<and>
     (if p = 0 then w \<le> ss \<and> w \<le> ds else w div 2 \<le> ss \<and> w div 2 \<le> ds)"

definition plane_complete :: "int \<Rightarrow> nat \<Rightarrow> plane \<Rightarrow> bool" where
  "plane_complete h p pl \<longleftrightarrow> plane_rows h p * fst pl \<le> int (length (snd pl))"

fun planes_ok ::
  "(nat \<Rightarrow> int \<Rightarrow> int \<Rightarrow> bool) \<Rightarrow> int \<Rightarrow> nat \<Rightarrow> nat \<Rightarrow> plane list \<Rightarrow> plane list \<Rightarrow> bool" where
  "planes_ok geom h p 0 srcs dsts = True"
| "planes_ok geom h p (Suc n) (s # srcs) (d # dsts) =
     (geom p (fst s) (fst d) \<and> plane_complete h p s \<and> plane_complete h p d
      \<and> planes_ok geom h (Suc p) n srcs dsts)"
| "planes_ok geom h p (Suc n) _ _ = False"

text \<open>
  The interface of the row-by-row copiers: the columns never exceed either stride where the
  caller's condition \<open>geom\<close> on strides holds, and the rows never exceed those of the plane.
\<close>

locale plane_copier =
  fixes rows :: "int \<Rightarrow> nat \<Rightarrow> int"
    and cols :: "nat \<Rightarrow> int \<Rightarrow> int \<Rightarrow> int"
    and geom :: "nat \<Rightarrow> int \<Rightarrow> int \<Rightarrow> bool"
  assumes cols_nonneg: "geom p ss ds \<Longrightarrow> 0 \<le> cols p ss ds"
    and cols_le_src: "geom p ss ds \<Longrightarrow> cols p ss ds \<le> ss"
    and cols_le_dst: "geom p ss ds \<Longrightarrow> cols p ss ds \<le> ds"
    and rows_le: "0 \<le> h \<Longrightarrow> rows h p \<le> plane_rows h p"
begin

lemma plane_fits_caller:
  assumes "0 \<le> h" "geom p (fst s) (fst d)" "plane_complete h p s" "plane_complete h p d"
  shows "plane_fits (rows h p) (cols p (fst s) (fst d)) (fst d) (fst s) (snd s) (snd d)"
proof -
  have nn: "0 \<le> fst s" "0 \<le> fst d"
    using cols_nonneg cols_le_src cols_le_dst assms(2) by (meson order_trans)+
  have "rows h p * fst s \<le> plane_rows h p * fst s" "rows h p * fst d \<le> plane_rows h p * fst d"
    using rows_le [OF assms(1), of p] nn by (auto intro: mult_right_mono)
  with assms show ?thesis
    by (auto simp: plane_fits_def plane_complete_def cols_nonneg cols_le_src cols_le_dst)
qed

lemma copy_planes_correct:
  assumes "0 \<le> h" and "planes_ok geom h p n srcs dsts"
  shows "\<exists>dsts'. copy_planes (rows h) cols p n srcs dsts = Inr dsts' \<and> length dsts' = length dsts
     \<and> (\<forall>i < n. fst (dsts' ! i) = fst (dsts ! i) \<and>
          copied (rows h (p + i)) (cols (p + i) (fst (srcs ! i)) (fst (dsts ! i)))
            (fst (dsts ! i)) (fst (srcs ! i)) (snd (srcs ! i)) (snd (dsts ! i)) (snd (dsts' ! i)))"
  using assms(2)
proof (induction n arbitrary: p srcs dsts)
  case 0
  then show ?case by simp
next
  case (Suc n)
  then obtain s srcs' d dsts' where l: "srcs = s # srcs'" "dsts = d # dsts'"
    and ok: "geom p (fst s) (fst d)" "plane_complete h p s" "plane_complete h p d"
      "planes_ok geom h (Suc p) n srcs' dsts'"
    by (cases srcs; cases dsts) auto
  obtain d' where r: "copy_rows (rows h p) (cols p (fst s) (fst d)) (fst d) (fst s) (snd s) 0 (snd d)
      = Inr d'"
    and c: "copied (rows h p) (cols p (fst s) (fst d)) (fst d) (fst s) (snd s) (snd d) d'"
    using copy_rows_copied [OF plane_fits_caller [OF assms(1) ok(1-3)]] by blast
  from Suc.IH [OF ok(4)] obtain ds'' where
    rest: "copy_planes (rows h) cols (Suc p) n srcs' dsts' = Inr ds''" "length ds'' = length dsts'"
      "\<forall>i < n. fst (ds'' ! i) = fst (dsts' ! i) \<and>
        copied (rows h (Suc p + i)) (cols (Suc p + i) (fst (srcs' ! i)) (fst (dsts' ! i)))
          (fst (dsts' ! i)) (fst (srcs' ! i)) (snd (srcs' ! i)) (snd (dsts' ! i)) (snd (ds'' ! i))"
    by blast
  have "copy_planes (rows h) cols p (Suc n) srcs dsts = Inr ((fst d, d') # ds'')"
    using l r rest(1) by (cases s; cases d) simp
  with rest(2,3) c l show ?case
    by (intro exI [of _ "(fst d, d') # ds''"]) (auto simp: less_Suc_eq_0_disj)
qed

end

lemma c_div2_nonneg: "0 \<le> x \<Longrightarrow> c_div2 x = x div 2"
  by (simp add: c_div2_def)

interpretation capture_copy: plane_copier capture_rows min_cols strides_nonneg
  by unfold_locales (auto simp: min_cols_def strides_nonneg_def capture_rows_def plane_rows_def
      c_div2_nonneg)

interpretation preview_copy: plane_copier preview_rows min_cols strides_nonneg
  by unfold_locales (auto simp: min_cols_def strides_nonneg_def preview_rows_def plane_rows_def
      c_div2_nonneg)

interpretation reader_copy: plane_copier reader_rows "reader_cols w" "strides_hold w" for w
  by unfold_locales (auto simp: reader_cols_def strides_hold_def reader_rows_def plane_rows_def
      c_div2_nonneg split: if_splits)

end
