(* ===== verification/Camera_Capture.thy ===== *)
theory Camera_Capture
  imports Plane_Copy "HOL-Library.Sublist"
begin

text \<open>
  \<open>video-core/src/capture/camera_capture.cpp\<close>: choosing a GStreamer pipeline among
  candidates, starting and stopping it, and the capture thread's loop, which copies each
  sample into a \<open>Frame\<close>. GStreamer's answers are parameters; its objects are handles in
  the ledger.
\<close>

section \<open>Configuration and candidate pipelines\<close>

text \<open>\<open>std::to_string\<close> of an \<open>int\<close>.\<close>

fun nat_to_string :: "nat \<Rightarrow> string" where
  "nat_to_string n =
     (if n < 10 then [char_of (48 + n)] else nat_to_string (n div 10) @ [char_of (48 + n mod 10)])"

declare nat_to_string.simps [simp del]

definition to_string :: "int \<Rightarrow> string" where
  "to_string i = (if i < 0 then ''-'' @ nat_to_string (nat (- i)) else nat_to_string (nat i))"

text \<open>The defaults \<open>CameraCapture::initialize\<close> applies to unspecified values.\<close>

definition apply_defaults :: "CaptureConfig \<Rightarrow> CaptureConfig" where
  "apply_defaults cfg =
     (let cfg = (if cc_width cfg = 0 then cfg\<lparr>cc_width := 1280\<rparr> else cfg);
          cfg = (if cc_height cfg = 0 then cfg\<lparr>cc_height := 720\<rparr> else cfg)
      in if cc_framerate cfg = 0 then cfg\<lparr>cc_framerate := 30\<rparr> else cfg)"

definition raw_caps :: "int \<Rightarrow> int \<Rightarrow> int \<Rightarrow> string" where
  "raw_caps w h f = ''video/x-raw,format=I420,width='' @ to_string w @ '',height='' @ to_string h
     @ '',framerate='' @ to_string f @ ''/1''"

definition sink_props :: string where
  "sink_props = ''appsink name=sink sync=false max-buffers=4 drop=true emit-signals=false''"

definition candidates :: "CaptureConfig \<Rightarrow> bool \<Rightarrow> string list" where
  "candidates cfg pipewire =
     (let w = cc_width cfg; h = cc_height cfg; f = cc_framerate cfg; dev = cc_devicePath cfg;
          raw = raw_caps w h f in
      [''v4l2src device='' @ dev @ '' ! image/jpeg,width='' @ to_string w @ '',height=''
         @ to_string h @ '',framerate='' @ to_string f @ ''/1''
         @ '' ! jpegdec ! videoconvert ! video/x-raw,format=I420 ! '' @ sink_props,
       ''v4l2src device='' @ dev @ '' ! video/x-raw,width='' @ to_string w @ '',height=''
         @ to_string h @ '',framerate='' @ to_string f @ ''/1''
         @ '' ! videoconvert ! video/x-raw,format=I420 ! '' @ sink_props]
      @ (if pipewire then
           [''pipewiresrc target-object='' @ dev @ '' do-timestamp=true''
              @ '' ! jpegdec ! videoconvert ! videoscale ! '' @ raw @ '' ! '' @ sink_props,
            ''pipewiresrc do-timestamp=true''
              @ '' ! jpegdec ! videoconvert ! videoscale ! '' @ raw @ '' ! '' @ sink_props,
            ''pipewiresrc target-object='' @ dev @ '' do-timestamp=true''
              @ '' ! videoconvert ! videoscale ! '' @ raw @ '' ! '' @ sink_props,
            ''pipewiresrc do-timestamp=true''
              @ '' ! videoconvert ! videoscale ! '' @ raw @ '' ! '' @ sink_props]
         else []))"

section \<open>Probing a candidate\<close>

text \<open>
  GStreamer's answers about one candidate: \<open>gst_parse_launch\<close> (an error and a pipeline can
  come together), the transition to READY, the element named \<open>sink\<close>, the bus.
\<close>

record gst_probe =
  gp_parse_error :: bool
  gp_pipeline :: bool
  gp_set_ready :: bool
  gp_get_state :: "bool \<times> gst_state"
  gp_sink :: bool
  gp_bus :: bool
  gp_msg :: "(string option \<times> string option) option"

text \<open>
  Asking a bus for an error message and logging it: bus, message and the parsed error and debug
  strings are objects that have to be given back. \<open>msg\<close> is the message the bus had within its
  500 ms, with the two strings that may be null.
\<close>

definition drain_bus ::
  "string \<Rightarrow> bool \<Rightarrow> (string option \<times> string option) option \<Rightarrow> ledger \<Rightarrow> (string list \<times> ledger) run" where
  "drain_bus label bus msg L =
     (if \<not> bus then Inr ([], L)
      else (case acquire L of (b, L) \<Rightarrow>
        (case msg of
           None \<Rightarrow> andThen (release b L) (\<lambda>L. Inr ([], L))
         | Some (err, dbg) \<Rightarrow>
            (case acquire L of (m, L) \<Rightarrow> case try_acquire (err \<noteq> None) L of (e, L) \<Rightarrow>
             case try_acquire (dbg \<noteq> None) L of (d, L) \<Rightarrow>
               andThen (release_opt e L) (\<lambda>L. andThen (release_opt d L) (\<lambda>L.
               andThen (release m L) (\<lambda>L. andThen (release b L) (\<lambda>L.
                 Inr ([label @ (case err of None \<Rightarrow> ''?'' | Some t \<Rightarrow> t)
                       @ (case dbg of None \<Rightarrow> [] | Some t \<Rightarrow> '' | '' @ t)], L)))))))))"

lemma drain_bus_balanced:
  obtains out L' where "drain_bus label bus msg L = Inr (out, L')" "balanced L L'"
proof -
  have "\<exists>out L'. drain_bus label bus msg L = Inr (out, L') \<and> balanced L L'"
    by (cases msg) (auto simp: drain_bus_def acquire_def try_acquire_def release_def balanced_def
        split: option.splits)
  then show thesis using that by blast
qed

text \<open>
  Giving up on a candidate: the bus is asked for a diagnostic message, then the pipeline goes
  to NULL and its reference is dropped. Each of these uses the pipeline.
\<close>

definition discard_candidate :: "gst_probe \<Rightarrow> handle \<Rightarrow> ledger \<Rightarrow> ledger run" where
  "discard_candidate g p L =
     andThen (use_handle p L)
       (\<lambda>L. andThen (drain_bus ''[CameraCapture] error: '' (gp_bus g) (gp_msg g) L)
       (\<lambda>(out, L). andThen (use_handle p L) (release p)))"

text \<open>
  The candidate loop of \<open>buildPipeline\<close>. When READY is reached but the sink is missing, the
  source unrefs the pipeline and then falls through to the code that gives up on it.
\<close>

fun try_candidates ::
  "(string \<Rightarrow> gst_probe) \<Rightarrow> string list \<Rightarrow> ledger \<Rightarrow> ((handle \<times> handle) option \<times> ledger) run" where
  "try_candidates gst [] L = Inr (None, L)"
| "try_candidates gst (c # cs) L =
     (let g = gst c in
      case try_acquire (gp_pipeline g) L of (p, L) \<Rightarrow>
        if gp_parse_error g \<or> p = None
        then andThen (release_opt p L) (try_candidates gst cs)
        else
          if gp_set_ready g \<and> fst (gp_get_state g) \<and> snd (gp_get_state g) = GST_READY
          then if gp_sink g
            then (case acquire L of (s, L) \<Rightarrow> Inr (Some (the p, s), L))
            else andThen (release (the p) L)
              (\<lambda>L. andThen (discard_candidate g (the p) L) (try_candidates gst cs))
          else andThen (discard_candidate g (the p) L) (try_candidates gst cs))"

text \<open>
  \<open>logPipelineError\<close>, which \<open>start\<close> calls when the pipeline does not play.
\<close>

definition logPipelineError ::
  "bool \<Rightarrow> (string option \<times> string option) option \<Rightarrow> handle \<Rightarrow> ledger \<Rightarrow> (string list \<times> ledger) run" where
  "logPipelineError bus msg p L =
     andThen (use_handle p L) (drain_bus ''[CameraCapture] pipeline error: '' bus msg)"

lemma logPipelineError_balanced:
  assumes "p \<in> set (live L)"
  obtains out L' where "logPipelineError bus msg p L = Inr (out, L')" "balanced L L'"
proof -
  obtain out L' where "drain_bus ''[CameraCapture] pipeline error: '' bus msg L = Inr (out, L')"
    "balanced L L'" by (rule drain_bus_balanced)
  with assms that show thesis by (simp add: logPipelineError_def)
qed

section \<open>The capture object\<close>

record camera =
  cam_config :: CaptureConfig
  cam_pipeline :: "handle option"
  cam_appsink :: "handle option"
  cam_state :: gst_state
  cam_running :: bool
  cam_thread :: bool
  cam_width :: int
  cam_height :: int
  cam_framerate :: int
  cam_callback :: bool

definition new_camera :: camera where
  "new_camera = \<lparr>cam_config = default_CaptureConfig, cam_pipeline = None, cam_appsink = None,
     cam_state = GST_NULL, cam_running = False, cam_thread = False, cam_width = 0, cam_height = 0,
     cam_framerate = 0, cam_callback = False\<rparr>"

text \<open>The factory of \<open>pipewiresrc\<close>, if there is one, is looked up and given back at once.\<close>

definition buildPipeline ::
  "(string \<Rightarrow> gst_probe) \<Rightarrow> bool \<Rightarrow> camera \<Rightarrow> ledger \<Rightarrow> (Result \<times> camera \<times> ledger) run" where
  "buildPipeline gst pipewire cam L =
     andThen (andThen (if pipewire then transient L else Inr L)
         (try_candidates gst (candidates (cam_config cam) pipewire)))
       (\<lambda>(r, L). case r of
          None \<Rightarrow> Inr (ErrorDeviceNotFound, cam, L)
        | Some (p, s) \<Rightarrow> Inr (Success, cam\<lparr>cam_pipeline := Some p, cam_appsink := Some s,
            cam_state := GST_READY,
            cam_width := cc_width (cam_config cam), cam_height := cc_height (cam_config cam),
            cam_framerate := cc_framerate (cam_config cam)\<rparr>, L))"

definition after_lookup :: "bool \<Rightarrow> ledger \<Rightarrow> ledger" where
  "after_lookup pipewire L = (if pipewire then L\<lparr>next_handle := Suc (next_handle L)\<rparr> else L)"

lemma balanced_after_lookup: "balanced L (after_lookup pw L)"
  by (simp add: balanced_def after_lookup_def)

lemma live_after_lookup [simp]: "live (after_lookup pw L) = live L"
  by (simp add: after_lookup_def)

lemma wf_after_lookup: "wf_ledger L \<Longrightarrow> wf_ledger (after_lookup pw L)"
  using balanced_after_lookup by (rule balanced_wf)

lemma buildPipeline_eq:
  "buildPipeline gst pipewire cam L =
     andThen (try_candidates gst (candidates (cam_config cam) pipewire) (after_lookup pipewire L))
       (\<lambda>(r, L). case r of
          None \<Rightarrow> Inr (ErrorDeviceNotFound, cam, L)
        | Some (p, s) \<Rightarrow> Inr (Success, cam\<lparr>cam_pipeline := Some p, cam_appsink := Some s,
            cam_state := GST_READY,
            cam_width := cc_width (cam_config cam), cam_height := cc_height (cam_config cam),
            cam_framerate := cc_framerate (cam_config cam)\<rparr>, L))"
  by (simp add: buildPipeline_def after_lookup_def transient_eq)

definition cam_initialize ::
  "(string \<Rightarrow> gst_probe) \<Rightarrow> bool \<Rightarrow> CaptureConfig \<Rightarrow> camera \<Rightarrow> ledger \<Rightarrow>
   (Result \<times> camera \<times> ledger) run" where
  "cam_initialize gst pipewire cfg cam L =
     buildPipeline gst pipewire (cam\<lparr>cam_config := apply_defaults cfg\<rparr>) L"

text \<open>Answers of \<open>gst_element_set_state(PLAYING)\<close> (not FAILURE) and of the wait for it.\<close>

record play_answers =
  pa_set_playing :: bool
  pa_get_state :: "bool \<times> gst_state"

definition cam_start :: "play_answers \<Rightarrow> bool \<Rightarrow> camera \<Rightarrow> Result \<times> camera" where
  "cam_start a cb cam =
     (if cam_pipeline cam = None then (ErrorInitFailed, cam)
      else if cam_running cam \<or> cam_thread cam then (ErrorInitFailed, cam)
      else (let cam = cam\<lparr>cam_callback := cb\<rparr> in
        if \<not> pa_set_playing a then (ErrorCaptureFailed, cam\<lparr>cam_state := GST_NULL\<rparr>)
        else if \<not> fst (pa_get_state a) \<or> snd (pa_get_state a) \<noteq> GST_PLAYING
        then (ErrorCaptureFailed, cam\<lparr>cam_state := GST_NULL\<rparr>)
        else (Success, cam\<lparr>cam_state := GST_PLAYING, cam_running := True, cam_thread := True\<rparr>)))"

definition cam_stop :: "camera \<Rightarrow> Result \<times> camera" where
  "cam_stop cam =
     (if \<not> cam_running cam then (Success, cam)
      else (let cam = cam\<lparr>cam_running := False\<rparr>;
                cam = (if cam_thread cam then cam\<lparr>cam_thread := False\<rparr> else cam);
                cam = (if cam_pipeline cam \<noteq> None then cam\<lparr>cam_state := GST_NULL\<rparr> else cam)
            in (Success, cam)))"

text \<open>The destructor; the thread member is joined after its body.\<close>

definition cam_destroy :: "camera \<Rightarrow> ledger \<Rightarrow> (camera \<times> ledger) run" where
  "cam_destroy cam L =
     (let cam = snd (cam_stop cam) in
      andThen (release_opt (cam_appsink cam) L)
        (\<lambda>L. andThen (case cam_pipeline cam of None \<Rightarrow> Inr L
                        | Some p \<Rightarrow> andThen (use_handle p L) (release p))
        (\<lambda>L. Inr (cam\<lparr>cam_appsink := None, cam_pipeline := None, cam_state := GST_NULL,
                      cam_thread := False\<rparr>, L))))"

section \<open>The capture loop\<close>

datatype bus_message = BusError | BusEOS

text \<open>
  A pulled sample with everything the loop asks of it; \<open>gs_buffers\<close> are the planes
  \<open>av_frame_get_buffer\<close> allocates for the copy (none when it fails).
\<close>

record gst_sample =
  gs_caps :: bool
  gs_buffer :: bool
  gs_info :: bool
  gs_map :: bool
  gs_frame_alloc :: bool
  gs_width :: int
  gs_height :: int
  gs_planes :: "plane list"
  gs_buffers :: "plane list option"
  gs_pts :: u64

text \<open>One pass: no sample (with what the bus held), or a sample.\<close>

datatype pull = NoSample "bus_message option" | Sample gst_sample

definition GST_CLOCK_TIME_NONE :: u64 where
  "GST_CLOCK_TIME_NONE = - 1"

definition capture_copy_planes :: "int \<Rightarrow> plane list \<Rightarrow> plane list \<Rightarrow> plane list run" where
  "capture_copy_planes h srcs dsts = copy_planes (capture_rows h) min_cols 0 3 srcs dsts"

definition capture_avframe :: "gst_sample \<Rightarrow> plane list \<Rightarrow> av_frame" where
  "capture_avframe s planes = \<lparr>af_format = PIX_FMT_YUV420P, af_width = gs_width s,
     af_height = gs_height s, af_linesize = map fst planes, af_data = map snd planes,
     af_color_range = RANGE_UNSPECIFIED, af_pict_type = PICTURE_TYPE_NONE,
     af_pts = (if gs_pts s \<noteq> GST_CLOCK_TIME_NONE then gs_pts s else 0)\<rparr>"

text \<open>From sample to frame; \<open>None\<close> where the source continues with the next sample.\<close>

definition capture_frame :: "gst_sample \<Rightarrow> Frame option run" where
  "capture_frame s =
     (if \<not> gs_caps s \<or> \<not> gs_buffer s then Inr None
      else if \<not> gs_info s then Inr None
      else if \<not> gs_map s then Inr None
      else if \<not> gs_frame_alloc s then Inr None
      else (case gs_buffers s of
          None \<Rightarrow> Inr None
        | Some bufs \<Rightarrow>
            andThen (capture_copy_planes (gs_height s) (gs_planes s) bufs)
              (\<lambda>planes. let avf = capture_avframe s planes in
                 Inr (Some \<lparr>fr_frame = Some avf, fr_pts = af_pts avf, fr_width = af_width avf,
                   fr_height = af_height avf, fr_format = PIX_FMT_YUV420P\<rparr>))))"

text \<open>
  The loop over a (finite part of a) run of the thread: each pass sees the stop token and then
  its pull. The result is the frames given to the callback and whether the loop has ended;
  when it has, \<open>running_\<close> is cleared.
\<close>

fun captureLoop :: "bool \<Rightarrow> (bool \<times> pull) list \<Rightarrow> (Frame list \<times> bool) run" where
  "captureLoop cb [] = Inr ([], False)"
| "captureLoop cb ((stop_requested, p) # ps) =
     (if stop_requested then Inr ([], True)
      else (case p of
          NoSample (Some m) \<Rightarrow> Inr ([], True)
        | NoSample None \<Rightarrow> captureLoop cb ps
        | Sample s \<Rightarrow>
            andThen (capture_frame s) (\<lambda>r. andThen (captureLoop cb ps)
              (\<lambda>(fs, ended). Inr ((case r of None \<Rightarrow> fs | Some f \<Rightarrow> if cb then f # fs else fs), ended)))))"

definition cam_loop_end :: "camera \<Rightarrow> camera" where
  "cam_loop_end cam = cam\<lparr>cam_running := False\<rparr>"

section \<open>The camera as a service\<close>

definition cam_inv :: "camera \<Rightarrow> bool" where
  "cam_inv cam \<longleftrightarrow> (cam_running cam \<longrightarrow> cam_pipeline cam \<noteq> None \<and> cam_thread cam \<and> cam_state cam = GST_PLAYING)"

definition cam_start_op :: "play_answers \<times> bool \<Rightarrow> camera \<Rightarrow> (Result \<times> camera) run" where
  "cam_start_op e cam = Inr (cam_start (fst e) (snd e) cam)"

definition cam_stop_op :: "play_answers \<times> bool \<Rightarrow> camera \<Rightarrow> (Result \<times> camera) run" where
  "cam_stop_op e cam = Inr (cam_stop cam)"

definition is_Success :: "Result \<Rightarrow> bool" where
  "is_Success r \<longleftrightarrow> r = Success"

lemmas cam_op_defs = cam_start_op_def cam_stop_op_def cam_start_def cam_stop_def cam_inv_def
  is_Success_def

interpretation camera_service: service cam_start_op cam_stop_op cam_running cam_inv is_Success
  by unfold_locales (auto simp: cam_op_defs Let_def split: if_splits)

lemma cam_start_inv: "cam_inv cam \<Longrightarrow> cam_inv (snd (cam_start a cb cam))"
  by (auto simp: cam_op_defs Let_def)

lemma cam_stop_inv: "cam_inv cam \<Longrightarrow> cam_inv (snd (cam_stop cam))"
  by (auto simp: cam_op_defs Let_def)

section \<open>Candidates\<close>

text \<open>A usable candidate parses and reaches READY.\<close>

definition usable :: "gst_probe \<Rightarrow> bool" where
  "usable g \<longleftrightarrow> \<not> gp_parse_error g \<and> gp_pipeline g \<and> gp_set_ready g \<and> fst (gp_get_state g)
     \<and> snd (gp_get_state g) = GST_READY"

lemma discard_candidate_ok:
  assumes "wf_ledger L" "acquire L = (p, L1)"
  obtains L2 where "discard_candidate g p L1 = Inr L2" "wf_ledger L2" "set (live L2) = set (live L)"
proof -
  have w: "wf_ledger L1" and l: "set (live L1) = insert p (set (live L))" and f: "p \<notin> set (live L)"
    using assms wf_acquire acquire_live acquire_fresh by blast+
  obtain out N where b: "drain_bus ''[CameraCapture] error: '' (gp_bus g) (gp_msg g) L1 = Inr (out, N)"
      "balanced L1 N" by (rule drain_bus_balanced)
  then have n: "live N = live L1" by (simp add: balanced_live)
  have "wf_ledger N" using b(2) w by (rule balanced_wf)
  moreover obtain L2 where r: "release p N = Inr L2" using l n by (auto simp: release_def)
  ultimately have "wf_ledger L2" "set (live L2) = set (live L)"
    using wf_release release_live [OF _ r] l f n by auto
  moreover have "discard_candidate g p L1 = Inr L2"
    using r l n b(1) by (simp add: discard_candidate_def)
  ultimately show thesis using that by blast
qed

text \<open>
  With a sink wherever READY is reached, the loop keeps the first usable candidate, and the
  candidates before it leave nothing in the ledger.
\<close>

lemma try_candidates_first_usable:
  assumes "\<And>c. usable (gst c) \<Longrightarrow> gp_sink (gst c)" "wf_ledger L"
  shows "\<exists>r L'. try_candidates gst cs L = Inr (r, L') \<and> (r \<noteq> None \<longleftrightarrow> (\<exists>c \<in> set cs. usable (gst c)))
    \<and> (case r of None \<Rightarrow> wf_ledger L' \<and> set (live L') = set (live L)
        | Some (p, s) \<Rightarrow> wf_ledger L' \<and> set (live L') = set (live L) \<union> {p, s}
            \<and> p \<notin> set (live L) \<and> s \<notin> set (live L) \<and> p \<noteq> s)"
  using assms(2)
proof (induction cs arbitrary: L)
  case (Cons c cs)
  obtain p L1 where a: "acquire L = (p, L1)" by fastforce
  obtain M where m: "release p L1 = Inr M" "wf_ledger M" "set (live M) = set (live L)"
    using release_acquire [OF a] wf_release [OF wf_acquire [OF Cons.prems a]] by fastforce
  obtain D where d: "discard_candidate (gst c) p L1 = Inr D" "wf_ledger D" "set (live D) = set (live L)"
    using discard_candidate_ok [OF Cons.prems a] by blast
  consider (null) "\<not> gp_pipeline (gst c)" | (err) "gp_pipeline (gst c)" "gp_parse_error (gst c)"
    | (bad) "gp_pipeline (gst c)" "\<not> gp_parse_error (gst c)" "\<not> usable (gst c)"
    | (good) "usable (gst c)" by blast
  then show ?case
  proof cases
    case null
    with Cons.IH [OF Cons.prems] show ?thesis by (simp add: try_acquire_def usable_def)
  next
    case err
    with Cons.IH [OF m(2), unfolded m(3)] m a show ?thesis by (simp add: try_acquire_def usable_def)
  next
    case bad
    then have nr: "(gp_set_ready (gst c) \<and> fst (gp_get_state (gst c))
      \<and> snd (gp_get_state (gst c)) = GST_READY) = False" by (auto simp: usable_def)
    have "try_candidates gst (c # cs) L = try_candidates gst cs D"
      using bad(1,2) a d(1) by (simp add: try_acquire_def Let_def nr)
    with Cons.IH [OF d(2), unfolded d(3)] bad(3) show ?thesis by simp
  next
    case good
    obtain s L2 where s: "acquire L1 = (s, L2)" by fastforce
    have "wf_ledger L1" "wf_ledger L2" using Cons.prems a s wf_acquire by blast+
    moreover have "set (live L2) = set (live L) \<union> {p, s}" "p \<notin> set (live L)" "s \<notin> set (live L)" "p \<noteq> s"
      using acquire_live [OF a] acquire_live [OF s] acquire_fresh [OF Cons.prems a]
        acquire_fresh [OF \<open>wf_ledger L1\<close> s] by auto
    moreover have "gp_sink (gst c)" using good by (rule assms(1))
    ultimately show ?thesis using good a s by (auto simp: try_acquire_def usable_def)
  qed
qed simp

section \<open>Properties of the camera\<close>

text \<open>C2: a captured sample becomes a frame exactly: for strides and buffers that hold the
  image's planes, copying never leaves a buffer, every row of all three planes arrives (the
  odd chroma row of an odd height too), nothing else of the destination changes, and the frame
  carries the sample's size and time stamp.\<close>

theorem capture_frame_exact:
  assumes "gs_caps s" "gs_buffer s" "gs_info s" "gs_map s" "gs_frame_alloc s"
    and "gs_buffers s = Some bufs" "0 \<le> gs_height s" "length bufs = 3"
    and "planes_ok strides_nonneg (gs_height s) 0 3 (gs_planes s) bufs"
  shows "\<exists>avf. capture_frame s = Inr (Some \<lparr>fr_frame = Some avf,
        fr_pts = (if gs_pts s = GST_CLOCK_TIME_NONE then 0 else gs_pts s),
        fr_width = gs_width s, fr_height = gs_height s, fr_format = PIX_FMT_YUV420P\<rparr>)
    \<and> (\<forall>p < 3. af_linesize avf ! p = fst (bufs ! p) \<and>
         copied (plane_rows (gs_height s) p) (min (fst (gs_planes s ! p)) (fst (bufs ! p)))
           (fst (bufs ! p)) (fst (gs_planes s ! p)) (snd (gs_planes s ! p)) (snd (bufs ! p))
           (af_data avf ! p))"
proof -
  obtain planes where c: "copy_planes (capture_rows (gs_height s)) min_cols 0 3 (gs_planes s) bufs
      = Inr planes" "length planes = length bufs"
    and r: "\<forall>i < 3. fst (planes ! i) = fst (bufs ! i) \<and>
      copied (capture_rows (gs_height s) (0 + i)) (min_cols (0 + i) (fst (gs_planes s ! i)) (fst (bufs ! i)))
        (fst (bufs ! i)) (fst (gs_planes s ! i)) (snd (gs_planes s ! i)) (snd (bufs ! i)) (snd (planes ! i))"
    using capture_copy.copy_planes_correct [OF assms(7,9)] by blast
  have rows: "capture_rows (gs_height s) p = plane_rows (gs_height s) p" for p
    using assms(7) by (simp add: capture_rows_def plane_rows_def c_div2_nonneg)
  have "capture_frame s = Inr (Some \<lparr>fr_frame = Some (capture_avframe s planes),
        fr_pts = (if gs_pts s = GST_CLOCK_TIME_NONE then 0 else gs_pts s),
        fr_width = gs_width s, fr_height = gs_height s, fr_format = PIX_FMT_YUV420P\<rparr>)"
    using assms(1-6) c(1) by (simp add: capture_frame_def capture_copy_planes_def capture_avframe_def)
  moreover have "\<forall>p < 3. af_linesize (capture_avframe s planes) ! p = fst (bufs ! p) \<and>
         copied (plane_rows (gs_height s) p) (min (fst (gs_planes s ! p)) (fst (bufs ! p)))
           (fst (bufs ! p)) (fst (gs_planes s ! p)) (snd (gs_planes s ! p)) (snd (bufs ! p))
           (af_data (capture_avframe s planes) ! p)"
    using r c(2) assms(8) by (simp add: capture_avframe_def rows min_cols_def)
  ultimately show ?thesis by blast
qed

text \<open>C32: \<open>buildPipeline\<close> picks a working pipeline: if the element named \<open>sink\<close> is
  found in every pipeline that reaches READY, initialisation runs without fault; it succeeds
  exactly if some candidate is usable, the camera then owns one pipeline and one sink and no
  other object was left allocated, and otherwise it reports \<open>ErrorDeviceNotFound\<close> and
  leaves nothing behind.\<close>

theorem cam_initialize_first_usable:
  assumes "\<And>c. usable (gst c) \<Longrightarrow> gp_sink (gst c)" "wf_ledger L"
  shows "\<exists>r cam' L'. cam_initialize gst pw cfg cam L = Inr (r, cam', L')
    \<and> r = (if \<exists>c \<in> set (candidates (apply_defaults cfg) pw). usable (gst c)
           then Success else ErrorDeviceNotFound)
    \<and> (r = Success \<longrightarrow> (\<exists>p s. cam_pipeline cam' = Some p \<and> cam_appsink cam' = Some s \<and> p \<noteq> s
          \<and> p \<notin> set (live L) \<and> s \<notin> set (live L) \<and> set (live L') = set (live L) \<union> {p, s}))
    \<and> (r \<noteq> Success \<longrightarrow> set (live L') = set (live L))"
proof -
  obtain r L' where t: "try_candidates gst (candidates (apply_defaults cfg) pw) (after_lookup pw L) = Inr (r, L')"
    and u: "r \<noteq> None \<longleftrightarrow> (\<exists>c \<in> set (candidates (apply_defaults cfg) pw). usable (gst c))"
    and k: "case r of None \<Rightarrow> wf_ledger L' \<and> set (live L') = set (live L)
        | Some (p, s) \<Rightarrow> wf_ledger L' \<and> set (live L') = set (live L) \<union> {p, s}
            \<and> p \<notin> set (live L) \<and> s \<notin> set (live L) \<and> p \<noteq> s"
    using try_candidates_first_usable [of gst "after_lookup pw L" "candidates (apply_defaults cfg) pw",
        OF assms(1) wf_after_lookup [OF assms(2)]] unfolding live_after_lookup by blast
  show ?thesis
  proof (cases r)
    case None
    with t u k show ?thesis by (simp add: cam_initialize_def buildPipeline_eq)
  next
    case (Some ps)
    with t u k show ?thesis by (cases ps) (simp add: cam_initialize_def buildPipeline_eq)
  qed
qed

text \<open>a pipeline that reaches READY without an element named \<open>sink\<close> is a use after free:
  \<open>buildPipeline\<close> drops the only reference and then asks the freed pipeline for its bus.\<close>

theorem buildPipeline_missing_sink_faults:
  assumes "wf_ledger L" and "usable (gst (hd (candidates (cam_config cam) pw)))"
    and "\<not> gp_sink (gst (hd (candidates (cam_config cam) pw)))"
  shows "buildPipeline gst pw cam L = Inl UseAfterFree"
proof -
  obtain c cs where c: "candidates (cam_config cam) pw = c # cs" by (simp add: candidates_def Let_def)
  obtain p L1 where a: "acquire (after_lookup pw L) = (p, L1)" by fastforce
  have "p \<notin> set (live L)" using acquire_fresh [OF wf_after_lookup [OF assms(1)] a] by simp
  then have "discard_candidate (gst c) p (L1\<lparr>live := live L\<rparr>) = Inl UseAfterFree"
    by (simp add: discard_candidate_def)
  with assms(2,3) a c release_acquire [OF a] show ?thesis
    by (simp add: buildPipeline_eq usable_def try_acquire_def)
qed

text \<open>every candidate description ends in the \<open>appsink\<close> named \<open>sink\<close>, the V4L2
  sources come first, and PipeWire candidates exist only where the plugin does.\<close>

theorem candidates_shape:
  "(\<forall>c \<in> set (candidates cfg pw). suffix sink_props c)
   \<and> (\<forall>c \<in> set (take 2 (candidates cfg pw)). prefix (''v4l2src device='' @ cc_devicePath cfg) c)
   \<and> (\<forall>c \<in> set (drop 2 (candidates cfg pw)). prefix ''pipewiresrc '' c)
   \<and> length (candidates cfg pw) = (if pw then 6 else 2)"
  by (auto simp: candidates_def Let_def suffix_def prefix_def simp flip: append_assoc)

text \<open>after a capture error the camera cannot be used again: once the capture loop has
  ended by itself, \<open>stop\<close> changes nothing (the finished thread is not joined) and every
  further \<open>start\<close> fails.\<close>

theorem capture_error_prevents_restart:
  assumes "cam_start a cb cam0 = (Success, cam)"
  shows "cam_stop (cam_loop_end cam) = (Success, cam_loop_end cam)
    \<and> (\<forall>a' cb'. cam_start a' cb' (snd (cam_stop (cam_loop_end cam))) = (ErrorInitFailed, cam_loop_end cam))"
  using assms by (auto simp: cam_op_defs cam_loop_end_def Let_def split: if_splits)

text \<open>the camera can be stopped and started again: after a successful start, \<open>stop\<close>
  joins the capture thread and takes the pipeline to NULL, and the same answers from GStreamer
  start it again.\<close>

theorem camera_restart:
  assumes "cam_start a cb cam0 = (Success, cam)"
  shows "\<exists>cam1. cam_stop cam = (Success, cam1) \<and> \<not> cam_thread cam1 \<and> cam_state cam1 = GST_NULL
    \<and> cam_start a cb cam1 = (Success, cam)"
  using assms by (auto simp: cam_op_defs Let_def split: if_splits)

text \<open>Passes that end the loop, and the frames of a pass.\<close>

definition ends_loop :: "bool \<times> pull \<Rightarrow> bool" where
  "ends_loop x \<longleftrightarrow> fst x \<or> (\<exists>m. snd x = NoSample (Some m))"

definition frame_of :: "bool \<times> pull \<Rightarrow> Frame list" where
  "frame_of x =
     (case snd x of Sample s \<Rightarrow> (case capture_frame s of Inr (Some f) \<Rightarrow> [f] | _ \<Rightarrow> []) | _ \<Rightarrow> [])"

lemma ends_loop_simps [simp]:
  "ends_loop (b, NoSample (Some m))" "ends_loop (b, NoSample None) = b" "ends_loop (b, Sample s) = b"
  by (simp_all add: ends_loop_def)

lemma frame_of_simps [simp]:
  "frame_of (b, NoSample m) = []"
  "capture_frame s = Inr r \<Longrightarrow> frame_of (b, Sample s) = opt_list r"
  by (simp_all add: frame_of_def split: option.splits)

text \<open>C31: the capture loop delivers, in order, one frame for each sample that can be copied,
  up to the first pass that sees a stop request or a message on the bus; with such a pass in the
  run the loop has ended, without one it has not.\<close>

theorem captureLoop_delivers:
  assumes "\<And>b s. (b, Sample s) \<in> set ps \<Longrightarrow> succeeds (capture_frame s)"
  shows "captureLoop True ps =
    Inr (concat (map frame_of (takeWhile (\<lambda>x. \<not> ends_loop x) ps)), \<exists>x \<in> set ps. ends_loop x)"
  using assms
proof (induction ps)
  case (Cons x ps)
  obtain b p where x: "x = (b, p)" by fastforce
  have IH: "captureLoop True ps =
    Inr (concat (map frame_of (takeWhile (\<lambda>x. \<not> ends_loop x) ps)), \<exists>x \<in> set ps. ends_loop x)"
    using Cons by (meson list.set_intros(2))
  show ?case
  proof (cases p)
    case (NoSample m)
    then show ?thesis using x IH by (cases m) simp_all
  next
    case (Sample s)
    then obtain r where "capture_frame s = Inr r" using Cons.prems x by (fastforce simp: succeeds_iff)
    then show ?thesis using x IH Sample
      by (cases r) simp_all
  qed
qed simp

section \<open>Camera witnesses\<close>

definition demo_bufs :: "plane list" where
  "demo_bufs = [(4, replicate 12 0), (4, replicate 8 0), (4, replicate 8 0)]"

text \<open>A sample of a 2 by 3 image: odd height, strides wider than the rows.\<close>

definition demo_sample :: gst_sample where
  "demo_sample = \<lparr>gs_caps = True, gs_buffer = True, gs_info = True, gs_map = True,
     gs_frame_alloc = True, gs_width = 2, gs_height = 3,
     gs_planes = [(2, [1, 2, 3, 4, 5, 6]), (1, [7, 8]), (1, [9, 10])],
     gs_buffers = Some demo_bufs,
     gs_pts = 40000000\<rparr>"

lemma demo_sample_ok:
  "planes_ok strides_nonneg (gs_height demo_sample) 0 3 (gs_planes demo_sample)
     demo_bufs"
  by (simp add: demo_sample_def demo_bufs_def numeral_3_eq_3 strides_nonneg_def plane_complete_def plane_rows_def)

definition demo_probe :: "bool \<Rightarrow> gst_probe" where
  "demo_probe sink = \<lparr>gp_parse_error = False, gp_pipeline = True, gp_set_ready = True,
     gp_get_state = (True, GST_READY), gp_sink = sink, gp_bus = True,
     gp_msg = Some (Some ''busy'', None)\<rparr>"

definition demo_camera :: camera where
  "demo_camera = new_camera\<lparr>cam_pipeline := Some 0, cam_appsink := Some 1, cam_state := GST_READY\<rparr>"

definition demo_play :: play_answers where
  "demo_play = \<lparr>pa_set_playing = True, pa_get_state = (True, GST_PLAYING)\<rparr>"

lemma demo_camera_start:
  "cam_start demo_play True demo_camera = (Success, demo_camera\<lparr>cam_callback := True,
     cam_state := GST_PLAYING, cam_running := True, cam_thread := True\<rparr>)"
  by (simp add: cam_start_def demo_play_def demo_camera_def new_camera_def)

theorem capture_frame_exact_witness:
  "\<exists>avf f. capture_frame demo_sample = Inr (Some f) \<and> fr_frame f = Some avf \<and> fr_pts f = 40000000
     \<and> copied 2 1 4 1 [7, 8] (replicate 8 0) (af_data avf ! 1)"
proof -
  have "gs_caps demo_sample" "gs_buffer demo_sample" "gs_info demo_sample" "gs_map demo_sample"
    "gs_frame_alloc demo_sample" "gs_buffers demo_sample = Some demo_bufs"
    "0 \<le> gs_height demo_sample" "length demo_bufs = 3"
    by (simp_all add: demo_sample_def demo_bufs_def)
  note * = capture_frame_exact [OF this demo_sample_ok]
  have facts: "gs_pts demo_sample = 40000000" "plane_rows (gs_height demo_sample) 1 = 2"
    "gs_planes demo_sample ! 1 = (1, [7, 8])" "demo_bufs ! 1 = (4, replicate 8 0)"
    by (simp_all add: demo_sample_def demo_bufs_def plane_rows_def)
  from * obtain avf where "capture_frame demo_sample = Inr (Some \<lparr>fr_frame = Some avf,
        fr_pts = (if gs_pts demo_sample = GST_CLOCK_TIME_NONE then 0 else gs_pts demo_sample),
        fr_width = gs_width demo_sample, fr_height = gs_height demo_sample, fr_format = PIX_FMT_YUV420P\<rparr>)"
    and c: "\<forall>p < 3. copied (plane_rows (gs_height demo_sample) p) (min (fst (gs_planes demo_sample ! p))
          (fst (demo_bufs ! p))) (fst (demo_bufs ! p)) (fst (gs_planes demo_sample ! p))
          (snd (gs_planes demo_sample ! p)) (snd (demo_bufs ! p)) (af_data avf ! p)"
    by blast
  moreover have "copied 2 1 4 1 [7, 8] (replicate 8 0) (af_data avf ! 1)"
    using c [rule_format, of 1] unfolding facts by simp
  ultimately show ?thesis unfolding facts by (simp add: GST_CLOCK_TIME_NONE_def)
qed

theorem cam_initialize_first_usable_witness:
  "\<exists>cam' L'. cam_initialize (\<lambda>c. demo_probe True) False default_CaptureConfig new_camera
     \<lparr>next_handle = 0, live = []\<rparr> = Inr (Success, cam', L')"
proof -
  have "wf_ledger \<lparr>next_handle = 0, live = []\<rparr>" by (simp add: wf_ledger_def)
  moreover have "usable (demo_probe True) \<Longrightarrow> gp_sink (demo_probe True)" by (simp add: demo_probe_def)
  ultimately have "\<exists>r cam' L'. cam_initialize (\<lambda>c. demo_probe True) False default_CaptureConfig new_camera
      \<lparr>next_handle = 0, live = []\<rparr> = Inr (r, cam', L')
    \<and> r = (if \<exists>c \<in> set (candidates (apply_defaults default_CaptureConfig) False). usable (demo_probe True)
           then Success else ErrorDeviceNotFound)"
    using cam_initialize_first_usable [of "\<lambda>c. demo_probe True" "\<lparr>next_handle = 0, live = []\<rparr>"
        False default_CaptureConfig new_camera] by blast
  moreover have "usable (demo_probe True)" by (simp add: usable_def demo_probe_def)
  moreover have "set (candidates (apply_defaults default_CaptureConfig) False) \<noteq> {}"
    by (simp add: candidates_def Let_def)
  ultimately show ?thesis by auto
qed

theorem buildPipeline_missing_sink_faults_witness:
  "buildPipeline (\<lambda>c. demo_probe False) False new_camera \<lparr>next_handle = 0, live = []\<rparr> = Inl UseAfterFree"
  by (rule buildPipeline_missing_sink_faults) (simp_all add: wf_ledger_def usable_def demo_probe_def)

theorem candidates_shape_witness:
  "suffix sink_props (hd (candidates default_CaptureConfig True)) \<and> length (candidates default_CaptureConfig True) = 6"
proof -
  have "hd (candidates default_CaptureConfig True) \<in> set (candidates default_CaptureConfig True)"
    by (simp add: candidates_def Let_def)
  then show ?thesis using candidates_shape [of default_CaptureConfig True] by simp
qed

theorem capture_error_prevents_restart_witness:
  "fst (cam_start demo_play True (snd (cam_stop (cam_loop_end (snd (cam_start demo_play True demo_camera))))))
     = ErrorInitFailed"
proof -
  let ?cam = "snd (cam_start demo_play True demo_camera)"
  have "cam_start demo_play True demo_camera = (Success, ?cam)" by (simp add: demo_camera_start)
  from capture_error_prevents_restart [OF this] show ?thesis by (metis fst_conv)
qed

theorem camera_restart_witness:
  "\<exists>cam1. cam_stop (snd (cam_start demo_play True demo_camera)) = (Success, cam1)
     \<and> fst (cam_start demo_play True cam1) = Success"
  using camera_restart [OF demo_camera_start] demo_camera_start by auto

theorem captureLoop_delivers_witness:
  "\<exists>f. captureLoop True [(False, Sample demo_sample), (False, NoSample None), (True, NoSample None)]
     = Inr ([f], True)"
proof -
  obtain f where f: "capture_frame demo_sample = Inr (Some f)"
    using capture_copy.copy_planes_correct [OF _ demo_sample_ok]
    by (auto simp: capture_frame_def capture_copy_planes_def demo_sample_def demo_bufs_def Let_def)
  then have "\<And>b s. (b, Sample s) \<in> set [(False, Sample demo_sample), (False, NoSample None), (True, NoSample None)]
      \<Longrightarrow> succeeds (capture_frame s)" by auto
  from captureLoop_delivers [OF this] f show ?thesis
    by simp
qed

end
