(* ===== verification/Encoder.thy ===== *)
theory Encoder
  imports Common_Types
begin

text \<open>
  The H.264 encoders of \<open>video-core\<close>: the abstract \<open>Encoder\<close>, \<open>SoftwareEncoder\<close>
  (libx264), \<open>NVENCEncoder\<close> and the factory \<open>createEncoder\<close>. FFmpeg is a parameter: the
  record \<open>av_lib\<close> holds, for one call of an operation, what each library call it makes
  answers; \<open>'c\<close> is the library's private codec state.
\<close>

section \<open>The library interface\<close>

record codec_params =
  cp_width :: int
  cp_height :: int
  cp_bit_rate :: int
  cp_time_base :: rational
  cp_framerate :: rational
  cp_gop_size :: int
  cp_max_b_frames :: int
  cp_pix_fmt :: pix_fmt
  cp_color_range :: color_range
  cp_constrained_baseline :: bool

text \<open>An allocated \<open>AVCodecContext\<close>; its codec state exists once \<open>avcodec_open2\<close> succeeded.\<close>

record 'c codec_ctx =
  ctx_handle :: handle
  ctx_params :: codec_params
  ctx_state :: "'c option"

record 'c av_lib =
  lib_has_encoder :: "string \<Rightarrow> bool"
  lib_alloc_context :: bool
  lib_open2 :: "codec_params \<Rightarrow> (string \<times> string) list \<Rightarrow> 'c option"
  lib_frame_alloc :: bool
  lib_packet_alloc :: bool
  lib_get_buffer :: "int \<Rightarrow> int \<Rightarrow> pix_fmt \<Rightarrow> int list"
  lib_sws_context :: "int \<Rightarrow> int \<Rightarrow> pix_fmt \<Rightarrow> int \<Rightarrow> int \<Rightarrow> pix_fmt \<Rightarrow> bool"
  lib_sws_scale :: "bool \<Rightarrow> av_frame \<Rightarrow> int list \<Rightarrow> byte list list"
  lib_send_frame :: "'c \<Rightarrow> av_frame option \<Rightarrow> int \<times> 'c"
  lib_receive_packet :: "'c \<Rightarrow> av_packet option \<times> 'c"
  lib_packet_clone :: "av_packet \<Rightarrow> av_packet option"
  lib_rescale :: rescale_q

text \<open>
  Sending to or receiving from a context that was never opened is refused by FFmpeg with
  \<open>AVERROR(EINVAL)\<close> and changes nothing.
\<close>

fun ctx_send :: "'c av_lib \<Rightarrow> av_frame option \<Rightarrow> 'c codec_ctx \<Rightarrow> int \<times> 'c codec_ctx" where
  "ctx_send lib f ctx =
     (case ctx_state ctx of
        None \<Rightarrow> (- 22, ctx)
      | Some c \<Rightarrow> (case lib_send_frame lib c f of (ret, c') \<Rightarrow> (ret, ctx\<lparr>ctx_state := Some c'\<rparr>)))"

fun ctx_receive :: "'c av_lib \<Rightarrow> 'c codec_ctx \<Rightarrow> av_packet option \<times> 'c codec_ctx" where
  "ctx_receive lib ctx =
     (case ctx_state ctx of
        None \<Rightarrow> (None, ctx)
      | Some c \<Rightarrow> (case lib_receive_packet lib c of (p, c') \<Rightarrow> (p, ctx\<lparr>ctx_state := Some c'\<rparr>)))"

section \<open>Encoder objects\<close>

datatype encoder_kind = SoftwareEncoder | NVENCEncoder

record 'c encoder =
  enc_kind :: encoder_kind
  enc_config :: EncoderConfig
  enc_callback :: bool
  enc_running :: bool
  enc_ctx :: "'c codec_ctx option"
  enc_forceKeyframe :: bool

definition new_encoder :: "encoder_kind \<Rightarrow> 'c encoder" where
  "new_encoder k = \<lparr>enc_kind = k, enc_config = default_EncoderConfig, enc_callback = False,
     enc_running = False, enc_ctx = None, enc_forceKeyframe = False\<rparr>"

text \<open>\<open>Encoder::initialize\<close>: keeps the configuration and the callback.\<close>

definition base_initialize :: "EncoderConfig \<Rightarrow> bool \<Rightarrow> 'c encoder \<Rightarrow> Result \<times> 'c encoder" where
  "base_initialize cfg cb e = (Success, e\<lparr>enc_config := cfg, enc_callback := cb\<rparr>)"

text \<open>
  \<open>createEncoder\<close>: the requested type is replaced by what the installation offers. The
  encoder object is made by \<open>make_unique\<close>, so the result is never null here.
\<close>

definition resolve_type :: "'c av_lib \<Rightarrow> EncoderType \<Rightarrow> EncoderType" where
  "resolve_type lib t =
     (case t of
        Software \<Rightarrow> if lib_has_encoder lib ''h264_nvenc'' then Hardware else Software
      | Hardware \<Rightarrow> if \<not> lib_has_encoder lib ''h264_nvenc'' then Software else Hardware)"

definition createEncoder :: "'c av_lib \<Rightarrow> EncoderConfig \<Rightarrow> 'c encoder option" where
  "createEncoder lib cfg =
     (case resolve_type lib (ec_type cfg) of
        Software \<Rightarrow> Some (new_encoder SoftwareEncoder)
      | Hardware \<Rightarrow> Some (new_encoder NVENCEncoder))"

section \<open>Initialisation\<close>

fun x264_preset :: "Preset \<Rightarrow> string" where
  "x264_preset UltraFast = ''ultrafast''"
| "x264_preset Fast = ''fast''"
| "x264_preset Medium = ''medium''"
| "x264_preset Slow = ''slow''"

fun nvenc_preset :: "Preset \<Rightarrow> string" where
  "nvenc_preset UltraFast = ''p1''"
| "nvenc_preset Fast = ''p3''"
| "nvenc_preset Medium = ''p5''"
| "nvenc_preset Slow = ''p7''"

definition sw_params :: "EncoderConfig \<Rightarrow> codec_params" where
  "sw_params cfg = \<lparr>cp_width = ec_width cfg, cp_height = ec_height cfg,
     cp_bit_rate = ec_bitrate cfg, cp_time_base = fps_tb (ec_framerate cfg),
     cp_framerate = \<lparr>num = ec_framerate cfg, den = 1\<rparr>, cp_gop_size = ec_gopSize cfg,
     cp_max_b_frames = 0, cp_pix_fmt = PIX_FMT_YUV420P, cp_color_range = RANGE_MPEG,
     cp_constrained_baseline = True\<rparr>"

definition nvenc_params :: "EncoderConfig \<Rightarrow> codec_params" where
  "nvenc_params cfg = \<lparr>cp_width = ec_width cfg, cp_height = ec_height cfg,
     cp_bit_rate = ec_bitrate cfg, cp_time_base = fps_tb (ec_framerate cfg),
     cp_framerate = \<lparr>num = ec_framerate cfg, den = 1\<rparr>, cp_gop_size = ec_gopSize cfg,
     cp_max_b_frames = 0, cp_pix_fmt = PIX_FMT_YUV420P, cp_color_range = RANGE_UNSPECIFIED,
     cp_constrained_baseline = False\<rparr>"

text \<open>
  From \<open>avcodec_alloc_context3\<close> on the two \<open>initialize\<close> functions are the same code: a
  new context overwrites \<open>codecCtx_\<close>, which a failing \<open>avcodec_open2\<close> leaves in place.
\<close>

definition open_context ::
  "'c av_lib \<Rightarrow> codec_params \<Rightarrow> (string \<times> string) list \<Rightarrow> 'c encoder \<Rightarrow> ledger \<Rightarrow>
   Result \<times> 'c encoder \<times> ledger" where
  "open_context lib params opts e L =
     (if \<not> lib_alloc_context lib then (ErrorInitFailed, e\<lparr>enc_ctx := None\<rparr>, L)
      else (case acquire L of (h, L') \<Rightarrow>
        (case lib_open2 lib params opts of
           None \<Rightarrow> (ErrorInitFailed,
             e\<lparr>enc_ctx := Some \<lparr>ctx_handle = h, ctx_params = params, ctx_state = None\<rparr>\<rparr>, L')
         | Some c \<Rightarrow> (Success,
             e\<lparr>enc_ctx := Some \<lparr>ctx_handle = h, ctx_params = params, ctx_state = Some c\<rparr>,
               enc_running := True\<rparr>, L'))))"

definition sw_initialize ::
  "'c av_lib \<Rightarrow> EncoderConfig \<Rightarrow> bool \<Rightarrow> 'c encoder \<Rightarrow> ledger \<Rightarrow> Result \<times> 'c encoder \<times> ledger" where
  "sw_initialize lib cfg cb e L =
     (case base_initialize cfg cb e of (res, e) \<Rightarrow>
        if res \<noteq> Success then (res, e, L)
        else if \<not> lib_has_encoder lib ''libx264'' then (ErrorInitFailed, e, L)
        else open_context lib (sw_params (enc_config e))
          [(''preset'', x264_preset (ec_preset (enc_config e))), (''tune'', ''zerolatency''),
           (''profile'', ''baseline'')] e L)"

definition nvenc_initialize ::
  "'c av_lib \<Rightarrow> EncoderConfig \<Rightarrow> bool \<Rightarrow> 'c encoder \<Rightarrow> ledger \<Rightarrow> Result \<times> 'c encoder \<times> ledger" where
  "nvenc_initialize lib cfg cb e L =
     (case base_initialize cfg cb e of (res, e) \<Rightarrow>
        if res \<noteq> Success then (res, e, L)
        else if \<not> lib_has_encoder lib ''h264_nvenc'' then (ErrorDeviceNotFound, e, L)
        else open_context lib (nvenc_params (enc_config e))
          [(''preset'', nvenc_preset (ec_preset (enc_config e))), (''tune'', ''ull'')] e L)"

text \<open>Virtual dispatch.\<close>

definition enc_initialize ::
  "'c av_lib \<Rightarrow> EncoderConfig \<Rightarrow> bool \<Rightarrow> 'c encoder \<Rightarrow> ledger \<Rightarrow> Result \<times> 'c encoder \<times> ledger" where
  "enc_initialize lib cfg cb e L =
     (case enc_kind e of SoftwareEncoder \<Rightarrow> sw_initialize lib cfg cb e L
      | NVENCEncoder \<Rightarrow> nvenc_initialize lib cfg cb e L)"

definition enc_requestKeyframe :: "'c encoder \<Rightarrow> 'c encoder" where
  "enc_requestKeyframe e =
     (case enc_kind e of SoftwareEncoder \<Rightarrow> e\<lparr>enc_forceKeyframe := True\<rparr>
      | NVENCEncoder \<Rightarrow> e)"

section \<open>Encoding a frame\<close>

definition linesize0 :: "av_frame \<Rightarrow> int" where
  "linesize0 f = (case af_linesize f of [] \<Rightarrow> 0 | x # _ \<Rightarrow> x)"

text \<open>What \<open>av_frame_alloc\<close> returns, with size and format as the code sets them.\<close>

definition converted_frame :: "'c av_lib \<Rightarrow> int \<Rightarrow> int \<Rightarrow> pix_fmt \<Rightarrow> av_frame" where
  "converted_frame lib w h fmt = \<lparr>af_format = fmt, af_width = w, af_height = h,
     af_linesize = lib_get_buffer lib w h fmt, af_data = [], af_color_range = RANGE_UNSPECIFIED,
     af_pict_type = PICTURE_TYPE_NONE, af_pts = AV_NOPTS_VALUE\<rparr>"

text \<open>The deprecated full-range \<open>YUVJ\<close> formats are read as their plain counterparts.\<close>

definition src_format :: "av_frame \<Rightarrow> pix_fmt \<times> bool" where
  "src_format f =
     (case af_format f of
        PIX_FMT_YUVJ420P \<Rightarrow> (PIX_FMT_YUV420P, True)
      | PIX_FMT_YUVJ422P \<Rightarrow> (PIX_FMT_YUV422P, True)
      | PIX_FMT_YUVJ444P \<Rightarrow> (PIX_FMT_YUV444P, True)
      | fmt \<Rightarrow> (fmt, af_color_range f = RANGE_JPEG))"

text \<open>
  The conversion step: the frame to hand to the codec, and whether it is a new frame. When no
  scaling context can be made, the original frame is kept.
\<close>

definition sw_convert :: "'c av_lib \<Rightarrow> codec_params \<Rightarrow> av_frame \<Rightarrow> (av_frame \<times> bool) run" where
  "sw_convert lib p f =
     (case src_format f of (src_fmt, full) \<Rightarrow>
       if src_fmt \<noteq> PIX_FMT_YUV420P \<or> full \<or> af_width f \<noteq> cp_width p
          \<or> af_height f \<noteq> cp_height p \<or> linesize0 f = 0
       then if \<not> lib_frame_alloc lib then Inl NullDeref
         else (let conv = converted_frame lib (cp_width p) (cp_height p) PIX_FMT_YUV420P in
           if lib_sws_context lib (af_width f) (af_height f) src_fmt
                (cp_width p) (cp_height p) PIX_FMT_YUV420P
           then Inr (conv\<lparr>af_data := lib_sws_scale lib full f (af_linesize conv),
                       af_pts := af_pts f\<rparr>, True)
           else Inr (f, False))
       else Inr (f, False))"

definition nvenc_convert :: "'c av_lib \<Rightarrow> codec_params \<Rightarrow> av_frame \<Rightarrow> (av_frame \<times> bool) run" where
  "nvenc_convert lib p f =
     (if af_format f \<noteq> cp_pix_fmt p \<or> af_width f \<noteq> cp_width p
         \<or> af_height f \<noteq> cp_height p \<or> linesize0 f = 0
      then if \<not> lib_frame_alloc lib then Inl NullDeref
        else (let conv = converted_frame lib (cp_width p) (cp_height p) (cp_pix_fmt p) in
          if lib_sws_context lib (af_width f) (af_height f) (af_format f)
               (cp_width p) (cp_height p) (cp_pix_fmt p)
          then Inr (conv\<lparr>af_data := lib_sws_scale lib False f (af_linesize conv),
                      af_pts := af_pts f\<rparr>, True)
          else Inr (f, False))
      else Inr (f, False))"

text \<open>The body of the receive loop: wrap a library packet.\<close>

definition wrap_packet :: "'c av_lib \<Rightarrow> rational \<Rightarrow> av_packet \<Rightarrow> Packet" where
  "wrap_packet lib tb pkt = \<lparr>pk_packet = lib_packet_clone lib pkt,
     pk_pts = rescaleToNs (lib_rescale lib) (ap_pts pkt) tb,
     pk_dts = rescaleToNs (lib_rescale lib) (ap_dts pkt) tb,
     pk_size = ap_size pkt,
     pk_isKeyframe = (and (ap_flags pkt) AV_PKT_FLAG_KEY \<noteq> 0)\<rparr>"

text \<open>
  Receiving until the codec has no more packets; each goes to the callback, if there is one.
\<close>

definition receive_packets ::
  "'c av_lib \<Rightarrow> 'c codec_ctx \<Rightarrow> bool \<Rightarrow> (Packet list \<times> 'c codec_ctx) run" where
  "receive_packets lib ctx cb =
     (if \<not> lib_packet_alloc lib then Inl NullDeref
      else (case receive_loop (ctx_receive lib) ctx of
          None \<Rightarrow> Inl NonTermination
        | Some (pkts, ctx') \<Rightarrow>
            Inr (if cb then map (wrap_packet lib (cp_time_base (ctx_params ctx))) pkts else [], ctx')))"

text \<open>
  The frame sent to the codec, and the caller's frame afterwards: without a conversion the
  caller's own frame is the one whose time stamp and picture type are rewritten.
\<close>

definition stamp_frame :: "'c av_lib \<Rightarrow> codec_params \<Rightarrow> bool \<Rightarrow> av_frame \<Rightarrow> av_frame \<Rightarrow> av_frame" where
  "stamp_frame lib p force f inp =
     (let inp = (if force then inp\<lparr>af_pict_type := PICTURE_TYPE_I\<rparr> else inp)
      in inp\<lparr>af_pts := lib_rescale lib (af_pts f) ns_tb (cp_time_base p)\<rparr>)"

definition submit_frame ::
  "'c av_lib \<Rightarrow> av_frame \<Rightarrow> av_frame \<Rightarrow> 'c codec_ctx \<Rightarrow> 'c encoder \<Rightarrow>
   (Result \<times> Packet list \<times> av_frame \<times> 'c encoder) run" where
  "submit_frame lib inp f' ctx e =
     (case ctx_send lib (Some inp) ctx of (ret, ctx') \<Rightarrow>
        if ret < 0 then Inr (ErrorEncodeFailed, [], f', e\<lparr>enc_ctx := Some ctx'\<rparr>)
        else andThen (receive_packets lib ctx' (enc_callback e))
          (\<lambda>(ps, ctx''). Inr (Success, ps, f', e\<lparr>enc_ctx := Some ctx''\<rparr>)))"

definition sw_encodeFrame ::
  "'c av_lib \<Rightarrow> av_frame \<Rightarrow> 'c encoder \<Rightarrow> (Result \<times> Packet list \<times> av_frame \<times> 'c encoder) run" where
  "sw_encodeFrame lib f e =
     (if \<not> enc_running e then Inr (ErrorEncodeFailed, [], f, e)
      else (case enc_ctx e of
          None \<Rightarrow> Inl NullDeref
        | Some ctx \<Rightarrow>
            andThen (sw_convert lib (ctx_params ctx) f) (\<lambda>(inp, conv).
              let inp = stamp_frame lib (ctx_params ctx) (enc_forceKeyframe e) f inp in
              submit_frame lib inp (if conv then f else inp) ctx (e\<lparr>enc_forceKeyframe := False\<rparr>))))"

definition nvenc_encodeFrame ::
  "'c av_lib \<Rightarrow> av_frame \<Rightarrow> 'c encoder \<Rightarrow> (Result \<times> Packet list \<times> av_frame \<times> 'c encoder) run" where
  "nvenc_encodeFrame lib f e =
     (if \<not> enc_running e then Inr (ErrorEncodeFailed, [], f, e)
      else (case enc_ctx e of
          None \<Rightarrow> Inl NullDeref
        | Some ctx \<Rightarrow>
            andThen (nvenc_convert lib (ctx_params ctx) f) (\<lambda>(inp, conv).
              let inp = stamp_frame lib (ctx_params ctx) False f inp in
              submit_frame lib inp (if conv then f else inp) ctx e)))"

definition encodeFrame ::
  "'c av_lib \<Rightarrow> av_frame \<Rightarrow> 'c encoder \<Rightarrow> (Result \<times> Packet list \<times> av_frame \<times> 'c encoder) run" where
  "encodeFrame lib f e =
     (case enc_kind e of SoftwareEncoder \<Rightarrow> sw_encodeFrame lib f e
      | NVENCEncoder \<Rightarrow> nvenc_encodeFrame lib f e)"

section \<open>Stopping and destruction\<close>

text \<open>\<open>stop\<close>, class by class: flush, deliver what remains, free the context.\<close>

definition sw_stop ::
  "'c av_lib \<Rightarrow> 'c encoder \<Rightarrow> ledger \<Rightarrow> (Packet list \<times> 'c encoder \<times> ledger) run" where
  "sw_stop lib e L =
     (case enc_ctx e of
        None \<Rightarrow> Inr ([], e, L)
      | Some ctx \<Rightarrow>
          andThen (receive_packets lib (snd (ctx_send lib None ctx)) (enc_callback e))
            (\<lambda>(ps, ctx'). andThen (release (ctx_handle ctx') L)
              (\<lambda>L'. Inr (ps, e\<lparr>enc_ctx := None, enc_running := False\<rparr>, L'))))"

definition nvenc_stop ::
  "'c av_lib \<Rightarrow> 'c encoder \<Rightarrow> ledger \<Rightarrow> (Packet list \<times> 'c encoder \<times> ledger) run" where
  "nvenc_stop lib e L =
     (case enc_ctx e of
        None \<Rightarrow> Inr ([], e, L)
      | Some ctx \<Rightarrow>
          andThen (receive_packets lib (snd (ctx_send lib None ctx)) (enc_callback e))
            (\<lambda>(ps, ctx'). andThen (release (ctx_handle ctx') L)
              (\<lambda>L'. Inr (ps, e\<lparr>enc_ctx := None, enc_running := False\<rparr>, L'))))"

definition enc_stop ::
  "'c av_lib \<Rightarrow> 'c encoder \<Rightarrow> ledger \<Rightarrow> (Packet list \<times> 'c encoder \<times> ledger) run" where
  "enc_stop lib e L =
     (case enc_kind e of SoftwareEncoder \<Rightarrow> sw_stop lib e L
      | NVENCEncoder \<Rightarrow> nvenc_stop lib e L)"

text \<open>The destructors: each calls the \<open>stop\<close> of its own class.\<close>

definition sw_destroy ::
  "'c av_lib \<Rightarrow> 'c encoder \<Rightarrow> ledger \<Rightarrow> (Packet list \<times> 'c encoder \<times> ledger) run" where
  "sw_destroy lib e L =
     andThen (if enc_running e then sw_stop lib e L else Inr ([], e, L))
       (\<lambda>(ps, e, L). andThen (release_opt (map_option ctx_handle (enc_ctx e)) L)
          (\<lambda>L'. Inr (ps, e\<lparr>enc_ctx := None\<rparr>, L')))"

definition nvenc_destroy ::
  "'c av_lib \<Rightarrow> 'c encoder \<Rightarrow> ledger \<Rightarrow> (Packet list \<times> 'c encoder \<times> ledger) run" where
  "nvenc_destroy lib e L =
     andThen (if enc_running e then nvenc_stop lib e L else Inr ([], e, L))
       (\<lambda>(ps, e, L). andThen (release_opt (map_option ctx_handle (enc_ctx e)) L)
          (\<lambda>L'. Inr (ps, e\<lparr>enc_ctx := None\<rparr>, L')))"

definition enc_destroy ::
  "'c av_lib \<Rightarrow> 'c encoder \<Rightarrow> ledger \<Rightarrow> (Packet list \<times> 'c encoder \<times> ledger) run" where
  "enc_destroy lib e L =
     (case enc_kind e of SoftwareEncoder \<Rightarrow> sw_destroy lib e L
      | NVENCEncoder \<Rightarrow> nvenc_destroy lib e L)"

section \<open>What the operations keep\<close>

declare ctx_send.simps [simp del] ctx_receive.simps [simp del]

text \<open>
  The two classes stop and are destroyed alike. These are the equations the proofs below use;
  they hold because the two bodies agree, whatever the class.
\<close>

lemma enc_stop_eq:
  "enc_stop lib e L =
     (case enc_ctx e of
        None \<Rightarrow> Inr ([], e, L)
      | Some ctx \<Rightarrow>
          andThen (receive_packets lib (snd (ctx_send lib None ctx)) (enc_callback e))
            (\<lambda>(ps, ctx'). andThen (release (ctx_handle ctx') L)
              (\<lambda>L'. Inr (ps, e\<lparr>enc_ctx := None, enc_running := False\<rparr>, L'))))"
  by (cases "enc_kind e") (simp_all add: enc_stop_def sw_stop_def nvenc_stop_def)

lemma enc_destroy_eq:
  "enc_destroy lib e L =
     andThen (if enc_running e then enc_stop lib e L else Inr ([], e, L))
       (\<lambda>(ps, e, L). andThen (release_opt (map_option ctx_handle (enc_ctx e)) L)
          (\<lambda>L'. Inr (ps, e\<lparr>enc_ctx := None\<rparr>, L')))"
  by (cases "enc_kind e") (simp_all add: enc_destroy_def sw_destroy_def nvenc_destroy_def enc_stop_def)

text \<open>A running encoder has an open context.\<close>

definition enc_inv :: "'c encoder \<Rightarrow> bool" where
  "enc_inv e \<longleftrightarrow> (enc_running e \<longrightarrow> (\<exists>ctx. enc_ctx e = Some ctx \<and> ctx_state ctx \<noteq> None))"

text \<open>The identity of a context: what sending and receiving never change.\<close>

definition same_ctx :: "'c codec_ctx \<Rightarrow> 'c codec_ctx \<Rightarrow> bool" where
  "same_ctx a b \<longleftrightarrow> ctx_handle a = ctx_handle b \<and> ctx_params a = ctx_params b
     \<and> (ctx_state a = None \<longleftrightarrow> ctx_state b = None)"

lemma same_ctx_refl [simp]: "same_ctx a a"
  by (simp add: same_ctx_def)

lemma same_ctx_trans: "same_ctx a b \<Longrightarrow> same_ctx b c \<Longrightarrow> same_ctx a c"
  by (simp add: same_ctx_def)

lemma ctx_send_same: "ctx_send lib f ctx = (ret, ctx') \<Longrightarrow> same_ctx ctx ctx'"
  by (auto simp: same_ctx_def ctx_send.simps ctx_receive.simps split: option.splits prod.splits)

lemma ctx_receive_same: "ctx_receive lib ctx = (x, ctx') \<Longrightarrow> same_ctx ctx ctx'"
  by (auto simp: same_ctx_def ctx_send.simps ctx_receive.simps split: option.splits prod.splits)

lemma receive_packets_same:
  assumes "receive_packets lib ctx cb = Inr (ps, ctx')"
  shows "same_ctx ctx ctx'"
proof -
  from assms obtain pkts where "receive_loop (ctx_receive lib) ctx = Some (pkts, ctx')"
    by (auto simp: receive_packets_def split: if_splits option.splits)
  then show ?thesis
    by (rule receive_loop_keeps) (auto intro: same_ctx_trans dest: ctx_receive_same)
qed

text \<open>\<open>codec_drains\<close>: FFmpeg's promise that \<open>avcodec_receive_packet\<close> runs dry.\<close>

definition codec_drains :: "'c av_lib \<Rightarrow> bool" where
  "codec_drains lib \<longleftrightarrow> (\<forall>c. drains (lib_receive_packet lib) c)"

definition allocs_succeed :: "'c av_lib \<Rightarrow> bool" where
  "allocs_succeed lib \<longleftrightarrow> lib_frame_alloc lib \<and> lib_packet_alloc lib"

lemma drains_ctx_Some:
  assumes "drains (lib_receive_packet lib) c" and "ctx_state ctx = Some c"
  shows "drains (ctx_receive lib) ctx"
  using assms
proof (induction arbitrary: ctx rule: drains.induct)
  case (drains_stop c c')
  then have "ctx_receive lib ctx = (None, ctx\<lparr>ctx_state := Some c'\<rparr>)"
    by (simp add: ctx_receive.simps)
  then show ?case by (rule drains.drains_stop)
next
  case (drains_more c x c')
  then have "ctx_receive lib ctx = (Some x, ctx\<lparr>ctx_state := Some c'\<rparr>)"
    by (simp add: ctx_receive.simps)
  moreover have "drains (ctx_receive lib) (ctx\<lparr>ctx_state := Some c'\<rparr>)"
    using drains_more.IH by simp
  ultimately show ?case by (rule drains.drains_more)
qed

lemma drains_ctx: "codec_drains lib \<Longrightarrow> drains (ctx_receive lib) ctx"
proof (cases "ctx_state ctx")
  case None
  then show ?thesis by (intro drains_stop) (simp add: ctx_receive.simps)
next
  case (Some c)
  assume "codec_drains lib"
  with Some show ?thesis by (auto simp: codec_drains_def intro: drains_ctx_Some)
qed

lemma receive_packets_returns:
  assumes "codec_drains lib" and "allocs_succeed lib"
  obtains ps ctx' where "receive_packets lib ctx cb = Inr (ps, ctx')"
  using receive_loop_drains [OF drains_ctx [OF assms(1)], of ctx] assms(2)
  by (auto simp: receive_packets_def allocs_succeed_def)

lemma sw_convert_returns: "allocs_succeed lib \<Longrightarrow> \<exists>r. sw_convert lib p f = Inr r"
  by (auto simp: sw_convert_def allocs_succeed_def Let_def split: prod.splits)

lemma nvenc_convert_returns: "allocs_succeed lib \<Longrightarrow> \<exists>r. nvenc_convert lib p f = Inr r"
  by (auto simp: nvenc_convert_def allocs_succeed_def Let_def)

lemma submit_frame_returns:
  assumes "codec_drains lib" "allocs_succeed lib"
  shows "\<exists>r. submit_frame lib inp f' ctx e = Inr r"
proof -
  obtain ret ctx' where s: "ctx_send lib (Some inp) ctx = (ret, ctx')" by fastforce
  obtain ps ctx'' where "receive_packets lib ctx' (enc_callback e) = Inr (ps, ctx'')"
    using assms by (rule receive_packets_returns)
  with s show ?thesis by (simp add: submit_frame_def)
qed

lemma submit_frame_keeps:
  assumes "submit_frame lib inp f' ctx e = Inr (r, ps, f'', e')"
  obtains ctx' where "e' = e\<lparr>enc_ctx := Some ctx'\<rparr>" "same_ctx ctx ctx'" "f'' = f'"
    and "r = Success \<or> r = ErrorEncodeFailed \<and> ps = []"
  using assms
  by (auto simp: submit_frame_def split: prod.splits if_splits
      dest!: ctx_send_same receive_packets_same intro: same_ctx_trans)

lemmas encodeFrame_defs = encodeFrame_def sw_encodeFrame_def nvenc_encodeFrame_def

text \<open>
  The frame rule of \<open>encodeFrame\<close>: of the object it changes the codec's private state, and
  a running software encoder's key frame flag is consumed.
\<close>

lemma encodeFrame_keeps:
  assumes "encodeFrame lib f e = Inr (r, ps, f', e')"
  shows "e' = e \<and> \<not> enc_running e \<and> r = ErrorEncodeFailed \<and> ps = [] \<or>
    (\<exists>ctx ctx'. enc_running e \<and> enc_ctx e = Some ctx \<and> same_ctx ctx ctx'
       \<and> e' = e\<lparr>enc_ctx := Some ctx',
            enc_forceKeyframe := (enc_kind e = NVENCEncoder \<and> enc_forceKeyframe e)\<rparr>
       \<and> (r = Success \<or> r = ErrorEncodeFailed \<and> ps = []))"
proof (cases "enc_running e")
  case False
  with assms show ?thesis by (auto simp: encodeFrame_defs split: encoder_kind.splits)
next
  case True
  with assms obtain ctx where ctx: "enc_ctx e = Some ctx"
    by (auto simp: encodeFrame_defs split: encoder_kind.splits option.splits)
  have "\<exists>ctx'. same_ctx ctx ctx' \<and> e' = e\<lparr>enc_ctx := Some ctx',
            enc_forceKeyframe := (enc_kind e = NVENCEncoder \<and> enc_forceKeyframe e)\<rparr>
       \<and> (r = Success \<or> r = ErrorEncodeFailed \<and> ps = [])"
    using assms True ctx
    by (cases "enc_kind e") (auto simp: encodeFrame_defs Let_def elim!: submit_frame_keeps)
  with True ctx show ?thesis by blast
qed

section \<open>The encoder interface\<close>

text \<open>
  What \<open>VideoPipeline\<close> relies on, whatever class \<open>createEncoder\<close> chose: an encoder
  that is not running refuses frames and delivers nothing, encoding neither starts nor stops
  it, a failed call delivers nothing, and \<open>stop\<close> leaves it not running.
\<close>

fun feed :: "('f \<Rightarrow> 'e \<Rightarrow> (Result \<times> 'p list \<times> 'f \<times> 'e) run) \<Rightarrow> 'f list \<Rightarrow> 'e \<Rightarrow> ('p list \<times> 'e) run" where
  "feed enc [] e = Inr ([], e)"
| "feed enc (f # fs) e =
     andThen (enc f e) (\<lambda>(r, ps, f', e'). andThen (feed enc fs e') (\<lambda>(qs, e''). Inr (ps @ qs, e'')))"

locale encoder_ops =
  fixes enc :: "'f \<Rightarrow> 'e \<Rightarrow> (Result \<times> 'p list \<times> 'f \<times> 'e) run"
    and halt :: "'e \<Rightarrow> ledger \<Rightarrow> ('p list \<times> 'e \<times> ledger) run"
    and running :: "'e \<Rightarrow> bool"
    and inv :: "'e \<Rightarrow> bool"
  assumes enc_refuses: "\<not> running e \<Longrightarrow> enc f e = Inr (ErrorEncodeFailed, [], f, e)"
    and enc_running: "enc f e = Inr (r, ps, f', e') \<Longrightarrow> running e' = running e"
    and enc_inv: "inv e \<Longrightarrow> enc f e = Inr (r, ps, f', e') \<Longrightarrow> inv e'"
    and enc_error: "enc f e = Inr (r, ps, f', e') \<Longrightarrow> r \<noteq> Success \<Longrightarrow> ps = []"
    and halt_stopped: "inv e \<Longrightarrow> halt e L = Inr (ps, e', L') \<Longrightarrow> \<not> running e' \<and> inv e'"
begin

lemma feed_keeps: "inv e \<Longrightarrow> feed enc fs e = Inr (ps, e') \<Longrightarrow> inv e' \<and> running e' = running e"
proof (induction fs arbitrary: e ps)
  case (Cons f fs)
  then obtain r ps1 f' e1 ps2 where "enc f e = Inr (r, ps1, f', e1)" "feed enc fs e1 = Inr (ps2, e')"
    by fastforce
  with Cons.IH Cons.prems(1) enc_inv enc_running show ?case by blast
qed simp

lemma feed_stopped: "\<not> running e \<Longrightarrow> feed enc fs e = Inr ([], e)"
  by (induction fs) (simp_all add: enc_refuses)

lemma silent_after_halt:
  assumes "inv e" "feed enc fs e = Inr (ps, e1)" "halt e1 L = Inr (qs, e2, L')"
  shows "feed enc gs e2 = Inr ([], e2)"
  using feed_keeps [OF assms(1,2)] halt_stopped [OF _ assms(3)] by (simp add: feed_stopped)

end

lemma enc_stop_stopped:
  assumes "enc_inv e" "enc_stop lib e L = Inr (ps, e', L')"
  shows "\<not> enc_running e' \<and> enc_inv e'"
  using assms by (cases "enc_ctx e") (auto simp: enc_stop_eq enc_inv_def)

interpretation encoder: encoder_ops "encodeFrame lib" "enc_stop lib'" enc_running enc_inv for lib lib'
proof unfold_locales
  fix e :: "'a encoder" and f
  assume "\<not> enc_running e"
  then show "encodeFrame lib f e = Inr (ErrorEncodeFailed, [], f, e)"
    by (auto simp: encodeFrame_defs split: encoder_kind.splits)
next
  fix e e' :: "'a encoder" and f f' r ps
  assume h: "encodeFrame lib f e = Inr (r, ps, f', e')"
  from encodeFrame_keeps [OF h] show "enc_running e' = enc_running e" by auto
  from encodeFrame_keeps [OF h] show "r \<noteq> Success \<Longrightarrow> ps = []" by auto
  from encodeFrame_keeps [OF h] show "enc_inv e \<Longrightarrow> enc_inv e'"
    by (auto simp: enc_inv_def same_ctx_def)
next
  fix e e' :: "'a encoder" and L L' ps
  assume "enc_inv e" "enc_stop lib' e L = Inr (ps, e', L')"
  then show "\<not> enc_running e' \<and> enc_inv e'" by (rule enc_stop_stopped)
qed

section \<open>Observing what reaches the codec\<close>

text \<open>
  A library that records the frames it is sent, beside whatever another library does, makes
  the encoder's submissions visible in the codec state.
\<close>

definition log_lib :: "'c av_lib \<Rightarrow> (av_frame list \<times> 'c) av_lib" where
  "log_lib lib = \<lparr>lib_has_encoder = lib_has_encoder lib, lib_alloc_context = lib_alloc_context lib,
     lib_open2 = (\<lambda>p opts. map_option (Pair []) (lib_open2 lib p opts)),
     lib_frame_alloc = lib_frame_alloc lib, lib_packet_alloc = lib_packet_alloc lib,
     lib_get_buffer = lib_get_buffer lib, lib_sws_context = lib_sws_context lib,
     lib_sws_scale = lib_sws_scale lib,
     lib_send_frame = (\<lambda>(l, c) f. case lib_send_frame lib c f of (ret, c') \<Rightarrow>
        (ret, (case f of None \<Rightarrow> l | Some fr \<Rightarrow> l @ [fr], c'))),
     lib_receive_packet = (\<lambda>(l, c). case lib_receive_packet lib c of (p, c') \<Rightarrow> (p, (l, c'))),
     lib_packet_clone = lib_packet_clone lib, lib_rescale = lib_rescale lib\<rparr>"

definition ctx_log :: "(av_frame list \<times> 'c) codec_ctx \<Rightarrow> av_frame list" where
  "ctx_log ctx = (case ctx_state ctx of None \<Rightarrow> [] | Some (l, c) \<Rightarrow> l)"

definition sent_log :: "(av_frame list \<times> 'c) encoder \<Rightarrow> av_frame list" where
  "sent_log e = (case enc_ctx e of None \<Rightarrow> [] | Some ctx \<Rightarrow> ctx_log ctx)"

text \<open>A client's history: key frame requests interleaved with frames.\<close>

datatype enc_event = RequestKeyframe | EncodeFrame av_frame

fun run_encoder :: "'c av_lib \<Rightarrow> enc_event list \<Rightarrow> 'c encoder \<Rightarrow> 'c encoder run" where
  "run_encoder lib [] e = Inr e"
| "run_encoder lib (RequestKeyframe # es) e = run_encoder lib es (enc_requestKeyframe e)"
| "run_encoder lib (EncodeFrame f # es) e =
     andThen (encodeFrame lib f e) (\<lambda>(r, ps, f', e'). run_encoder lib es e')"

text \<open>
  The specification: each frame, with whether a request is pending when it is encoded. A
  request is pending until the next frame takes it; several pending requests are one.
\<close>

fun schedule :: "bool \<Rightarrow> enc_event list \<Rightarrow> (bool \<times> av_frame) list" where
  "schedule pending [] = []"
| "schedule pending (RequestKeyframe # es) = schedule True es"
| "schedule pending (EncodeFrame f # es) = (pending, f) # schedule False es"

lemma log_receive: "ctx_receive (log_lib lib) ctx = (x, ctx') \<Longrightarrow> ctx_log ctx' = ctx_log ctx"
  by (auto simp: ctx_receive.simps ctx_log_def log_lib_def split: option.splits prod.splits)

lemma log_receive_packets:
  assumes "receive_packets (log_lib lib) ctx cb = Inr (ps, ctx')"
  shows "ctx_log ctx' = ctx_log ctx"
proof -
  from assms obtain pkts where "receive_loop (ctx_receive (log_lib lib)) ctx = Some (pkts, ctx')"
    by (auto simp: receive_packets_def split: if_splits option.splits)
  then show ?thesis by (rule receive_loop_keeps) (auto dest: log_receive)
qed

lemma log_send:
  "ctx_send (log_lib lib) (Some f) ctx = (ret, ctx') \<Longrightarrow> ctx_state ctx \<noteq> None \<Longrightarrow>
   ctx_log ctx' = ctx_log ctx @ [f]"
  by (auto simp: ctx_send.simps ctx_log_def log_lib_def split: option.splits prod.splits)

lemma log_submit:
  assumes "submit_frame (log_lib lib) inp f' ctx e = Inr (r, ps, f'', e')" "ctx_state ctx \<noteq> None"
  shows "sent_log e' = ctx_log ctx @ [inp]"
  using assms
  by (auto simp: submit_frame_def sent_log_def log_send split: prod.splits if_splits
      dest!: log_receive_packets)

lemma log_encode:
  assumes "encodeFrame (log_lib lib) f e = Inr (r, ps, f', e')"
    and "enc_kind e = SoftwareEncoder" "enc_running e" "enc_inv e" "enc_ctx e = Some ctx"
  shows "\<exists>inp conv. sw_convert (log_lib lib) (ctx_params ctx) f = Inr (inp, conv)
    \<and> sent_log e' = sent_log e
        @ [stamp_frame (log_lib lib) (ctx_params ctx) (enc_forceKeyframe e) f inp]"
  using assms
  by (auto simp: encodeFrame_defs Let_def enc_inv_def sent_log_def [of e] dest: log_submit)

lemma drains_log:
  assumes "drains (lib_receive_packet lib) c"
  shows "drains (lib_receive_packet (log_lib lib)) (l, c)"
  using assms
proof (induction rule: drains.induct)
  case (drains_stop c c')
  then show ?case by (intro drains.drains_stop) (simp add: log_lib_def)
next
  case (drains_more c x c')
  then show ?case by (intro drains.drains_more [of _ "(l, c)" x "(l, c')"]) (simp_all add: log_lib_def)
qed

lemma log_lib_ok:
  "codec_drains lib \<Longrightarrow> codec_drains (log_lib lib)"
  "allocs_succeed (log_lib lib) = allocs_succeed lib"
  by (auto simp: codec_drains_def drains_log allocs_succeed_def) (simp_all add: log_lib_def)

lemma encodeFrame_total:
  assumes "enc_inv e" "codec_drains lib" "allocs_succeed lib"
  obtains r ps f' e' where "encodeFrame lib f e = Inr (r, ps, f', e')"
proof -
  note submit = submit_frame_returns [OF assms(2,3)]
  have "\<exists>x. encodeFrame lib f e = Inr x"
  proof (cases "enc_running e")
    case False
    then show ?thesis by (simp add: encoder.enc_refuses)
  next
    case True
    with assms(1) obtain ctx where ctx: "enc_ctx e = Some ctx" by (auto simp: enc_inv_def)
    obtain a b where sw: "sw_convert lib (ctx_params ctx) f = Inr (a, b)"
      using sw_convert_returns [OF assms(3)] by (metis surj_pair)
    obtain a' b' where nv: "nvenc_convert lib (ctx_params ctx) f = Inr (a', b')"
      using nvenc_convert_returns [OF assms(3)] by (metis surj_pair)
    show ?thesis
      by (cases "enc_kind e") (simp_all add: encodeFrame_defs True ctx sw nv Let_def submit
          del: split_paired_Ex)
  qed
  then show thesis using that by (metis prod_cases4)
qed

lemma stamp_frame_sel:
  "af_pict_type (stamp_frame lib p b f inp) = (if b then PICTURE_TYPE_I else af_pict_type inp)"
  "af_format (stamp_frame lib p b f inp) = af_format inp"
  "af_width (stamp_frame lib p b f inp) = af_width inp"
  "af_height (stamp_frame lib p b f inp) = af_height inp"
  "af_color_range (stamp_frame lib p b f inp) = af_color_range inp"
  "af_pts (stamp_frame lib p b f inp) = lib_rescale lib (af_pts f) ns_tb (cp_time_base p)"
  by (simp_all add: stamp_frame_def Let_def)

lemma sw_convert_pict:
  "sw_convert lib p f = Inr (inp, conv) \<Longrightarrow> af_pict_type f = PICTURE_TYPE_NONE \<Longrightarrow>
   af_pict_type inp = PICTURE_TYPE_NONE"
  by (auto simp: sw_convert_def Let_def converted_frame_def split: prod.splits if_splits)

lemma sw_convert_geometry:
  assumes "sw_convert lib p f = Inr (inp, conv)"
    and "\<And>w h fmt. lib_sws_context lib w h fmt (cp_width p) (cp_height p) PIX_FMT_YUV420P"
  shows "af_format inp = PIX_FMT_YUV420P \<and> af_color_range inp \<noteq> RANGE_JPEG
    \<and> af_width inp = cp_width p \<and> af_height inp = cp_height p"
  using assms
  by (auto simp: sw_convert_def Let_def converted_frame_def src_format_def
      split: prod.splits if_splits pix_fmt.splits)

lemma run_encoder_log:
  assumes "enc_kind e = SoftwareEncoder" "enc_running e" "enc_inv e" "enc_ctx e = Some ctx"
    and "codec_drains lib" "allocs_succeed lib"
  shows "\<exists>e' sent. run_encoder (log_lib lib) es e = Inr e' \<and> sent_log e' = sent_log e @ sent \<and>
    list_all2 (\<lambda>(forced, f) out. \<exists>inp conv. sw_convert (log_lib lib) (ctx_params ctx) f = Inr (inp, conv)
      \<and> out = stamp_frame (log_lib lib) (ctx_params ctx) forced f inp)
      (schedule (enc_forceKeyframe e) es) sent"
  using assms
proof (induction es arbitrary: e ctx)
  case (Cons ev es)
  show ?case
  proof (cases ev)
    case RequestKeyframe
    let ?e = "enc_requestKeyframe e"
    have "enc_kind ?e = SoftwareEncoder" "enc_running ?e" "enc_inv ?e" "enc_ctx ?e = Some ctx"
        "enc_forceKeyframe ?e" "sent_log ?e = sent_log e"
      using Cons.prems by (simp_all add: enc_requestKeyframe_def enc_inv_def sent_log_def)
    with Cons.IH [of ?e ctx] Cons.prems(5,6) RequestKeyframe show ?thesis by simp
  next
    case (EncodeFrame f)
    obtain r ps f' e1 where enc: "encodeFrame (log_lib lib) f e = Inr (r, ps, f', e1)"
      using encodeFrame_total Cons.prems log_lib_ok by metis
    obtain inp conv where c: "sw_convert (log_lib lib) (ctx_params ctx) f = Inr (inp, conv)"
      and l: "sent_log e1 = sent_log e
        @ [stamp_frame (log_lib lib) (ctx_params ctx) (enc_forceKeyframe e) f inp]"
      using log_encode [OF enc] Cons.prems by blast
    from encodeFrame_keeps [OF enc] Cons.prems obtain ctx1 where
      e1: "e1 = e\<lparr>enc_ctx := Some ctx1, enc_forceKeyframe := False\<rparr>" and s: "same_ctx ctx ctx1"
      by auto
    have "enc_inv e1" using Cons.prems e1 s by (auto simp: enc_inv_def same_ctx_def)
    then obtain e' sent where "run_encoder (log_lib lib) es e1 = Inr e'"
      "sent_log e' = sent_log e1 @ sent"
      "list_all2 (\<lambda>(forced, f) out. \<exists>inp conv. sw_convert (log_lib lib) (ctx_params ctx1) f = Inr (inp, conv)
        \<and> out = stamp_frame (log_lib lib) (ctx_params ctx1) forced f inp) (schedule False es) sent"
      using Cons.IH [of e1 ctx1] Cons.prems e1 by auto
    moreover have "ctx_params ctx1 = ctx_params ctx" using s by (simp add: same_ctx_def)
    ultimately show ?thesis using enc c l EncodeFrame by auto
  qed
qed simp

section \<open>Resources\<close>

text \<open>The one library object an encoder owns, and the effect of each operation on it.\<close>

definition enc_owned :: "'c encoder \<Rightarrow> handle option" where
  "enc_owned e = map_option ctx_handle (enc_ctx e)"

lemma encodeFrame_owned:
  "encodeFrame lib f e = Inr (r, ps, f', e') \<Longrightarrow> enc_owned e' = enc_owned e"
  by (drule encodeFrame_keeps) (auto simp: enc_owned_def same_ctx_def)

lemma run_encoder_keeps:
  assumes "enc_inv e" "codec_drains lib" "allocs_succeed lib"
  shows "\<exists>e'. run_encoder lib es e = Inr e' \<and> enc_inv e' \<and> enc_owned e' = enc_owned e"
  using assms(1)
proof (induction es arbitrary: e)
  case (Cons ev es)
  show ?case
  proof (cases ev)
    case RequestKeyframe
    have "enc_inv (enc_requestKeyframe e)" "enc_owned (enc_requestKeyframe e) = enc_owned e"
      using Cons.prems by (auto simp: enc_requestKeyframe_def enc_inv_def enc_owned_def
          split: encoder_kind.splits)
    with Cons.IH [of "enc_requestKeyframe e"] RequestKeyframe show ?thesis by simp
  next
    case (EncodeFrame f)
    obtain r ps f' e1 where enc: "encodeFrame lib f e = Inr (r, ps, f', e1)"
      using Cons.prems assms(2,3) by (rule encodeFrame_total)
    with Cons.IH [OF encoder.enc_inv [OF Cons.prems enc]] encodeFrame_owned [OF enc] EncodeFrame
    show ?thesis by auto
  qed
qed simp

lemma open_context_owned:
  assumes "open_context lib p opts e L = (r, e1, L1)" "wf_ledger L" "\<not> enc_running e"
  shows "enc_inv e1 \<and> wf_ledger L1 \<and> set (live L1) = set (live L) \<union> set_option (enc_owned e1)
    \<and> set (live L) \<inter> set_option (enc_owned e1) = {}"
  using assms wf_acquire [OF assms(2)] acquire_live acquire_fresh [OF assms(2)]
  by (fastforce simp: open_context_def enc_inv_def enc_owned_def
      split: if_splits prod.splits option.splits)

lemma enc_initialize_new:
  assumes "enc_initialize lib cfg cb (new_encoder k) L = (r, e1, L1)" "wf_ledger L"
  shows "enc_inv e1 \<and> wf_ledger L1 \<and> set (live L1) = set (live L) \<union> set_option (enc_owned e1)
    \<and> set (live L) \<inter> set_option (enc_owned e1) = {}"
proof (cases "(k = SoftwareEncoder \<and> lib_has_encoder lib ''libx264'')
    \<or> (k = NVENCEncoder \<and> lib_has_encoder lib ''h264_nvenc'')")
  case True
  with assms show ?thesis
    by (auto simp: enc_initialize_def sw_initialize_def nvenc_initialize_def base_initialize_def
        new_encoder_def dest!: open_context_owned)
next
  case False
  with assms show ?thesis
    by (cases k) (auto simp: enc_initialize_def sw_initialize_def nvenc_initialize_def
        base_initialize_def new_encoder_def enc_inv_def enc_owned_def)
qed

lemma enc_stop_owned:
  assumes "codec_drains lib" "allocs_succeed lib" "wf_ledger L"
    and "set_option (enc_owned e) \<subseteq> set (live L)"
  shows "\<exists>ps e' L'. enc_stop lib e L = Inr (ps, e', L') \<and> wf_ledger L'
    \<and> set (live L') = set (live L) - set_option (enc_owned e) \<and> enc_ctx e' = None"
proof (cases "enc_ctx e")
  case None
  with assms show ?thesis by (simp add: enc_stop_eq enc_owned_def)
next
  case (Some ctx)
  obtain ret ctx1 where s: "ctx_send lib None ctx = (ret, ctx1)" by fastforce
  obtain ps ctx2 where r: "receive_packets lib ctx1 (enc_callback e) = Inr (ps, ctx2)"
    using assms(1,2) by (rule receive_packets_returns)
  have h: "ctx_handle ctx2 = ctx_handle ctx"
    using ctx_send_same [OF s] receive_packets_same [OF r] by (simp add: same_ctx_def)
  have "ctx_handle ctx \<in> set (live L)" using assms(4) Some by (simp add: enc_owned_def)
  then obtain L' where l: "release (ctx_handle ctx) L = Inr L'" by (simp add: release_def)
  with s r h Some wf_release [OF assms(3) l] release_live [OF assms(3) l]
  show ?thesis by (simp add: enc_stop_eq enc_owned_def)
qed

lemma enc_destroy_owned:
  assumes "codec_drains lib" "allocs_succeed lib" "wf_ledger L"
    and "set_option (enc_owned e) \<subseteq> set (live L)"
  shows "\<exists>ps e' L'. enc_destroy lib e L = Inr (ps, e', L') \<and> wf_ledger L'
    \<and> set (live L') = set (live L) - set_option (enc_owned e) \<and> enc_ctx e' = None"
proof (cases "enc_running e")
  case True
  then show ?thesis using enc_stop_owned [OF assms] by (auto simp: enc_destroy_eq)
next
  case False
  obtain L' where l: "release_opt (enc_owned e) L = Inr L'"
    using release_opt_succeeds [OF assms(4)] by (auto simp: succeeds_iff)
  then show ?thesis using False release_opt_live [OF assms(3) l] wf_release_opt [OF assms(3) l]
    by (simp add: enc_destroy_eq flip: enc_owned_def)
qed

section \<open>Properties\<close>

text \<open>\<open>createEncoder\<close> always yields an encoder, and which class depends on whether the
  installation offers \<open>h264_nvenc\<close> only, never on the type the configuration asks for.\<close>

theorem createEncoder_by_availability:
  "createEncoder lib cfg = Some (new_encoder
     (if lib_has_encoder lib ''h264_nvenc'' then NVENCEncoder else SoftwareEncoder))"
  by (simp add: createEncoder_def resolve_type_def split: EncoderType.splits)

text \<open>C28: \<open>encodeFrame\<close> of either class, on a running or stopped encoder, returns without
  undefined behaviour and keeps the class invariant, if the codec runs dry when drained and
  FFmpeg's frame and packet allocations succeed.\<close>

theorem encodeFrame_returns:
  assumes "enc_inv e" and "codec_drains lib" and "allocs_succeed lib"
  shows "\<exists>r ps f' e'. encodeFrame lib f e = Inr (r, ps, f', e') \<and> enc_inv e'
    \<and> enc_running e' = enc_running e"
proof -
  obtain r ps f' e' where enc: "encodeFrame lib f e = Inr (r, ps, f', e')"
    using assms by (rule encodeFrame_total)
  then show ?thesis using encoder.enc_inv [OF assms(1) enc] encoder.enc_running [OF enc] by blast
qed



text \<open>C27: time stamps survive the codec's time base: a nanosecond time stamp converted to units of
  \<open>1/framerate\<close> by \<open>encodeFrame\<close> and back by \<open>rescaleToNs\<close> is off by at most half a
  frame interval (and half a nanosecond).\<close>

theorem pts_roundtrip_error:
  assumes "rescales_to_nearest resc" and "0 < fps" "fps \<le> 1000000000" and "\<bar>sint pts\<bar> \<le> 2 ^ 60"
  shows "2 * fps * \<bar>sint (rescaleToNs resc (resc pts ns_tb (fps_tb fps)) (fps_tb fps)) - sint pts\<bar>
    \<le> 1000000000 + fps"
proof -
  let ?p = "sint pts" and ?q = "sint (resc pts ns_tb (fps_tb fps))" and ?n = "1000000000 :: int"
  have pf: "\<bar>?p * fps\<bar> \<le> 2 ^ 60 * ?n"
    using assms(2-4) by (simp only: abs_mult) (intro mult_mono, auto)
  then have "fits_i64 (?p * fps div ?n)" by (intro div_fits) auto
  then have 1: "2 * \<bar>?q * ?n - ?p * fps\<bar> \<le> ?n"
    using rescales_to_nearestD [OF assms(1), of ns_tb "fps_tb fps" pts] assms(2)
    by (simp add: ns_tb_def fps_tb_def)
  have pp: "\<bar>?p * fps\<bar> \<le> 2 ^ 60 * fps"
    using assms(2,4) by (simp add: abs_mult)
  have "\<bar>?q * ?n\<bar> \<le> 2 ^ 60 * fps + ?n" 
    using 1 pp abs_triangle_ineq [of "?q * ?n - ?p * fps" "?p * fps"] by simp
  also have "\<dots> \<le> 2 ^ 62 * fps" using assms(2,3) by simp
  finally have qn: "\<bar>?q * ?n\<bar> \<le> 2 ^ 62 * fps" .
  have "fits_i64 (?q * ?n div fps)" using assms(2) qn by (rule div_fits)
  then have 2: "2 * \<bar>sint (resc (resc pts ns_tb (fps_tb fps)) (fps_tb fps) ns_tb) * fps - ?q * ?n\<bar> \<le> fps"
    using rescales_to_nearestD [OF assms(1), of "fps_tb fps" ns_tb "resc pts ns_tb (fps_tb fps)"]
      assms(2) by (simp add: ns_tb_def fps_tb_def)
  have "resc pts ns_tb (fps_tb fps) \<noteq> AV_NOPTS_VALUE"
    using qn assms(2,3) by (auto simp: AV_NOPTS_VALUE_def)
  moreover have "2 * \<bar>(sint (resc (resc pts ns_tb (fps_tb fps)) (fps_tb fps) ns_tb) - ?p) * fps\<bar> \<le> ?n + fps"
    using 1 2 abs_triangle_ineq [of "sint (resc (resc pts ns_tb (fps_tb fps)) (fps_tb fps) ns_tb) * fps
      - ?q * ?n" "?q * ?n - ?p * fps"] by (simp add: left_diff_distrib)
  ultimately show ?thesis using assms(2) by (simp add: rescaleToNs_def abs_mult mult.commute mult.left_commute)
qed

text \<open>an encoder's life leaves nothing behind: initialising a new encoder of either class,
  whatever the outcome, then any history of key frame requests and frames, then the destructor,
  runs without fault and frees exactly what was allocated.\<close>

theorem encoder_life_no_leak:
  assumes "enc_initialize lib cfg cb (new_encoder k) L = (r, e1, L1)" "wf_ledger L"
    and "codec_drains lib" "allocs_succeed lib"
  shows "\<exists>e2 ps e3 L3. run_encoder lib es e1 = Inr e2 \<and> enc_destroy lib e2 L1 = Inr (ps, e3, L3)
    \<and> set (live L3) = set (live L)"
proof -
  from enc_initialize_new [OF assms(1,2)] have i: "enc_inv e1" "wf_ledger L1"
    "set (live L1) = set (live L) \<union> set_option (enc_owned e1)"
    "set (live L) \<inter> set_option (enc_owned e1) = {}" by auto
  obtain e2 where e2: "run_encoder lib es e1 = Inr e2" "enc_owned e2 = enc_owned e1"
    using run_encoder_keeps [OF i(1) assms(3,4)] by blast
  then obtain ps e3 L3 where "enc_destroy lib e2 L1 = Inr (ps, e3, L3)"
    "set (live L3) = set (live L1) - set_option (enc_owned e1)"
    using enc_destroy_owned [OF assms(3,4) i(2), of e2] i(3) by auto
  with e2 i(3,4) show ?thesis by auto
qed

text \<open>initialising an encoder that already has a context leaks that context: whatever the
  class, the pointer is overwritten and the destructor frees the new context only.\<close>

theorem encoder_reinitialize_leaks:
  assumes "enc_ctx e = Some ctx" "ctx_handle ctx \<in> set (live L)" "wf_ledger L"
    and "\<And>n. lib_has_encoder lib n" "lib_alloc_context lib" "codec_drains lib" "allocs_succeed lib"
    and "enc_initialize lib cfg cb e L = (r, e1, L1)"
  shows "\<exists>ps e2 L2. enc_destroy lib e1 L1 = Inr (ps, e2, L2) \<and> enc_ctx e2 = None
    \<and> ctx_handle ctx \<in> set (live L2)"
proof -
  obtain h L' where a: "acquire L = (h, L')" by fastforce
  with assms(4,5,8) have o1: "enc_owned e1 = Some h" "L1 = L'"
    by (auto simp: enc_initialize_def sw_initialize_def nvenc_initialize_def base_initialize_def
        open_context_def enc_owned_def split: encoder_kind.splits option.splits)
  have "h \<notin> set (live L)" "set (live L') = insert h (set (live L))" "wf_ledger L'"
    using acquire_fresh [OF assms(3) a] acquire_live [OF a] wf_acquire [OF assms(3) a] by auto
  with enc_destroy_owned [OF assms(6,7), of L' e1] o1 assms(2) show ?thesis by auto
qed

section \<open>Witnesses\<close>

text \<open>
  A small library to evaluate the properties on: the codec is a queue that turns every frame
  into one packet, key frames marked.
\<close>

definition queue_lib :: "av_packet list av_lib" where
  "queue_lib = \<lparr>lib_has_encoder = (\<lambda>n. True), lib_alloc_context = True,
     lib_open2 = (\<lambda>p opts. Some []), lib_frame_alloc = True, lib_packet_alloc = True,
     lib_get_buffer = (\<lambda>w h fmt. [w, w div 2, w div 2]),
     lib_sws_context = (\<lambda>w h fmt w' h' fmt'. True), lib_sws_scale = (\<lambda>full f ls. []),
     lib_send_frame = (\<lambda>q f. (0, case f of None \<Rightarrow> q | Some fr \<Rightarrow>
        q @ [\<lparr>ap_pts = af_pts fr, ap_dts = af_pts fr, ap_size = 100,
              ap_flags = (if af_pict_type fr = PICTURE_TYPE_I then 1 else 0), ap_data = []\<rparr>])),
     lib_receive_packet = (\<lambda>q. case q of [] \<Rightarrow> (None, []) | p # q' \<Rightarrow> (Some p, q')),
     lib_packet_clone = Some, lib_rescale = rescale_ref\<rparr>"

lemma queue_lib_ok: "codec_drains queue_lib" "allocs_succeed queue_lib"
  by (auto simp: codec_drains_def allocs_succeed_def queue_lib_def split: list.splits
      intro!: drains_measure [where m = length])

definition demo_frame :: av_frame where
  "demo_frame = \<lparr>af_format = PIX_FMT_YUVJ422P, af_width = 640, af_height = 480, af_linesize = [640],
     af_data = [], af_color_range = RANGE_JPEG, af_pict_type = PICTURE_TYPE_NONE, af_pts = 33333333\<rparr>"

definition demo_ctx :: "'c \<Rightarrow> 'c codec_ctx" where
  "demo_ctx c = \<lparr>ctx_handle = 0, ctx_params = sw_params (default_EncoderConfig\<lparr>ec_width := 1280,
     ec_height := 720\<rparr>), ctx_state = Some c\<rparr>"

definition demo_encoder :: "'c \<Rightarrow> 'c encoder" where
  "demo_encoder c = (new_encoder SoftwareEncoder)\<lparr>enc_running := True, enc_callback := True,
     enc_ctx := Some (demo_ctx c)\<rparr>"

lemma demo_encoder_ok: "enc_kind (demo_encoder c) = SoftwareEncoder" "enc_running (demo_encoder c)"
  "enc_inv (demo_encoder c)" "enc_ctx (demo_encoder c) = Some (demo_ctx c)"
  "enc_forceKeyframe (demo_encoder c) = False" "ctx_handle (demo_ctx c) = 0"
  "cp_width (ctx_params (demo_ctx c)) = 1280"
  by (simp_all add: demo_encoder_def demo_ctx_def sw_params_def enc_inv_def new_encoder_def)

theorem encodeFrame_returns_witness:
  "\<exists>r ps f' e'. encodeFrame queue_lib demo_frame (demo_encoder []) = Inr (r, ps, f', e') \<and> enc_running e'"
  using encodeFrame_returns [OF demo_encoder_ok(3) queue_lib_ok, of demo_frame] demo_encoder_ok(2)
  by metis



theorem pts_roundtrip_error_witness:
  "2 * 30 * \<bar>sint (rescaleToNs rescale_ref (rescale_ref 12345678901 ns_tb (fps_tb 30)) (fps_tb 30))
     - 12345678901\<bar> \<le> 1000000030"
  using pts_roundtrip_error [OF rescale_ref_nearest, of 30 12345678901] by simp

theorem encoder_life_no_leak_witness:
  "\<exists>e1 L1 e2 ps e3 L3.
     enc_initialize queue_lib default_EncoderConfig True (new_encoder NVENCEncoder)
       \<lparr>next_handle = 5, live = [3]\<rparr> = (Success, e1, L1)
     \<and> run_encoder queue_lib [EncodeFrame demo_frame] e1 = Inr e2
     \<and> enc_destroy queue_lib e2 L1 = Inr (ps, e3, L3) \<and> set (live L3) = {3}"
proof -
  obtain e1 L1 where i: "enc_initialize queue_lib default_EncoderConfig True (new_encoder NVENCEncoder)
       \<lparr>next_handle = 5, live = [3]\<rparr> = (Success, e1, L1)"
    by (simp add: enc_initialize_def nvenc_initialize_def base_initialize_def open_context_def
        new_encoder_def queue_lib_def acquire_def)
  have "wf_ledger \<lparr>next_handle = 5, live = [3]\<rparr>" by (simp add: wf_ledger_def)
  from encoder_life_no_leak [OF i this queue_lib_ok, of "[EncodeFrame demo_frame]"] i
  show ?thesis by auto
qed

theorem encoder_reinitialize_leaks_witness:
  "\<exists>e1 L1 ps e2 L2.
     enc_initialize queue_lib default_EncoderConfig True (demo_encoder [])
       \<lparr>next_handle = 1, live = [0]\<rparr> = (Success, e1, L1)
     \<and> enc_destroy queue_lib e1 L1 = Inr (ps, e2, L2) \<and> 0 \<in> set (live L2)"
proof -
  obtain e1 L1 where i: "enc_initialize queue_lib default_EncoderConfig True (demo_encoder [])
       \<lparr>next_handle = 1, live = [0]\<rparr> = (Success, e1, L1)"
    by (simp add: enc_initialize_def sw_initialize_def base_initialize_def open_context_def
        demo_encoder_def new_encoder_def queue_lib_def acquire_def)
  have "wf_ledger \<lparr>next_handle = 1, live = [0]\<rparr>"
    "ctx_handle (demo_ctx []) \<in> set (live \<lparr>next_handle = 1, live = [0]\<rparr>)"
    "lib_has_encoder queue_lib n" "lib_alloc_context queue_lib" for n
    by (simp_all add: wf_ledger_def demo_encoder_ok queue_lib_def)
  from encoder_reinitialize_leaks [OF demo_encoder_ok(4) this(2,1,3,4) queue_lib_ok i] i
  show ?thesis by (auto simp: demo_encoder_ok)
qed

end
