(* ===== verification/Video_Pipeline.thy ===== *)
theory Video_Pipeline
  imports Camera_Capture Encoder Complex_Main
begin

text \<open>
  \<open>video-core/src/pipeline/video_pipeline.cpp\<close>: the capture device and the encoder put
  together, with the bounded frame queue between them and the statistics. This theory has the
  operations as each thread executes them; \<open>Pipeline_Threads\<close> has their interleaving.
\<close>

section \<open>State\<close>

record 'c pipeline =
  vp_encoderConfig :: EncoderConfig
  vp_capture :: "camera option"
  vp_encoder :: "'c encoder option"
  vp_packetCallback :: bool
  vp_previewCallback :: bool
  vp_queue :: "Frame list"
  vp_framesDropped :: i32
  vp_encodeThread :: bool
  vp_currentFramerate :: i32
  vp_frameCount :: i32
  vp_framesEncoded :: i32
  vp_bitrate :: i32
  vp_startTime :: rat

definition new_pipeline :: "'c pipeline" where
  "new_pipeline = \<lparr>vp_encoderConfig = default_EncoderConfig, vp_capture = None, vp_encoder = None,
     vp_packetCallback = False, vp_previewCallback = False, vp_queue = [], vp_framesDropped = 0,
     vp_encodeThread = False, vp_currentFramerate = 0, vp_frameCount = 0, vp_framesEncoded = 0,
     vp_bitrate = 0, vp_startTime = 0\<rparr>"

definition QUEUE_CAPACITY :: nat where
  "QUEUE_CAPACITY = 3"

section \<open>Callbacks\<close>

text \<open>
  The encoder's packet callback; \<open>std::atomic<int>\<close> arithmetic wraps. The result has the
  packet passed on, if somebody listens.
\<close>

definition packet_callback :: "Packet \<Rightarrow> 'c pipeline \<Rightarrow> Packet list \<times> 'c pipeline" where
  "packet_callback pkt vp =
     (let vp = vp\<lparr>vp_bitrate := vp_bitrate vp + pk_size pkt,
                  vp_framesEncoded := vp_framesEncoded vp + 1\<rparr>
      in (if vp_packetCallback vp then [pkt] else [], vp))"

fun deliver :: "Packet list \<Rightarrow> 'c pipeline \<Rightarrow> Packet list \<times> 'c pipeline" where
  "deliver [] vp = ([], vp)"
| "deliver (p # ps) vp =
     (case packet_callback p vp of (out, vp) \<Rightarrow> case deliver ps vp of (outs, vp) \<Rightarrow> (out @ outs, vp))"

text \<open>The part of the capture callback that holds the mutex: drop the oldest when full.\<close>

definition enqueue_frame :: "Frame \<Rightarrow> 'c pipeline \<Rightarrow> 'c pipeline" where
  "enqueue_frame f vp =
     (let vp = (if QUEUE_CAPACITY \<le> length (vp_queue vp)
                then vp\<lparr>vp_queue := tl (vp_queue vp), vp_framesDropped := vp_framesDropped vp + 1\<rparr>
                else vp)
      in vp\<lparr>vp_queue := vp_queue vp @ [f]\<rparr>)"

definition frame_callback :: "Frame \<Rightarrow> 'c pipeline \<Rightarrow> Frame list \<times> 'c pipeline" where
  "frame_callback f vp =
     (let previews = (if vp_previewCallback vp then [f] else []);
          vp = enqueue_frame f vp
      in (previews, vp\<lparr>vp_frameCount := vp_frameCount vp + 1\<rparr>))"

section \<open>Initialisation\<close>

text \<open>
  Assigning a new object to one of the two \<open>unique_ptr\<close> members destroys the old one; an
  encoder that is still running then flushes into the packet callback.
\<close>

definition replace_capture :: "camera \<Rightarrow> 'c pipeline \<Rightarrow> ledger \<Rightarrow> ('c pipeline \<times> ledger) run" where
  "replace_capture cam vp L =
     andThen (case vp_capture vp of None \<Rightarrow> Inr L | Some old \<Rightarrow> andThen (cam_destroy old L) (\<lambda>(_, L). Inr L))
       (\<lambda>L. Inr (vp\<lparr>vp_capture := Some cam\<rparr>, L))"

definition replace_encoder ::
  "'c av_lib \<Rightarrow> 'c encoder option \<Rightarrow> 'c pipeline \<Rightarrow> ledger \<Rightarrow> (Packet list \<times> 'c pipeline \<times> ledger) run" where
  "replace_encoder lib e vp L =
     (case vp_encoder vp of
        None \<Rightarrow> Inr ([], vp\<lparr>vp_encoder := e\<rparr>, L)
      | Some old \<Rightarrow> andThen (enc_destroy lib old L)
          (\<lambda>(ps, _, L). case deliver ps (vp\<lparr>vp_encoder := e\<rparr>) of (out, vp) \<Rightarrow> Inr (out, vp, L)))"

definition vp_initialize ::
  "(string \<Rightarrow> gst_probe) \<Rightarrow> bool \<Rightarrow> 'c av_lib \<Rightarrow> CaptureConfig \<Rightarrow> EncoderConfig \<Rightarrow> 'c pipeline \<Rightarrow>
   ledger \<Rightarrow> (Result \<times> Packet list \<times> 'c pipeline \<times> ledger) run" where
  "vp_initialize gst pw lib captureConfig encoderConfig vp L =
     andThen (replace_capture new_camera (vp\<lparr>vp_encoderConfig := encoderConfig\<rparr>) L)
       (\<lambda>(vp, L). andThen (cam_initialize gst pw captureConfig new_camera L)
       (\<lambda>(capture_result, cam, L). let vp = vp\<lparr>vp_capture := Some cam\<rparr> in
          if capture_result \<noteq> Success then Inr (capture_result, [], vp, L)
          else andThen (replace_encoder lib (createEncoder lib encoderConfig) vp L)
            (\<lambda>(out, vp, L).
               if vp_encoder vp = None then Inr (ErrorInitFailed, out, vp, L)
               else Inr (Success, out, vp, L))))"

definition setPreviewCallback :: "bool \<Rightarrow> 'c pipeline \<Rightarrow> 'c pipeline" where
  "setPreviewCallback cb vp = vp\<lparr>vp_previewCallback := cb\<rparr>"

definition vp_requestKeyframe :: "'c pipeline \<Rightarrow> 'c pipeline" where
  "vp_requestKeyframe vp =
     (case vp_encoder vp of None \<Rightarrow> vp | Some e \<Rightarrow> vp\<lparr>vp_encoder := Some (enc_requestKeyframe e)\<rparr>)"

section \<open>Start, encode, stop\<close>

definition vp_start ::
  "'c av_lib \<Rightarrow> play_answers \<Rightarrow> rat \<Rightarrow> bool \<Rightarrow> 'c pipeline \<Rightarrow> ledger \<Rightarrow> Result \<times> 'c pipeline \<times> ledger" where
  "vp_start lib play now cb vp L =
     (case (vp_capture vp, vp_encoder vp) of
        (Some cam, Some e) \<Rightarrow>
          if vp_encodeThread vp then (ErrorInitFailed, vp, L)
          else (let vp = vp\<lparr>vp_packetCallback := cb\<rparr> in
            case enc_initialize lib (vp_encoderConfig vp) True e L of (encoder_result, e, L) \<Rightarrow>
            let vp = vp\<lparr>vp_encoder := Some e\<rparr> in
            if encoder_result \<noteq> Success then (ErrorInitFailed, vp, L)
            else (let vp = vp\<lparr>vp_startTime := now\<rparr> in
              case cam_start play True cam of (capture_result, cam) \<Rightarrow>
              let vp = vp\<lparr>vp_capture := Some cam\<rparr> in
              if capture_result \<noteq> Success then (capture_result, vp, L)
              else (Success, vp\<lparr>vp_encodeThread := True\<rparr>, L)))
      | _ \<Rightarrow> (ErrorInitFailed, vp, L))"

text \<open>
  Encoding one frame of the queue. A \<open>Frame\<close> without picture data is a null pointer to
  \<open>encodeFrame\<close>, which a running encoder dereferences.
\<close>

definition encode_one :: "'c av_lib \<Rightarrow> Frame \<Rightarrow> 'c pipeline \<Rightarrow> (Packet list \<times> 'c pipeline) run" where
  "encode_one lib f vp =
     (case vp_encoder vp of
        None \<Rightarrow> Inl NullDeref
      | Some e \<Rightarrow>
          (case fr_frame f of
             None \<Rightarrow> if enc_running e then Inl NullDeref else Inr ([], vp)
           | Some avf \<Rightarrow> andThen (encodeFrame lib avf e)
               (\<lambda>(r, ps, avf', e). Inr (deliver ps (vp\<lparr>vp_encoder := Some e\<rparr>)))))"

text \<open>A pass of \<open>encodeLoop\<close> that found a frame: take the oldest and encode it.\<close>

definition encode_next :: "'c av_lib \<Rightarrow> 'c pipeline \<Rightarrow> (Packet list \<times> 'c pipeline) run" where
  "encode_next lib vp =
     (case vp_queue vp of
        [] \<Rightarrow> Inr ([], vp)
      | f # fs \<Rightarrow> encode_one lib f (vp\<lparr>vp_queue := fs\<rparr>))"

fun encode_some :: "'c av_lib \<Rightarrow> nat \<Rightarrow> 'c pipeline \<Rightarrow> (Packet list \<times> 'c pipeline) run" where
  "encode_some lib 0 vp = Inr ([], vp)"
| "encode_some lib (Suc n) vp =
     andThen (encode_next lib vp) (\<lambda>(out, vp).
       andThen (encode_some lib n vp) (\<lambda>(outs, vp). Inr (out @ outs, vp)))"

text \<open>The end of \<open>stop\<close>, once the encode thread has been joined.\<close>

definition vp_finish ::
  "'c av_lib \<Rightarrow> 'c pipeline \<Rightarrow> ledger \<Rightarrow> (Packet list \<times> 'c pipeline \<times> ledger) run" where
  "vp_finish lib vp L =
     (let vp = vp\<lparr>vp_encodeThread := False\<rparr> in
      case vp_encoder vp of
        None \<Rightarrow> Inr ([], vp, L)
      | Some e \<Rightarrow> andThen (enc_stop lib e L)
          (\<lambda>(ps, e, L). case deliver ps (vp\<lparr>vp_encoder := Some e\<rparr>) of (outs, vp) \<Rightarrow> Inr (outs, vp, L)))"

definition stop_capture :: "'c pipeline \<Rightarrow> 'c pipeline" where
  "stop_capture vp =
     (case vp_capture vp of
        Some cam \<Rightarrow> if cam_running cam then vp\<lparr>vp_capture := Some (snd (cam_stop cam))\<rparr> else vp
      | None \<Rightarrow> vp)"

text \<open>
  \<open>stop\<close>, where the encode thread takes \<open>n\<close> more frames between the capture device's stop
  and its own end (how many is up to the scheduler, and whether it ends at all is the subject of
  \<open>Pipeline_Threads\<close>).
\<close>

definition vp_stop ::
  "'c av_lib \<Rightarrow> nat \<Rightarrow> 'c pipeline \<Rightarrow> ledger \<Rightarrow> (Result \<times> Packet list \<times> 'c pipeline \<times> ledger) run" where
  "vp_stop lib n vp L =
     (let vp = stop_capture vp in
      andThen (if vp_encodeThread vp then encode_some lib n vp else Inr ([], vp))
        (\<lambda>(out, vp). andThen (vp_finish lib vp L)
          (\<lambda>(outs, vp, L). Inr (Success, out @ outs, vp, L))))"

text \<open>
  The implicit destructor. Members go in reverse order: the encode thread is joined first and
  the capture device is destroyed last, after queue, mutex and encoder. \<open>late\<close>: the capture
  thread delivers a frame in between.
\<close>

definition vp_destroy :: "'c av_lib \<Rightarrow> bool \<Rightarrow> 'c pipeline \<Rightarrow> ledger \<Rightarrow> ledger run" where
  "vp_destroy lib late vp L =
     andThen (case vp_encoder vp of None \<Rightarrow> Inr L | Some e \<Rightarrow> andThen (enc_destroy lib e L) (\<lambda>(_, _, L). Inr L))
       (\<lambda>L. case vp_capture vp of None \<Rightarrow> Inr L
         | Some cam \<Rightarrow> if late \<and> cam_running cam then Inl UseAfterFree
             else andThen (cam_destroy cam L) (\<lambda>(_, L). Inr L))"

section \<open>Statistics\<close>

text \<open>
  Elapsed time is a \<open>double\<close> in the code and an exact rational here. \<open>bitrate_ * 8\<close> is
  an \<open>int\<close> product, and the final cast is undefined outside the range of \<open>int\<close>.
\<close>

definition fits_i32 :: "int \<Rightarrow> bool" where
  "fits_i32 x \<longleftrightarrow> - (2 ^ 31) \<le> x \<and> x < 2 ^ 31"

definition to_i32 :: "int \<Rightarrow> i32 run" where
  "to_i32 x = (if fits_i32 x then Inr (word_of_int x) else Inl SignedOverflow)"

definition trunc :: "rat \<Rightarrow> int" where
  "trunc x = (if 0 \<le> x then \<lfloor>x\<rfloor> else - \<lfloor>- x\<rfloor>)"

definition getBitrate :: "rat \<Rightarrow> 'c pipeline \<Rightarrow> i32 run" where
  "getBitrate now vp =
     (if \<not> vp_encodeThread vp then Inr 0
      else (let elapsed = now - vp_startTime vp in
        if 0 < elapsed
        then andThen (to_i32 (sint (vp_bitrate vp) * 8))
          (\<lambda>bits. to_i32 (trunc (of_int (sint bits) / elapsed)))
        else Inr 0))"

definition getFPS :: "rat \<Rightarrow> 'c pipeline \<Rightarrow> rat" where
  "getFPS now vp =
     (if vp_frameCount vp = 0 then 0
      else (let elapsed = now - vp_startTime vp in
        if 0 < elapsed then of_int (sint (vp_frameCount vp)) / elapsed else 0))"

section \<open>The frame queue\<close>

text \<open>
  The contract of a bounded queue that drops its oldest element when full, and what it means
  for a run of arrivals: the newest ones are there, in order, and the counter has the rest.
\<close>

locale drop_oldest =
  fixes push :: "'f \<Rightarrow> 's \<Rightarrow> 's"
    and items :: "'s \<Rightarrow> 'f list"
    and dropped :: "'s \<Rightarrow> i32"
    and cap :: nat
  assumes cap_pos: "0 < cap"
    and push_room: "length (items s) < cap \<Longrightarrow> items (push f s) = items s @ [f] \<and> dropped (push f s) = dropped s"
    and push_full: "cap \<le> length (items s) \<Longrightarrow>
      items (push f s) = tl (items s) @ [f] \<and> dropped (push f s) = dropped s + 1"
begin

lemma one_room: "Suc 0 - cap = 0"
  using cap_pos by simp

lemma push_bounded: "length (items s) \<le> cap \<Longrightarrow> length (items (push f s)) \<le> cap"
  using push_room [of s f] push_full [of s f] cap_pos by (cases "length (items s) < cap") auto

lemma push_newest:
  assumes "length (items s) \<le> cap"
  shows "items (push f s) = drop (Suc (length (items s)) - cap) (items s @ [f])
    \<and> dropped (push f s) = dropped s + of_nat (Suc (length (items s)) - cap)"
proof (cases "length (items s) < cap")
  case True
  then show ?thesis using push_room [of s f] by simp
next
  case False
  with assms have "length (items s) = cap" by simp
  moreover from this cap_pos have "items s \<noteq> []" by auto
  ultimately show ?thesis using push_full [of s f] one_room by (auto simp: drop_Suc)
qed

lemma pushes_newest:
  assumes "length (items s) \<le> cap"
  shows "items (fold push fs s) = drop (length (items s @ fs) - cap) (items s @ fs)
    \<and> dropped (fold push fs s) = dropped s + of_nat (length (items s @ fs) - cap)
    \<and> length (items (fold push fs s)) \<le> cap"
  using assms
proof (induction fs arbitrary: s)
  case (Cons f fs)
  let ?n = "Suc (length (items s)) - cap"
  have b: "length (items (push f s)) \<le> cap" using Cons.prems by (rule push_bounded)
  have i: "items (push f s) = drop ?n (items s @ [f])"
    and d: "dropped (push f s) = dropped s + of_nat ?n" using push_newest [OF Cons.prems] by auto
  define al where "al = items s @ f # fs"
  have al: "items (push f s) @ fs = drop ?n al"
    using i Cons.prems by (simp add: drop_append one_room al_def)
  have "length (drop ?n al) - cap + ?n = length al - cap" by (simp add: al_def)
  moreover from this have "of_nat (length al - cap) = (of_nat ?n + of_nat (length (drop ?n al) - cap) :: i32)"
    by (metis add.commute of_nat_add)
  ultimately show ?case
    using Cons.IH [OF b] unfolding al d al_def [symmetric] by (simp add: add.assoc drop_drop)
qed simp

end

interpretation frame_queue: drop_oldest enqueue_frame vp_queue vp_framesDropped QUEUE_CAPACITY
  by unfold_locales (simp_all add: QUEUE_CAPACITY_def enqueue_frame_def)

section \<open>What a pipeline owns\<close>

definition cam_handles :: "camera \<Rightarrow> handle list" where
  "cam_handles cam = opt_list (cam_appsink cam) @ opt_list (cam_pipeline cam)"

definition vp_cam_handles :: "'c pipeline \<Rightarrow> handle list" where
  "vp_cam_handles vp = (case vp_capture vp of None \<Rightarrow> [] | Some cam \<Rightarrow> cam_handles cam)"

definition vp_enc_handles :: "'c pipeline \<Rightarrow> handle list" where
  "vp_enc_handles vp = (case vp_encoder vp of None \<Rightarrow> [] | Some e \<Rightarrow> opt_list (enc_owned e))"

definition vp_owns :: "ledger \<Rightarrow> 'c pipeline \<Rightarrow> ledger \<Rightarrow> bool" where
  "vp_owns L vp L' \<longleftrightarrow> grows L (vp_cam_handles vp @ vp_enc_handles vp) L'
     \<and> (\<forall>e. vp_encoder vp = Some e \<longrightarrow> enc_inv e)"

lemmas vp_handles_defs = vp_cam_handles_def vp_enc_handles_def

lemma cam_initialize_grows:
  assumes "\<And>c. usable (gst c) \<Longrightarrow> gp_sink (gst c)" "wf_ledger L"
  shows "\<exists>r cam L'. cam_initialize gst pw cfg new_camera L = Inr (r, cam, L')
    \<and> grows L (cam_handles cam) L' \<and> (r = Success \<longleftrightarrow> cam_pipeline cam \<noteq> None)"
proof -
  obtain r L' where t: "try_candidates gst (candidates (apply_defaults cfg) pw) (after_lookup pw L) = Inr (r, L')"
    and k: "case r of None \<Rightarrow> wf_ledger L' \<and> set (live L') = set (live L)
        | Some (p, s) \<Rightarrow> wf_ledger L' \<and> set (live L') = set (live L) \<union> {p, s}
            \<and> p \<notin> set (live L) \<and> s \<notin> set (live L) \<and> p \<noteq> s"
    using try_candidates_first_usable [of gst "after_lookup pw L" "candidates (apply_defaults cfg) pw",
        OF assms(1) wf_after_lookup [OF assms(2)]] unfolding live_after_lookup by blast
  show ?thesis
  proof (cases r)
    case None
    with t k show ?thesis
      by (simp add: cam_initialize_def buildPipeline_eq cam_handles_def new_camera_def grows_def)
  next
    case (Some ps)
    with t k show ?thesis
      by (cases ps) (auto simp: cam_initialize_def buildPipeline_eq cam_handles_def grows_def)
  qed
qed

lemma cam_stop_handles: "cam_handles (snd (cam_stop cam)) = cam_handles cam"
  by (simp add: cam_stop_def cam_handles_def Let_def)

lemma cam_start_handles: "cam_handles (snd (cam_start a cb cam)) = cam_handles cam"
  by (simp add: cam_start_def cam_handles_def Let_def)

lemma cam_destroy_releases:
  assumes "grows L (xs @ cam_handles cam) L1"
  shows "\<exists>cam' L2. cam_destroy cam L1 = Inr (cam', L2) \<and> grows L xs L2"
proof -
  obtain L2 where r: "release_all (cam_handles cam) L1 = Inr L2" and g: "grows L xs L2"
    using grows_release [of L xs "cam_handles cam" "[]" L1] assms by auto
  let ?c = "snd (cam_stop cam)"
  obtain L3 where 3: "release_opt (cam_appsink ?c) L1 = Inr L3"
      "release_all (opt_list (cam_pipeline ?c)) L3 = Inr L2"
    using r [folded cam_stop_handles [of cam]]
    by (auto simp: cam_handles_def release_all_append release_opt_all)
  then have "(case cam_pipeline ?c of None \<Rightarrow> Inr L3 | Some p \<Rightarrow> andThen (use_handle p L3) (release p)) = Inr L2"
    by (cases "cam_pipeline ?c") (auto simp: release_all_single release_def split: if_splits)
  then have "\<exists>cam'. cam_destroy cam L1 = Inr (cam', L2)"
    using 3(1) by (simp add: cam_destroy_def Let_def)
  with g show ?thesis by blast
qed

lemma enc_initialize_fresh:
  assumes "enc_initialize lib cfg cb e L = (r, e1, L1)" "wf_ledger L" "enc_ctx e = None" "\<not> enc_running e"
  shows "enc_inv e1 \<and> grows L (opt_list (enc_owned e1)) L1"
proof -
  have "enc_inv e1 \<and> wf_ledger L1 \<and> set (live L1) = set (live L) \<union> set_option (enc_owned e1)
    \<and> set (live L) \<inter> set_option (enc_owned e1) = {}"
  proof (cases "(enc_kind e = SoftwareEncoder \<and> lib_has_encoder lib ''libx264'')
      \<or> (enc_kind e = NVENCEncoder \<and> lib_has_encoder lib ''h264_nvenc'')")
    case True
    with assms show ?thesis
      by (auto simp: enc_initialize_def sw_initialize_def nvenc_initialize_def base_initialize_def
          dest!: open_context_owned)
  next
    case False
    with assms show ?thesis
      by (cases "enc_kind e") (auto simp: enc_initialize_def sw_initialize_def nvenc_initialize_def
          base_initialize_def enc_inv_def enc_owned_def)
  qed
  then show ?thesis by (auto simp: grows_def)
qed

lemma deliver_keeps:
  "deliver ps vp = (out, vp') \<Longrightarrow>
   vp_encoder vp' = vp_encoder vp \<and> vp_capture vp' = vp_capture vp \<and> vp_queue vp' = vp_queue vp
   \<and> vp_encodeThread vp' = vp_encodeThread vp \<and> vp_packetCallback vp' = vp_packetCallback vp
   \<and> vp_framesDropped vp' = vp_framesDropped vp \<and> vp_frameCount vp' = vp_frameCount vp
   \<and> out = (if vp_packetCallback vp then ps else [])"
proof (induction ps arbitrary: vp out vp')
  case (Cons p ps)
  obtain o1 vp1 where 1: "packet_callback p vp = (o1, vp1)" by fastforce
  obtain o2 vp2 where 2: "deliver ps vp1 = (o2, vp2)" by fastforce
  from 1 have "vp_encoder vp1 = vp_encoder vp" "vp_capture vp1 = vp_capture vp"
    "vp_queue vp1 = vp_queue vp" "vp_encodeThread vp1 = vp_encodeThread vp"
    "vp_packetCallback vp1 = vp_packetCallback vp" "vp_framesDropped vp1 = vp_framesDropped vp"
    "vp_frameCount vp1 = vp_frameCount vp" "o1 = (if vp_packetCallback vp then [p] else [])"
    by (auto simp: packet_callback_def Let_def)
  with 1 2 Cons.IH [OF 2] Cons.prems show ?case by (cases "vp_packetCallback vp") simp_all
qed simp

lemma deliver_capture: "vp_capture (snd (deliver ps vp)) = vp_capture vp"
  using deliver_keeps [of ps vp "fst (deliver ps vp)" "snd (deliver ps vp)"] by simp

lemma encode_one_keeps:
  assumes "encode_one lib f vp = Inr (out, vp')"
  shows "vp_queue vp' = vp_queue vp \<and> vp_framesDropped vp' = vp_framesDropped vp
    \<and> vp_frameCount vp' = vp_frameCount vp \<and> vp_capture vp' = vp_capture vp"
  using assms by (auto simp: encode_one_def split: option.splits if_splits dest!: deliver_keeps)

lemma vp_finish_keeps:
  assumes "vp_finish lib vp L = Inr (out, vp', L')"
  shows "vp_queue vp' = vp_queue vp \<and> vp_framesDropped vp' = vp_framesDropped vp
    \<and> vp_frameCount vp' = vp_frameCount vp \<and> vp_capture vp' = vp_capture vp \<and> \<not> vp_encodeThread vp'"
proof (cases "vp_encoder vp")
  case None
  with assms show ?thesis by (auto simp: vp_finish_def)
next
  case (Some e)
  with assms obtain ps e' where d: "(out, vp') = deliver ps (vp\<lparr>vp_encodeThread := False, vp_encoder := Some e'\<rparr>)"
    by (auto simp: vp_finish_def case_prod_beta Let_def)
  from deliver_keeps [OF d [symmetric]] show ?thesis by simp
qed

lemma vp_owns_cong:
  "vp_owns L vp L' \<Longrightarrow> vp_encoder vp' = vp_encoder vp \<Longrightarrow> vp_capture vp' = vp_capture vp \<Longrightarrow> vp_owns L vp' L'"
  by (simp add: vp_owns_def vp_handles_defs)

section \<open>A session of the pipeline\<close>

datatype vp_event = Captured Frame | EncodeNext | KeyframeRequest

fun vp_step :: "'c av_lib \<Rightarrow> vp_event \<Rightarrow> 'c pipeline \<Rightarrow> (Packet list \<times> 'c pipeline) run" where
  "vp_step lib (Captured f) vp = Inr ([], snd (frame_callback f vp))"
| "vp_step lib EncodeNext vp = encode_next lib vp"
| "vp_step lib KeyframeRequest vp = Inr ([], vp_requestKeyframe vp)"

fun vp_run :: "'c av_lib \<Rightarrow> vp_event list \<Rightarrow> 'c pipeline \<Rightarrow> (Packet list \<times> 'c pipeline) run" where
  "vp_run lib [] vp = Inr ([], vp)"
| "vp_run lib (x # xs) vp =
     andThen (vp_step lib x vp) (\<lambda>(out, vp).
       andThen (vp_run lib xs vp) (\<lambda>(outs, vp). Inr (out @ outs, vp)))"

text \<open>Queued frames carry a picture, as the capture loop makes them.\<close>

definition queue_ok :: "'c pipeline \<Rightarrow> bool" where
  "queue_ok vp \<longleftrightarrow> (\<forall>f \<in> set (vp_queue vp). fr_frame f \<noteq> None)"

fun event_ok :: "vp_event \<Rightarrow> bool" where
  "event_ok (Captured f) \<longleftrightarrow> fr_frame f \<noteq> None"
| "event_ok _ \<longleftrightarrow> True"

lemma enqueue_frame_keeps:
  "vp_encoder (enqueue_frame f vp) = vp_encoder vp" "vp_capture (enqueue_frame f vp) = vp_capture vp"
  "vp_encodeThread (enqueue_frame f vp) = vp_encodeThread vp"
  "set (vp_queue (enqueue_frame f vp)) \<subseteq> insert f (set (vp_queue vp))"
  by (cases "vp_queue vp"; auto simp: enqueue_frame_def Let_def)+

lemma encode_one_returns:
  assumes "vp_owns L vp L'" "codec_drains lib" "allocs_succeed lib" "vp_encoder vp \<noteq> None" "fr_frame f \<noteq> None"
  shows "\<exists>out vp'. encode_one lib f vp = Inr (out, vp') \<and> vp_owns L vp' L' \<and> vp_encoder vp' \<noteq> None
    \<and> vp_queue vp' = vp_queue vp \<and> vp_encodeThread vp' = vp_encodeThread vp \<and> vp_capture vp' = vp_capture vp
    \<and> vp_framesDropped vp' = vp_framesDropped vp \<and> vp_frameCount vp' = vp_frameCount vp"
proof -
  obtain e avf where e: "vp_encoder vp = Some e" and f: "fr_frame f = Some avf" using assms(4,5) by auto
  have inv: "enc_inv e" using assms(1) e by (simp add: vp_owns_def)
  obtain r ps avf' e' where enc: "encodeFrame lib avf e = Inr (r, ps, avf', e')"
    using inv assms(2,3) by (rule encodeFrame_total)
  obtain out vp' where d: "deliver ps (vp\<lparr>vp_encoder := Some e'\<rparr>) = (out, vp')" by fastforce
  have "vp_owns L (vp\<lparr>vp_encoder := Some e'\<rparr>) L'"
    using assms(1) e encoder.enc_inv [OF inv enc] encodeFrame_owned [OF enc]
    by (simp add: vp_owns_def vp_handles_defs)
  then have "vp_owns L vp' L'" using deliver_keeps [OF d] by (auto elim: vp_owns_cong)
  with e f enc d deliver_keeps [OF d] show ?thesis by (simp add: encode_one_def)
qed

lemma encode_next_returns:
  assumes "vp_owns L vp L'" "codec_drains lib" "allocs_succeed lib" "vp_encoder vp \<noteq> None" "queue_ok vp"
  shows "\<exists>out vp'. encode_next lib vp = Inr (out, vp') \<and> vp_owns L vp' L' \<and> vp_encoder vp' \<noteq> None
    \<and> queue_ok vp' \<and> vp_capture vp' = vp_capture vp"
proof (cases "vp_queue vp")
  case Nil
  with assms show ?thesis by (simp add: encode_next_def)
next
  case (Cons f fs)
  have "vp_owns L (vp\<lparr>vp_queue := fs\<rparr>) L'" using assms(1) by (rule vp_owns_cong) simp_all
  with encode_one_returns [of L "vp\<lparr>vp_queue := fs\<rparr>" L' lib f] assms Cons show ?thesis
    by (auto simp: encode_next_def queue_ok_def)
qed

lemma vp_step_returns:
  assumes "vp_owns L vp L'" "codec_drains lib" "allocs_succeed lib" "vp_encoder vp \<noteq> None" "queue_ok vp"
    and "event_ok x"
  shows "\<exists>out vp'. vp_step lib x vp = Inr (out, vp') \<and> vp_owns L vp' L' \<and> vp_encoder vp' \<noteq> None
    \<and> queue_ok vp'"
proof (cases x)
  case (Captured f)
  let ?vp = "snd (frame_callback f vp)"
  have "vp_encoder ?vp = vp_encoder vp" "vp_capture ?vp = vp_capture vp"
    "set (vp_queue ?vp) \<subseteq> insert f (set (vp_queue vp))"
    using enqueue_frame_keeps [of f vp] by (simp_all add: frame_callback_def Let_def)
  moreover from this(1,2) have "vp_owns L ?vp L'" using vp_owns_cong [OF assms(1)] by simp
  moreover have "queue_ok ?vp" using calculation(3) assms(5,6) Captured by (auto simp: queue_ok_def)
  ultimately show ?thesis using Captured assms(4) by simp
next
  case EncodeNext
  with encode_next_returns [OF assms(1-5)] show ?thesis by auto
next
  case KeyframeRequest
  obtain e where e: "vp_encoder vp = Some e" using assms(4) by auto
  have "enc_inv (enc_requestKeyframe e)" "enc_owned (enc_requestKeyframe e) = enc_owned e"
    using assms(1) e by (auto simp: vp_owns_def enc_requestKeyframe_def enc_inv_def enc_owned_def
        split: encoder_kind.splits)
  then show ?thesis using KeyframeRequest e assms(1,5)
    by (simp add: vp_requestKeyframe_def vp_owns_def vp_handles_defs queue_ok_def)
qed

lemma vp_run_returns:
  assumes "vp_owns L vp L'" "codec_drains lib" "allocs_succeed lib" "vp_encoder vp \<noteq> None" "queue_ok vp"
    and "\<forall>x \<in> set xs. event_ok x"
  shows "\<exists>out vp'. vp_run lib xs vp = Inr (out, vp') \<and> vp_owns L vp' L' \<and> vp_encoder vp' \<noteq> None
    \<and> queue_ok vp'"
  using assms(1,4,5,6)
proof (induction xs arbitrary: vp)
  case (Cons x xs)
  then obtain o1 vp1 where "vp_step lib x vp = Inr (o1, vp1)" "vp_owns L vp1 L'"
    "vp_encoder vp1 \<noteq> None" "queue_ok vp1"
    using vp_step_returns [OF Cons.prems(1) assms(2,3) Cons.prems(2,3)] by (meson list.set_intros(1))
  with Cons.IH [of vp1] Cons.prems(4) show ?case by fastforce
qed simp

lemma encode_some_returns:
  assumes "vp_owns L vp L'" "codec_drains lib" "allocs_succeed lib" "vp_encoder vp \<noteq> None" "queue_ok vp"
  shows "\<exists>out vp'. encode_some lib n vp = Inr (out, vp') \<and> vp_owns L vp' L' \<and> vp_encoder vp' \<noteq> None
    \<and> queue_ok vp' \<and> vp_capture vp' = vp_capture vp"
  using assms(1,4,5)
proof (induction n arbitrary: vp)
  case (Suc n)
  then obtain o1 vp1 where "encode_next lib vp = Inr (o1, vp1)" "vp_owns L vp1 L'"
    "vp_encoder vp1 \<noteq> None" "queue_ok vp1" "vp_capture vp1 = vp_capture vp"
    using encode_next_returns [OF Suc.prems(1) assms(2,3) Suc.prems(2,3)] by blast
  with Suc.IH [of vp1] show ?case by fastforce
qed simp

lemma vp_start_owns:
  assumes "vp_start lib play now cb vp L1 = (r, vp', L2)" "vp_owns L vp L1"
    and "vp_encoder vp = Some e" "enc_ctx e = None" "\<not> enc_running e"
  shows "vp_owns L vp' L2 \<and> vp_encoder vp' \<noteq> None \<and> vp_queue vp' = vp_queue vp"
proof (cases "vp_capture vp = None \<or> vp_encodeThread vp")
  case True
  with assms show ?thesis by (auto simp: vp_start_def split: option.splits)
next
  case False
  then obtain cam where cam: "vp_capture vp = Some cam" "\<not> vp_encodeThread vp" by auto
  obtain er e1 L3 where i: "enc_initialize lib (vp_encoderConfig vp) True e L1 = (er, e1, L3)"
    by (metis prod_cases3)
  obtain cr cam1 where c: "cam_start play True cam = (cr, cam1)" by fastforce
  have h: "cam_handles cam1 = cam_handles cam" using cam_start_handles [of play True cam] c by simp
  have "wf_ledger L1" using assms(2) by (simp add: vp_owns_def grows_def)
  from enc_initialize_fresh [OF i this assms(4,5)]
  have e1: "enc_inv e1" "grows L1 (opt_list (enc_owned e1)) L3" by auto
  have "vp_enc_handles vp = []" using assms(3,4) by (simp add: vp_handles_defs enc_owned_def)
  then have "grows L (opt_list (enc_owned e1) @ cam_handles cam) L3"
    using grows_trans [OF _ e1(2)] assms(2) cam by (fastforce simp: vp_owns_def vp_cam_handles_def)
  then have g: "grows L (cam_handles cam @ opt_list (enc_owned e1)) L3"
    by (auto simp: grows_def)
  have "L2 = L3" "vp_encoder vp' = Some e1" "vp_queue vp' = vp_queue vp"
    "vp_capture vp' = Some cam \<or> vp_capture vp' = Some cam1"
    using assms(1,3) cam i c by (auto simp: vp_start_def Let_def split: if_splits)
  with g h e1(1) show ?thesis by (auto simp: vp_owns_def vp_handles_defs)
qed

lemma vp_finish_owns:
  assumes "vp_owns L vp L1" "codec_drains lib" "allocs_succeed lib" "vp_encoder vp \<noteq> None"
  shows "\<exists>out vp' L2. vp_finish lib vp L1 = Inr (out, vp', L2) \<and> vp_owns L vp' L2
    \<and> \<not> vp_encodeThread vp' \<and> vp_capture vp' = vp_capture vp \<and> vp_queue vp' = vp_queue vp
    \<and> vp_framesDropped vp' = vp_framesDropped vp \<and> vp_frameCount vp' = vp_frameCount vp
    \<and> (\<exists>e. vp_encoder vp' = Some e \<and> enc_ctx e = None \<and> \<not> enc_running e)"
proof -
  obtain e where e: "vp_encoder vp = Some e" using assms(4) by auto
  have inv: "enc_inv e" and g: "grows L (vp_cam_handles vp @ opt_list (enc_owned e)) L1"
    using assms(1) e by (simp_all add: vp_owns_def vp_enc_handles_def)
  then have "wf_ledger L1" "set_option (enc_owned e) \<subseteq> set (live L1)" by (auto simp: grows_def)
  from enc_stop_owned [OF assms(2,3) this] obtain ps e' L2 where
    st: "enc_stop lib e L1 = Inr (ps, e', L2)" "wf_ledger L2"
      "set (live L2) = set (live L1) - set_option (enc_owned e)" "enc_ctx e' = None" by blast
  have e': "\<not> enc_running e'" "enc_inv e'" using enc_stop_stopped [OF inv st(1)] by auto
  obtain outs vp2 where d: "deliver ps (vp\<lparr>vp_encodeThread := False, vp_encoder := Some e'\<rparr>) = (outs, vp2)"
    by fastforce
  have "grows L (vp_cam_handles vp) L2" using grows_shrink [OF g st(2)] st(3) by simp
  then have "vp_owns L vp2 L2"
    using deliver_keeps [OF d] e' st(4) by (simp add: vp_owns_def vp_handles_defs enc_owned_def)
  moreover have "vp_finish lib vp L1 = Inr (outs, vp2, L2)"
    using e st(1) d by (simp add: vp_finish_def)
  ultimately show ?thesis using deliver_keeps [OF d] e' st(4) by simp
qed

lemma stop_capture_keeps [keeps]:
  "vp_encoder (stop_capture vp) = vp_encoder vp" "vp_queue (stop_capture vp) = vp_queue vp"
  "vp_framesDropped (stop_capture vp) = vp_framesDropped vp"
  "vp_frameCount (stop_capture vp) = vp_frameCount vp"
  "vp_cam_handles (stop_capture vp) = vp_cam_handles vp"
  "vp_capture (stop_capture vp) = Some cam \<Longrightarrow> \<not> cam_running cam"
  by (auto simp: stop_capture_def vp_cam_handles_def cam_handles_def cam_stop_def Let_def split: option.splits if_splits)

lemma stop_capture_owns: "vp_owns L vp L1 \<Longrightarrow> vp_owns L (stop_capture vp) L1"
  by (simp add: vp_owns_def vp_enc_handles_def keeps)

lemma vp_stop_owns:
  assumes "vp_owns L vp L1" "codec_drains lib" "allocs_succeed lib" "vp_encoder vp \<noteq> None" "queue_ok vp"
  shows "\<exists>out vp' L2. vp_stop lib n vp L1 = Inr (Success, out, vp', L2) \<and> vp_owns L vp' L2
    \<and> \<not> vp_encodeThread vp' \<and> (\<forall>cam. vp_capture vp' = Some cam \<longrightarrow> \<not> cam_running cam)
    \<and> (\<exists>e. vp_encoder vp' = Some e \<and> enc_ctx e = None \<and> \<not> enc_running e) \<and> queue_ok vp'"
proof -
  let ?vp = "stop_capture vp"
  have 0: "vp_owns L ?vp L1" "vp_encoder ?vp \<noteq> None" "queue_ok ?vp"
    using stop_capture_owns [OF assms(1)] assms(4,5) by (simp_all add: stop_capture_keeps queue_ok_def)
  obtain out vp1 where 1: "(if vp_encodeThread ?vp then encode_some lib n ?vp else Inr ([], ?vp)) = Inr (out, vp1)"
    and o1: "vp_owns L vp1 L1" "vp_encoder vp1 \<noteq> None" "queue_ok vp1" "vp_capture vp1 = vp_capture ?vp"
    using encode_some_returns [OF 0(1) assms(2,3) 0(2,3), of n] 0 by (cases "vp_encodeThread ?vp") auto
  obtain outs vp2 L2 where f: "vp_finish lib vp1 L1 = Inr (outs, vp2, L2)" "vp_owns L vp2 L2"
    "\<not> vp_encodeThread vp2" "vp_capture vp2 = vp_capture vp1" "vp_queue vp2 = vp_queue vp1"
    "\<exists>e. vp_encoder vp2 = Some e \<and> enc_ctx e = None \<and> \<not> enc_running e"
    using vp_finish_owns [OF o1(1) assms(2,3) o1(2)] by blast
  have "vp_stop lib n vp L1 = Inr (Success, out @ outs, vp2, L2)"
    using 1 f(1) by (simp add: vp_stop_def)
  with f o1 stop_capture_keeps(6) [of vp] show ?thesis by (simp add: queue_ok_def)
qed

lemma vp_destroy_owns:
  assumes "vp_owns L vp L1" "codec_drains lib" "allocs_succeed lib"
    and "late \<longrightarrow> (\<forall>cam. vp_capture vp = Some cam \<longrightarrow> \<not> cam_running cam)"
  shows "\<exists>L2. vp_destroy lib late vp L1 = Inr L2 \<and> set (live L2) = set (live L)"
proof -
  obtain L2 where 2: "(case vp_encoder vp of None \<Rightarrow> Inr L1
      | Some e \<Rightarrow> andThen (enc_destroy lib e L1) (\<lambda>(_, _, L). Inr L)) = Inr L2"
    and g: "grows L (vp_cam_handles vp) L2"
  proof (cases "vp_encoder vp")
    case None
    with assms(1) that show thesis by (simp add: vp_owns_def vp_handles_defs)
  next
    case (Some e)
    have g: "grows L (vp_cam_handles vp @ opt_list (enc_owned e)) L1"
      using assms(1) Some by (simp add: vp_owns_def vp_enc_handles_def)
    then have "wf_ledger L1" "set_option (enc_owned e) \<subseteq> set (live L1)" by (auto simp: grows_def)
    from enc_destroy_owned [OF assms(2,3) this] obtain ps e' L2 where
      d: "enc_destroy lib e L1 = Inr (ps, e', L2)" "wf_ledger L2"
        "set (live L2) = set (live L1) - set_option (enc_owned e)" by blast
    with grows_shrink [OF g d(2)] that [of L2] Some show thesis by simp
  qed
  show ?thesis
  proof (cases "vp_capture vp")
    case None
    with 2 g show ?thesis by (simp add: vp_destroy_def vp_cam_handles_def grows_def)
  next
    case (Some cam)
    with g cam_destroy_releases [of L "[]" cam L2] obtain cam' L3 where
      "cam_destroy cam L2 = Inr (cam', L3)" "grows L [] L3" by (auto simp: vp_cam_handles_def)
    with 2 Some assms(4) show ?thesis by (auto simp: vp_destroy_def grows_def)
  qed
qed

section \<open>Properties of the pipeline\<close>


text \<open>C16: the queue between capture and encoding holds the newest three frames: after any run of
  captured frames it contains exactly the last three of what was queued and captured, in order,
  the drop counter has grown by all others and the frame counter by all frames, modulo \<open>2^32\<close>.\<close>

theorem queue_keeps_newest:
  assumes "length (vp_queue vp) \<le> 3"
  shows "vp_queue (fold (\<lambda>f vp. snd (frame_callback f vp)) fs vp)
      = drop (length (vp_queue vp @ fs) - 3) (vp_queue vp @ fs)
    \<and> vp_framesDropped (fold (\<lambda>f vp. snd (frame_callback f vp)) fs vp)
      = vp_framesDropped vp + of_nat (length (vp_queue vp @ fs) - 3)
    \<and> vp_frameCount (fold (\<lambda>f vp. snd (frame_callback f vp)) fs vp) = vp_frameCount vp + of_nat (length fs)"
proof -
  let ?cb = "\<lambda>f vp. snd (frame_callback f vp)"
  have *: "vp_queue (fold ?cb fs vp) = vp_queue (fold enqueue_frame fs vp')
      \<and> vp_framesDropped (fold ?cb fs vp) = vp_framesDropped (fold enqueue_frame fs vp')"
    if "vp_queue vp' = vp_queue vp" "vp_framesDropped vp' = vp_framesDropped vp" for vp'
    using that
  proof (induction fs arbitrary: vp vp')
    case (Cons f fs)
    then show ?case
      by (simp, intro Cons.IH) (simp_all add: frame_callback_def enqueue_frame_def Let_def)
  qed simp
  have "vp_frameCount (fold ?cb fs vp) = vp_frameCount vp + of_nat (length fs)"
    by (induction fs arbitrary: vp) (simp_all add: frame_callback_def enqueue_frame_def Let_def)
  then show ?thesis
    using frame_queue.pushes_newest [of vp fs] assms * [of vp] by (simp add: QUEUE_CAPACITY_def)
qed

lemma sint_i32: "fits_i32 x \<Longrightarrow> sint (word_of_int x :: i32) = x"
  by (simp add: int_word_sint fits_i32_def)

lemma floor_div_bounds:
  fixes b :: int and t :: rat
  assumes "0 \<le> b" "1 \<le> t"
  shows "0 \<le> of_int b / t \<and> 0 \<le> \<lfloor>of_int b / t\<rfloor> \<and> \<lfloor>of_int b / t\<rfloor> \<le> b"
proof -
  have 0: "0 \<le> of_int b / t" using assms by simp
  have "of_int b * 1 \<le> of_int b * t" using assms by (intro mult_left_mono) auto
  then have "of_int b / t \<le> of_int b" using assms by (simp add: divide_le_eq)
  then have "\<lfloor>of_int b / t\<rfloor> \<le> \<lfloor>of_int b :: rat\<rfloor>" by (rule floor_mono)
  with 0 show ?thesis by simp
qed


lemma enc_initialize_again:
  assumes "enc_initialize lib cfg cb e L = (Success, e1, L1)"
  obtains h h2 e2 L2 where "acquire L = (h, L1)" "enc_owned e1 = Some h" "acquire L1 = (h2, L2)"
    and "enc_initialize lib cfg cb e1 L1 = (Success, e2, L2)" "enc_owned e2 = Some h2" "enc_inv e2"
proof -
  obtain h2 L2 where a: "acquire L1 = (h2, L2)" by fastforce
  obtain h L' where a0: "acquire L = (h, L')" by fastforce
  have "L' = L1 \<and> enc_owned e1 = Some h \<and>
    (\<exists>e2. enc_initialize lib cfg cb e1 L1 = (Success, e2, L2) \<and> enc_owned e2 = Some h2 \<and> enc_inv e2)"
    using assms a a0
    by (cases "enc_kind e") (auto simp: enc_initialize_def sw_initialize_def nvenc_initialize_def
        base_initialize_def open_context_def enc_owned_def enc_inv_def split: if_splits option.splits)
  with a a0 that show thesis by blast
qed

text \<open>a start that fails at the camera leaks an encoder context on the next attempt: the encoder is
  left initialised, the next \<open>start\<close> initialises it again, and the first context survives even
  the pipeline's stop and destruction.\<close>

theorem failed_start_then_retry_leaks:
  assumes own: "vp_owns L0 vp L" and q: "queue_ok vp"
    and e: "vp_encoder vp = Some e" "enc_ctx e = None" "\<not> enc_running e"
    and lib: "codec_drains lib" "allocs_succeed lib"
    and 1: "vp_start lib play now cb vp L = (ErrorCaptureFailed, vp1, L1)"
    and 2: "vp_start lib play' now' cb' vp1 L1 = (r, vp2, L2)"
  shows "\<exists>h out vp3 L3 L4. h \<notin> set (live L0) \<and> vp_stop lib n vp2 L2 = Inr (Success, out, vp3, L3)
    \<and> vp_destroy lib late vp3 L3 = Inr L4 \<and> set (live L4) = insert h (set (live L0))"
proof -
  obtain cam where cam: "vp_capture vp = Some cam" "\<not> vp_encodeThread vp"
    using 1 e(1) by (auto simp: vp_start_def split: option.splits if_splits)
  obtain er e1 La where i: "enc_initialize lib (vp_encoderConfig vp) True e L = (er, e1, La)"
    by (metis prod_cases3)
  obtain cr cam1 where c: "cam_start play True cam = (cr, cam1)" by fastforce
  have er: "er = Success" "La = L1" "vp_encoder vp1 = Some e1" "vp_capture vp1 = Some cam1"
    "vp_queue vp1 = vp_queue vp" "vp_encoderConfig vp1 = vp_encoderConfig vp" "\<not> vp_encodeThread vp1"
    using 1 e(1) cam i c by (auto simp: vp_start_def Let_def split: if_splits)
  from i er(1,2) obtain h h2 e2 Lb where a: "acquire L = (h, L1)" "acquire L1 = (h2, Lb)"
    and i2: "enc_initialize lib (vp_encoderConfig vp) True e1 L1 = (Success, e2, Lb)"
    and e2: "enc_owned e2 = Some h2" "enc_inv e2" by (metis enc_initialize_again)
  obtain cr2 cam2 where c2: "cam_start play' True cam1 = (cr2, cam2)" by fastforce
  have vp2: "L2 = Lb" "vp_encoder vp2 = Some e2" "vp_queue vp2 = vp_queue vp" "vp_capture vp2 = Some cam2"
    using 2 er i2 c2 by (auto simp: vp_start_def Let_def split: if_splits)
  have h: "cam_handles cam2 = cam_handles cam"
    using cam_start_handles [of play True cam] cam_start_handles [of play' True cam1] c c2 by simp
  have "grows L0 (cam_handles cam) L"
    using own cam e by (simp add: vp_owns_def vp_handles_defs enc_owned_def)
  from grows_acquire [OF grows_acquire [OF this a(1)] a(2)] have g: "grows L0 (h2 # h # cam_handles cam) Lb" .
  define L0' where "L0' = L0\<lparr>live := h # live L0\<rparr>"
  have "vp_owns L0' vp2 L2"
    using g vp2 e2 h by (auto simp: vp_owns_def vp_handles_defs grows_def L0'_def)
  moreover have "queue_ok vp2" using q vp2 by (simp add: queue_ok_def)
  ultimately obtain out vp3 L3 where s: "vp_stop lib n vp2 L2 = Inr (Success, out, vp3, L3)"
    and o3: "vp_owns L0' vp3 L3" "\<forall>cam. vp_capture vp3 = Some cam \<longrightarrow> \<not> cam_running cam"
    using vp_stop_owns [OF _ lib, of L0' vp2 L2] vp2(2) by blast
  obtain L4 where "vp_destroy lib late vp3 L3 = Inr L4" "set (live L4) = set (live L0')"
    using vp_destroy_owns [OF o3(1) lib, of late] o3(2) by blast
  moreover have "h \<notin> set (live L0)" using g by (auto simp: grows_def)
  ultimately show ?thesis using s by (auto simp: L0'_def)
qed

lemma encode_some_capture:
  "encode_some lib n vp = Inr (out, vp') \<Longrightarrow> vp_capture vp' = vp_capture vp"
proof (induction n arbitrary: vp out)
  case (Suc n)
  then obtain o1 vp1 o2 where 1: "encode_next lib vp = Inr (o1, vp1)" and 2: "encode_some lib n vp1 = Inr (o2, vp')"
    by auto
  have "vp_capture vp1 = vp_capture vp"
    using 1 by (auto simp: encode_next_def encode_one_def split: list.splits option.splits if_splits
        dest: deliver_keeps)
  with Suc.IH [OF 2] show ?case by simp
qed simp

text \<open>a capture error is final for the pipeline: after the capture loop of a running pipeline has
  ended by itself, even a stop that completes does not make the pipeline startable, whatever
  GStreamer answers: every further \<open>start\<close> reports \<open>ErrorInitFailed\<close>.\<close>

theorem capture_error_ends_pipeline:
  assumes "vp_start lib play now cb vp L = (Success, vp1, L1)" and "vp_capture vp1 = Some cam"
    and "vp_stop lib n (vp1\<lparr>vp_capture := Some (cam_loop_end cam)\<rparr>) L1 = Inr (r, out, vp2, L2)"
  shows "fst (vp_start lib' play' now' cb' vp2 L2) = ErrorInitFailed"
proof -
  obtain cam0 where c: "cam_start play True cam0 = (Success, cam)"
    using assms(1,2) by (auto simp: vp_start_def Let_def split: option.splits if_splits prod.splits)
  then have cam: "cam_thread cam" "cam_pipeline cam \<noteq> None"
    by (auto simp: cam_start_def Let_def split: if_splits)
  have "vp_capture vp2 = Some (cam_loop_end cam)"
    using assms(3) by (auto simp: vp_stop_def vp_finish_def stop_capture_def cam_loop_end_def Let_def case_prod_beta deliver_capture
        split: if_splits option.splits dest!: encode_some_capture)
  moreover have "cam_start play' True (cam_loop_end cam) = (ErrorInitFailed, cam_loop_end cam)"
    using cam by (simp add: cam_start_def cam_loop_end_def)
  ultimately show ?thesis by (auto simp: vp_start_def Let_def split: option.splits prod.splits)
qed

section \<open>Pipeline witnesses\<close>

definition demo_Frame :: "i64 \<Rightarrow> Frame" where
  "demo_Frame t = \<lparr>fr_frame = Some demo_frame, fr_pts = t, fr_width = 640, fr_height = 480,
     fr_format = PIX_FMT_YUV420P\<rparr>"

definition demo_pipeline :: "av_packet list pipeline" where
  "demo_pipeline = new_pipeline\<lparr>vp_capture := Some demo_camera,
     vp_encoder := Some (new_encoder SoftwareEncoder)\<rparr>"

abbreviation demo_ledger :: ledger where
  "demo_ledger \<equiv> \<lparr>next_handle = 2, live = [1, 0]\<rparr>"

definition bad_play :: play_answers where
  "bad_play = \<lparr>pa_set_playing = False, pa_get_state = (True, GST_PLAYING)\<rparr>"

lemmas demo_start_defs = vp_start_def demo_pipeline_def enc_initialize_def sw_initialize_def
  base_initialize_def open_context_def new_encoder_def queue_lib_def acquire_def new_pipeline_def
  cam_start_def bad_play_def demo_play_def demo_camera_def new_camera_def

lemma demo_pipeline_owns: "vp_owns \<lparr>next_handle = 0, live = []\<rparr> demo_pipeline demo_ledger" "queue_ok demo_pipeline"
  by (auto simp: vp_owns_def vp_handles_defs cam_handles_def demo_pipeline_def demo_camera_def new_encoder_def
      enc_owned_def enc_inv_def grows_def wf_ledger_def queue_ok_def new_pipeline_def new_camera_def)


theorem queue_keeps_newest_witness:
  "vp_queue (fold (\<lambda>f vp. snd (frame_callback f vp)) (map demo_Frame [1, 2, 3, 4, 5]) (new_pipeline :: unit pipeline))
     = map demo_Frame [3, 4, 5]"
proof -
  have "length (vp_queue (new_pipeline :: unit pipeline)) \<le> 3" by (simp add: new_pipeline_def)
  from queue_keeps_newest [OF this, of "map demo_Frame [1, 2, 3, 4, 5]"]
  show ?thesis by (simp add: new_pipeline_def numeral_eq_Suc)
qed


theorem failed_start_then_retry_leaks_witness:
  "\<exists>h vp1 L1 out vp3 L3 L4. vp_start queue_lib bad_play 0 True demo_pipeline demo_ledger = (ErrorCaptureFailed, vp1, L1)
    \<and> vp_stop queue_lib 0 (fst (snd (vp_start queue_lib demo_play 1 True vp1 L1)))
        (snd (snd (vp_start queue_lib demo_play 1 True vp1 L1))) = Inr (Success, out, vp3, L3)
    \<and> vp_destroy queue_lib True vp3 L3 = Inr L4 \<and> set (live L4) = {h}"
proof -
  obtain vp1 L1 where 1: "vp_start queue_lib bad_play 0 True demo_pipeline demo_ledger = (ErrorCaptureFailed, vp1, L1)"
    by (simp add: demo_start_defs)
  obtain r vp2 L2 where 2: "vp_start queue_lib demo_play 1 True vp1 L1 = (r, vp2, L2)" by (metis prod_cases3)
  have "vp_encoder demo_pipeline = Some (new_encoder SoftwareEncoder)"
    "enc_ctx (new_encoder SoftwareEncoder :: av_packet list encoder) = None"
    "\<not> enc_running (new_encoder SoftwareEncoder :: av_packet list encoder)"
    by (simp_all add: demo_pipeline_def new_encoder_def)
  from failed_start_then_retry_leaks [OF demo_pipeline_owns this queue_lib_ok 1 2, of 0 True] 1 2
  show ?thesis by auto
qed

theorem capture_error_ends_pipeline_witness:
  "\<exists>vp1 L1 cam out vp2 L2. vp_start queue_lib demo_play 0 True demo_pipeline demo_ledger = (Success, vp1, L1)
    \<and> vp_capture vp1 = Some cam
    \<and> vp_stop queue_lib 0 (vp1\<lparr>vp_capture := Some (cam_loop_end cam)\<rparr>) L1 = Inr (Success, out, vp2, L2)
    \<and> fst (vp_start queue_lib demo_play 1 True vp2 L2) = ErrorInitFailed"
proof -
  obtain vp1 L1 where 1: "vp_start queue_lib demo_play 0 True demo_pipeline demo_ledger = (Success, vp1, L1)"
    by (simp add: demo_start_defs)
  have o: "vp_owns \<lparr>next_handle = 0, live = []\<rparr> vp1 L1" "vp_encoder vp1 \<noteq> None" "vp_queue vp1 = vp_queue demo_pipeline"
    using vp_start_owns [OF 1 demo_pipeline_owns(1), of "new_encoder SoftwareEncoder"]
    by (auto simp: demo_pipeline_def new_encoder_def)
  obtain cam where cam: "vp_capture vp1 = Some cam"
    using 1 by (auto simp: demo_start_defs)
  let ?vp = "vp1\<lparr>vp_capture := Some (cam_loop_end cam)\<rparr>"
  have "vp_owns \<lparr>next_handle = 0, live = []\<rparr> ?vp L1" "vp_encoder ?vp \<noteq> None" "queue_ok ?vp"
    using o cam demo_pipeline_owns(2)
    by (auto simp: vp_owns_def vp_handles_defs cam_handles_def cam_loop_end_def queue_ok_def)
  then obtain out vp2 L2 where 2: "vp_stop queue_lib 0 ?vp L1 = Inr (Success, out, vp2, L2)"
    using vp_stop_owns [OF _ queue_lib_ok, of _ ?vp L1 0] by blast
  from capture_error_ends_pipeline [OF 1 cam 2, of queue_lib demo_play 1 True] 1 2 cam show ?thesis by blast
qed

end
