(* ===== verification/Whip_Publisher.thy ===== *)
theory Whip_Publisher
  imports Common_Types
begin

text \<open>
  \<open>networking/src/whip_publisher.cpp\<close>: a GStreamer pipeline
  \<open>appsrc ! h264parse ! rtph264pay ! whipsink\<close> that is built by \<open>initialize\<close>, driven by
  \<open>start\<close>, \<open>stop\<close> and \<open>pushPacket\<close>, and given back by the destructor. GStreamer's
  answers are parameters. Its objects are handles of the ledger; a bin owns the elements
  added to it and frees them with itself.
\<close>

section \<open>GStreamer objects\<close>

record gst_heap =
  gh_ledger :: ledger
  gh_children :: "handle \<Rightarrow> handle list"

definition unref_bin :: "handle \<Rightarrow> gst_heap \<Rightarrow> gst_heap run" where
  "unref_bin p H =
     andThen (release_all (p # gh_children H p) (gh_ledger H)) (\<lambda>L. Inr (H\<lparr>gh_ledger := L\<rparr>))"

datatype state_change = CHANGE_FAILURE | CHANGE_SUCCESS | CHANGE_ASYNC | CHANGE_NO_PREROLL

text \<open>An error or a warning with its text and its debug information.\<close>

record gst_msg =
  gm_error :: bool
  gm_text :: string
  gm_debug :: "string option"

section \<open>The publisher\<close>

record publisher =
  wp_whipUrl :: string
  wp_streamKey :: string
  wp_onError :: bool
  wp_forceKeyframe :: bool
  wp_running :: bool
  wp_pipeline :: "handle option"
  wp_appsrc :: "handle option"
  wp_frameCount :: u64
  wp_framerate :: int
  wp_streamStartPts :: i64
  wp_state :: gst_state

text \<open>
  \<open>wp_onError\<close> and \<open>wp_forceKeyframe\<close> tell whether the two \<open>std::function\<close> members hold
  a function; \<open>wp_state\<close> is the state the current pipeline was last put into.
\<close>

definition new_publisher :: publisher where
  "new_publisher = \<lparr>wp_whipUrl = [], wp_streamKey = [], wp_onError = False,
     wp_forceKeyframe = False, wp_running = False, wp_pipeline = None, wp_appsrc = None,
     wp_frameCount = 0, wp_framerate = 60, wp_streamStartPts = - 1, wp_state = GST_NULL\<rparr>"

definition setKeyframeRequestCallback :: "bool \<Rightarrow> publisher \<Rightarrow> publisher" where
  "setKeyframeRequestCallback cb w = w\<lparr>wp_forceKeyframe := cb\<rparr>"

text \<open>What GStreamer answers while the pipeline is built.\<close>

record whip_lib =
  wl_pipeline :: bool
  wl_appsrc :: bool
  wl_h264parse :: bool
  wl_rtph264pay :: bool
  wl_whipsink :: bool
  wl_link_many :: bool
  wl_request_pad :: bool
  wl_pad_link :: bool

text \<open>Giving up on a pipeline whose elements do not link.\<close>

definition whip_abandon :: "publisher \<Rightarrow> handle \<Rightarrow> gst_heap \<Rightarrow> (NetResult \<times> publisher \<times> gst_heap) run" where
  "whip_abandon w p H =
     andThen (use_handle p (gh_ledger H))
       (\<lambda>_. andThen (unref_bin p H)
       (\<lambda>H. Inr (NetErrorPipelineFailed, w\<lparr>wp_pipeline := None\<rparr>, H)))"

text \<open>Linking the elements, once they are in the bin.\<close>

definition whip_link :: "whip_lib \<Rightarrow> publisher \<Rightarrow> handle \<Rightarrow> gst_heap \<Rightarrow> (NetResult \<times> publisher \<times> gst_heap) run" where
  "whip_link a w p H =
     (if \<not> wl_link_many a then whip_abandon w p H
      else andThen (transient (gh_ledger H))
        (\<lambda>L. if \<not> wl_request_pad a then whip_abandon w p (H\<lparr>gh_ledger := L\<rparr>)
         else (case acquire L of (sink_pad, L) \<Rightarrow> case acquire L of (src_pad, L) \<Rightarrow>
           andThen (release src_pad L) (\<lambda>L. andThen (release sink_pad L)
             (\<lambda>L. if \<not> wl_pad_link a then whip_abandon w p (H\<lparr>gh_ledger := L\<rparr>)
              else andThen (transient L) (\<lambda>L. andThen (transient L)
                (\<lambda>L. Inr (NetSuccess, w, H\<lparr>gh_ledger := L\<rparr>))))))))"

definition whip_initialize ::
  "whip_lib \<Rightarrow> string \<Rightarrow> string \<Rightarrow> int \<Rightarrow> bool \<Rightarrow> publisher \<Rightarrow> gst_heap \<Rightarrow>
   (NetResult \<times> publisher \<times> gst_heap) run" where
  "whip_initialize a url key framerate onError w H =
     (let w = w\<lparr>wp_whipUrl := url, wp_streamKey := key, wp_framerate := framerate,
                wp_onError := onError\<rparr> in
      case try_acquire (wl_pipeline a) (gh_ledger H) of (pipe, L) \<Rightarrow>
      let w = w\<lparr>wp_pipeline := pipe, wp_state := GST_NULL\<rparr> in
      case pipe of
        None \<Rightarrow> Inr (NetErrorPipelineFailed, w, H\<lparr>gh_ledger := L\<rparr>)
      | Some p \<Rightarrow>
          let H = H\<lparr>gh_children := (gh_children H)(p := [])\<rparr> in
          (case try_acquire (wl_appsrc a) L of (appsrc, L) \<Rightarrow>
           case try_acquire (wl_h264parse a) L of (h264parse, L) \<Rightarrow>
           case try_acquire (wl_rtph264pay a) L of (rtph264pay, L) \<Rightarrow>
           case try_acquire (wl_whipsink a) L of (whipsink, L) \<Rightarrow>
           let w = w\<lparr>wp_appsrc := appsrc\<rparr> in
           if appsrc = None \<or> h264parse = None \<or> rtph264pay = None \<or> whipsink = None
           then Inr (NetErrorPipelineFailed, w, H\<lparr>gh_ledger := L\<rparr>)
           else andThen (transient L)
             (\<lambda>L. whip_link a w p
                \<lparr>gh_ledger = L, gh_children = (gh_children H)
                   (p := [the appsrc, the h264parse, the rtph264pay, the whipsink])\<rparr>)))"

text \<open>
  The bus watch \<open>initialize\<close> installs calls \<open>onErrorCallback_\<close> without asking whether it
  holds a function (an empty one throws); the pad probe asks.
\<close>

definition whip_bus_watch :: "publisher \<Rightarrow> gst_msg \<Rightarrow> string list run" where
  "whip_bus_watch w m =
     (if gm_error m
      then (if wp_onError w then Inr [''GStreamer Error: '' @ gm_text m] else Inl UncaughtException)
      else Inr [])"

definition whip_upstream_probe :: "publisher \<Rightarrow> bool \<Rightarrow> bool" where
  "whip_upstream_probe w force_key_unit \<longleftrightarrow> force_key_unit \<and> wp_forceKeyframe w"

section \<open>Bus log\<close>

definition log_message :: "gst_msg \<Rightarrow> string list" where
  "log_message m =
     ((if gm_error m then ''[WHIPPublisher] GStreamer error: '' else ''[WHIPPublisher] GStreamer warning: '')
        @ gm_text m) #
     (case gm_debug m of None \<Rightarrow> [] | Some d \<Rightarrow> [''[WHIPPublisher] Debug: '' @ d])"

text \<open>
  \<open>pop i\<close> is what the \<open>i\<close>-th call of \<open>gst_bus_timed_pop_filtered\<close> returns. The loop ends
  when a call returns nothing.
\<close>

definition logBusError :: "(nat \<Rightarrow> gst_msg option) \<Rightarrow> publisher \<Rightarrow> string list run" where
  "logBusError pop w =
     (if wp_pipeline w = None then Inr []
      else (case receive_loop (\<lambda>i. (pop i, Suc i)) 0 of
          None \<Rightarrow> Inl NonTermination
        | Some (ms, _) \<Rightarrow> Inr (concat (map log_message ms))))"

section \<open>Start, stop and destruction\<close>

record start_answers =
  sa_set_playing :: state_change
  sa_failed_state :: gst_state
  sa_waited :: state_change
  sa_pop :: "nat \<Rightarrow> gst_msg option"

definition whip_start :: "start_answers \<Rightarrow> publisher \<Rightarrow> (NetResult \<times> string list \<times> publisher) run" where
  "whip_start a w =
     (if wp_pipeline w = None then Inr (NetErrorNotInitialized, [], w)
      else if wp_running w then Inr (NetSuccess, [], w)
      else (let ret = sa_set_playing a in
        if ret = CHANGE_FAILURE
        then andThen (logBusError (sa_pop a) w)
          (\<lambda>out. Inr (NetErrorPipelineFailed, out, w\<lparr>wp_state := sa_failed_state a\<rparr>))
        else if ret = CHANGE_ASYNC \<and> sa_waited a = CHANGE_FAILURE
        then andThen (logBusError (sa_pop a) w)
          (\<lambda>out. Inr (NetErrorPipelineFailed, out, w\<lparr>wp_state := GST_NULL\<rparr>))
        else if ret = CHANGE_ASYNC \<and> sa_waited a = CHANGE_ASYNC
        then Inr (NetErrorPipelineFailed, [''[WHIPPublisher] Timed out waiting for WHIP handshake''],
                  w\<lparr>wp_state := GST_NULL\<rparr>)
        else Inr (NetSuccess, [], w\<lparr>wp_state := GST_PLAYING, wp_running := True\<rparr>)))"

text \<open>
  \<open>eos\<close>: the end-of-stream message came back in time. \<open>gst_app_src_end_of_stream\<close> returns
  at once for a null source.
\<close>

definition whip_stop :: "bool \<Rightarrow> publisher \<Rightarrow> gst_heap \<Rightarrow> (NetResult \<times> publisher \<times> gst_heap) run" where
  "whip_stop eos w H =
     (case wp_pipeline w of
        None \<Rightarrow> Inr (NetErrorNotInitialized, w, H)
      | Some p \<Rightarrow>
          if \<not> wp_running w then Inr (NetSuccess, w, H)
          else andThen (case wp_appsrc w of None \<Rightarrow> Inr (gh_ledger H) | Some s \<Rightarrow> use_handle s (gh_ledger H))
            (\<lambda>L. andThen (use_handle p L)
            (\<lambda>L. andThen (transient L)
            (\<lambda>L. andThen (if eos then transient L else Inr L)
            (\<lambda>L. andThen (transient L)
            (\<lambda>L. andThen (unref_bin p (H\<lparr>gh_ledger := L\<rparr>))
            (\<lambda>H. Inr (NetSuccess, w\<lparr>wp_pipeline := None, wp_appsrc := None, wp_running := False,
                    wp_streamStartPts := - 1, wp_state := GST_NULL\<rparr>, H))))))))"

definition whip_destroy :: "bool \<Rightarrow> publisher \<Rightarrow> gst_heap \<Rightarrow> gst_heap run" where
  "whip_destroy eos w H =
     andThen (if wp_running w then andThen (whip_stop eos w H) (\<lambda>(_, w, H). Inr (w, H)) else Inr (w, H))
       (\<lambda>(w, H). case wp_pipeline w of None \<Rightarrow> Inr H | Some p \<Rightarrow> unref_bin p H)"

section \<open>Pushing packets\<close>

record gst_buffer =
  gb_data :: "byte list"
  gb_pts :: u64
  gb_duration :: u64

definition GST_SECOND :: u64 where
  "GST_SECOND = 1000000000"

text \<open>\<open>a - b\<close> on \<open>std::int64_t\<close>: undefined when the difference leaves the type.\<close>

definition i64_sub :: "i64 \<Rightarrow> i64 \<Rightarrow> i64 run" where
  "i64_sub a b =
     (if - (2 ^ 63) \<le> sint a - sint b \<and> sint a - sint b < 2 ^ 63 then Inr (a - b)
      else Inl SignedOverflow)"

record push_answers =
  pu_alloc :: bool
  pu_map :: bool
  pu_flow_ok :: bool

text \<open>The result: the buffer given to \<open>appsrc\<close>, and the calls of the error callback.\<close>

definition pushPacket ::
  "push_answers \<Rightarrow> Packet option \<Rightarrow> publisher \<Rightarrow> gst_heap \<Rightarrow>
   (gst_buffer option \<times> string list \<times> publisher) run" where
  "pushPacket a packet w H =
     (if \<not> wp_running w then Inr (None, [], w)
      else (case packet of None \<Rightarrow> Inl NullDeref
      | Some pk \<Rightarrow> (case pk_packet pk of None \<Rightarrow> Inl NullDeref
      | Some av \<Rightarrow>
          if \<not> pu_alloc a \<or> \<not> pu_map a then Inl NullDeref
          else if sint (ap_size av) < 0 \<or> int (length (ap_data av)) < sint (ap_size av)
          then Inl OutOfBounds
          else (let w = (if sint (wp_streamStartPts w) < 0 then w\<lparr>wp_streamStartPts := pk_pts pk\<rparr> else w) in
            andThen (i64_sub (pk_pts pk) (wp_streamStartPts w))
              (\<lambda>relativePts. let w = (if wp_framerate w = 0 then w\<lparr>wp_framerate := 30\<rparr> else w);
                   buffer = \<lparr>gb_data = take (nat (sint (ap_size av))) (ap_data av),
                     gb_pts = relativePts, gb_duration = GST_SECOND div word_of_int (wp_framerate w)\<rparr>;
                   w = w\<lparr>wp_frameCount := wp_frameCount w + 1\<rparr> in
                 case wp_appsrc w of
                   None \<Rightarrow> Inr (None, [], w)
                 | Some s \<Rightarrow> andThen (use_handle s (gh_ledger H))
                     (\<lambda>_. Inr (Some buffer,
                        (if \<not> pu_flow_ok a \<and> wp_onError w
                         then [''Failed to push buffer to GStreamer pipeline''] else []), w)))))))"

text \<open>A run of pushes; the encoder's callback hands its packets over one by one.\<close>

fun pushPackets ::
  "(push_answers \<times> Packet option) list \<Rightarrow> publisher \<Rightarrow> gst_heap \<Rightarrow>
   (gst_buffer option list \<times> publisher) run" where
  "pushPackets [] w H = Inr ([], w)"
| "pushPackets ((a, p) # ps) w H =
     andThen (pushPacket a p w H)
       (\<lambda>(b, _, w). andThen (pushPackets ps w H) (\<lambda>(bs, w). Inr (b # bs, w)))"

section \<open>Life of a publisher\<close>

datatype whip_op = WStart start_answers | WStop bool | WPush push_answers "Packet option"

fun whip_step :: "whip_op \<Rightarrow> publisher \<times> gst_heap \<Rightarrow> (publisher \<times> gst_heap) run" where
  "whip_step (WStart a) (w, H) = andThen (whip_start a w) (\<lambda>(_, _, w). Inr (w, H))"
| "whip_step (WStop eos) (w, H) = andThen (whip_stop eos w H) (\<lambda>(_, w, H). Inr (w, H))"
| "whip_step (WPush a p) (w, H) = andThen (pushPacket a p w H) (\<lambda>(_, _, w). Inr (w, H))"

fun whip_run :: "whip_op list \<Rightarrow> publisher \<times> gst_heap \<Rightarrow> (publisher \<times> gst_heap) run" where
  "whip_run [] s = Inr s"
| "whip_run (x # xs) s = andThen (whip_step x s) (whip_run xs)"

text \<open>A bus that runs empty, and a packet the publisher can take.\<close>

fun pushable :: "push_answers \<times> Packet option \<Rightarrow> bool" where
  "pushable (a, p) \<longleftrightarrow> pu_alloc a \<and> pu_map a \<and>
     (case p of None \<Rightarrow> False | Some pk \<Rightarrow> 0 \<le> sint (pk_pts pk) \<and>
       (case pk_packet pk of None \<Rightarrow> False
        | Some av \<Rightarrow> 0 \<le> sint (ap_size av) \<and> sint (ap_size av) \<le> int (length (ap_data av))))"

fun whip_op_ok :: "whip_op \<Rightarrow> bool" where
  "whip_op_ok (WStart a) \<longleftrightarrow> (\<exists>i. sa_pop a i = None)"
| "whip_op_ok (WStop eos) \<longleftrightarrow> True"
| "whip_op_ok (WPush a p) \<longleftrightarrow> pushable (a, p)"

text \<open>
  What the publisher owns, relative to the ledger \<open>L\<close> before it existed: nothing, or the
  pipeline with its elements, the source among them.
\<close>

definition whip_owns :: "ledger \<Rightarrow> publisher \<Rightarrow> gst_heap \<Rightarrow> bool" where
  "whip_owns L w H \<longleftrightarrow>
     (case wp_pipeline w of
        None \<Rightarrow> \<not> wp_running w \<and> grows L [] (gh_ledger H)
      | Some p \<Rightarrow> grows L (p # gh_children H p) (gh_ledger H)
          \<and> (\<exists>s \<in> set (gh_children H p). wp_appsrc w = Some s))"

lemma grows_next:
  "grows L hs L1 \<Longrightarrow> next_handle L1 \<le> n \<Longrightarrow> grows L hs (L1\<lparr>next_handle := n\<rparr>)"
  by (auto simp: grows_def wf_ledger_def intro: less_le_trans)

lemma unref_bin_grows:
  assumes "grows L (p # gh_children H p) (gh_ledger H)"
  shows "\<exists>L'. unref_bin p H = Inr (H\<lparr>gh_ledger := L'\<rparr>) \<and> grows L [] L'"
proof -
  obtain L' where "release_all (p # gh_children H p) (gh_ledger H) = Inr L'" "grows L [] L'"
    using grows_release [of L "[]" "p # gh_children H p" "[]" "gh_ledger H"] assms
    by (metis append_Nil append_Nil2)
  then show ?thesis by (simp only: unref_bin_def andThen.simps) blast
qed

lemma grows_live: "grows L hs L' \<Longrightarrow> h \<in> set hs \<Longrightarrow> h \<in> set (live L')"
  by (auto simp: grows_def)

lemma whip_abandon_grows:
  assumes "grows L (p # gh_children H p) (gh_ledger H)"
  shows "\<exists>H'. whip_abandon w p H = Inr (NetErrorPipelineFailed, w\<lparr>wp_pipeline := None\<rparr>, H')
    \<and> grows L [] (gh_ledger H')"
  using unref_bin_grows [OF assms] grows_live [OF assms, of p] by (auto simp: whip_abandon_def)

definition links :: "whip_lib \<Rightarrow> bool" where
  "links a \<longleftrightarrow> wl_link_many a \<and> wl_request_pad a \<and> wl_pad_link a"

definition has_elements :: "whip_lib \<Rightarrow> bool" where
  "has_elements a \<longleftrightarrow> wl_appsrc a \<and> wl_h264parse a \<and> wl_rtph264pay a \<and> wl_whipsink a"

lemma whip_link_outcome:
  assumes g: "grows L (p # gh_children H p) (gh_ledger H)"
  shows "\<exists>r w' H'. whip_link a w p H = Inr (r, w', H') \<and>
    (if links a then r = NetSuccess \<and> w' = w \<and> gh_children H' = gh_children H
        \<and> grows L (p # gh_children H p) (gh_ledger H')
     else r = NetErrorPipelineFailed \<and> w' = w\<lparr>wp_pipeline := None\<rparr> \<and> grows L [] (gh_ledger H'))"
proof -
  let ?H = "\<lambda>k. H\<lparr>gh_ledger := gh_ledger H\<lparr>next_handle := next_handle (gh_ledger H) + k\<rparr>\<rparr>"
  have gk: "grows L (p # gh_children (?H k) p) (gh_ledger (?H k))" for k
    using grows_next [OF g] by simp
  note abandon = whip_abandon_grows [OF g, of w] whip_abandon_grows [OF gk [of 1], of w]
    whip_abandon_grows [OF gk [of 3], of w]
  consider (1) "\<not> wl_link_many a" | (2) "wl_link_many a" "\<not> wl_request_pad a"
    | (3) "wl_link_many a" "wl_request_pad a" "\<not> wl_pad_link a" | (4) "links a"
    by (auto simp: links_def)
  then show ?thesis
  proof cases
    case 1
    then show ?thesis using abandon(1) by (auto simp: whip_link_def links_def)
  next
    case 2
    then have "whip_link a w p H = whip_abandon w p (?H 1)"
      by (simp add: whip_link_def transient_eq)
    with 2 abandon(2) show ?thesis by (auto simp: links_def)
  next
    case 3
    then have "whip_link a w p H = whip_abandon w p (?H 3)"
      by (simp add: whip_link_def transient_eq acquire_def release_def numeral_3_eq_3)
    with 3 abandon(3) show ?thesis by (auto simp: links_def)
  next
    case 4
    then have "whip_link a w p H = Inr (NetSuccess, w, ?H 5)"
      by (simp add: whip_link_def links_def transient_eq acquire_def release_def)
    with 4 gk [of 5] show ?thesis by simp
  qed
qed

lemma try_acquire_True: "try_acquire True L = (Some (fst (acquire L)), snd (acquire L))"
  by (simp add: try_acquire_def split: prod.splits)

text \<open>With all elements available, \<open>initialize\<close> comes to linking them.\<close>

lemma whip_initialize_builds:
  assumes wf: "wf_ledger (gh_ledger H)" and pl: "wl_pipeline a" and el: "has_elements a"
  obtains p s h y k L' where "grows (gh_ledger H) [p, s, h, y, k] L'"
    and "whip_initialize a url key fr cb w H = whip_link a
      (w\<lparr>wp_whipUrl := url, wp_streamKey := key, wp_framerate := fr, wp_onError := cb,
         wp_pipeline := Some p, wp_state := GST_NULL, wp_appsrc := Some s\<rparr>) p
      \<lparr>gh_ledger = L', gh_children = (gh_children H)(p := [s, h, y, k])\<rparr>"
proof -
  from el have e: "wl_appsrc a = True" "wl_h264parse a = True" "wl_rtph264pay a = True"
    "wl_whipsink a = True" by (simp_all add: has_elements_def)
  let ?L = "gh_ledger H"
  obtain p L1 where 1: "acquire ?L = (p, L1)" by fastforce
  obtain s L2 where 2: "acquire L1 = (s, L2)" by fastforce
  obtain h L3 where 3: "acquire L2 = (h, L3)" by fastforce
  obtain y L4 where 4: "acquire L3 = (y, L4)" by fastforce
  obtain k L5 where 5: "acquire L4 = (k, L5)" by fastforce
  have "grows ?L [k, y, h, s, p] L5"
    using grows_acquire [OF grows_acquire [OF grows_acquire [OF grows_acquire [OF grows_acquire
      [OF grows_refl [OF wf] 1] 2] 3] 4] 5] .
  then have g: "grows ?L [p, s, h, y, k] L5" by (auto simp: grows_def)
  obtain L6 where t: "transient L5 = Inr L6" by (simp add: transient_eq)
  show thesis
    by (rule that [OF grows_transient [OF g t]])
      (simp add: whip_initialize_def try_acquire_True pl e 1 2 3 4 5 t Let_def)
qed

lemma whip_initialize_outcome:
  assumes wf: "wf_ledger (gh_ledger H)" and el: "wl_pipeline a \<longrightarrow> has_elements a"
    and nr: "\<not> wp_running w"
  shows "\<exists>r w' H'. whip_initialize a url key fr cb w H = Inr (r, w', H')
    \<and> whip_owns (gh_ledger H) w' H' \<and> \<not> wp_running w' \<and> wp_streamStartPts w' = wp_streamStartPts w
    \<and> (r = NetSuccess \<longleftrightarrow> wl_pipeline a \<and> links a) \<and> (wp_pipeline w' \<noteq> None \<longleftrightarrow> r = NetSuccess)"
proof (cases "wl_pipeline a")
  case False
  with wf nr show ?thesis
    by (simp add: whip_initialize_def try_acquire_def whip_owns_def grows_refl)
next
  case True
  let ?L = "gh_ledger H"
  obtain p s h y k L' where g: "grows ?L [p, s, h, y, k] L'"
    and eq: "whip_initialize a url key fr cb w H = whip_link a
      (w\<lparr>wp_whipUrl := url, wp_streamKey := key, wp_framerate := fr, wp_onError := cb,
         wp_pipeline := Some p, wp_state := GST_NULL, wp_appsrc := Some s\<rparr>) p
      \<lparr>gh_ledger = L', gh_children = (gh_children H)(p := [s, h, y, k])\<rparr>"
      (is "_ = whip_link a ?w p ?H")
    using whip_initialize_builds [OF wf True, of url key fr cb w] el True by blast
  have "grows ?L (p # gh_children ?H p) (gh_ledger ?H)" using g by simp
  from whip_link_outcome [OF this, of a ?w] obtain r w' H' where
    l: "whip_link a ?w p ?H = Inr (r, w', H')" and
    o: "if links a then r = NetSuccess \<and> w' = ?w \<and> gh_children H' = gh_children ?H
        \<and> grows ?L (p # gh_children ?H p) (gh_ledger H')
      else r = NetErrorPipelineFailed \<and> w' = ?w\<lparr>wp_pipeline := None\<rparr> \<and> grows ?L [] (gh_ledger H')"
    by blast
  have "whip_owns ?L w' H' \<and> \<not> wp_running w' \<and> wp_streamStartPts w' = wp_streamStartPts w
    \<and> (r = NetSuccess \<longleftrightarrow> wl_pipeline a \<and> links a) \<and> (wp_pipeline w' \<noteq> None \<longleftrightarrow> r = NetSuccess)"
    using o True nr by (cases "links a") (simp_all add: whip_owns_def)
  with eq l show ?thesis by simp
qed

lemma drains_pops: "k \<le> n \<Longrightarrow> pop n = None \<Longrightarrow> drains (\<lambda>i. (pop i, Suc i)) k"
proof (induction rule: inc_induct)
  case base
  then show ?case by (auto intro: drains_stop)
next
  case (step k)
  then show ?case by (cases "pop k") (auto intro: drains_stop drains_more)
qed

lemma logBusError_ok: "pop n = None \<Longrightarrow> \<exists>out. logBusError pop w = Inr out"
  using receive_loop_drains [OF drains_pops [of 0 n pop]] by (auto simp: logBusError_def)

lemma whip_start_ok:
  assumes "sa_pop a i = None"
  shows "\<exists>r out w'. whip_start a w = Inr (r, out, w') \<and> wp_pipeline w' = wp_pipeline w
    \<and> wp_appsrc w' = wp_appsrc w \<and> wp_streamStartPts w' = wp_streamStartPts w
    \<and> (wp_pipeline w = None \<longrightarrow> wp_running w' = wp_running w)"
  using logBusError_ok [of "sa_pop a" i w] assms by (auto simp: whip_start_def Let_def)

lemma i64_sub_nonneg: "0 \<le> sint a \<Longrightarrow> 0 \<le> sint b \<Longrightarrow> i64_sub a b = Inr (a - b)"
  using sint_lt [of a] sint_lt [of b] by (simp add: i64_sub_def)

lemma i64_sub_self: "i64_sub a a = Inr 0"
  by (simp add: i64_sub_def)

text \<open>One push, when nothing can go wrong, and one through a dangling pointer.\<close>

definition start_pts :: "publisher \<Rightarrow> Packet \<Rightarrow> i64" where
  "start_pts w pk = (if sint (wp_streamStartPts w) < 0 then pk_pts pk else wp_streamStartPts w)"

definition eff_framerate :: "publisher \<Rightarrow> int" where
  "eff_framerate w = (if wp_framerate w = 0 then 30 else wp_framerate w)"

lemma pushPacket_takes:
  assumes "wp_running w" "pushable (a, Some pk)" "pk_packet pk = Some av"
    and "wp_appsrc w = Some s" "s \<in> set (live (gh_ledger H))"
  shows "\<exists>errs. pushPacket a (Some pk) w H = Inr (Some \<lparr>gb_data = take (nat (sint (ap_size av))) (ap_data av),
      gb_pts = pk_pts pk - start_pts w pk, gb_duration = GST_SECOND div word_of_int (eff_framerate w)\<rparr>,
      errs, w\<lparr>wp_streamStartPts := start_pts w pk, wp_framerate := eff_framerate w,
              wp_frameCount := wp_frameCount w + 1\<rparr>)"
proof -
  have "i64_sub (pk_pts pk) (start_pts w pk) = Inr (pk_pts pk - start_pts w pk)"
    using assms(2) by (auto simp: start_pts_def i64_sub_self i64_sub_nonneg split: option.splits)
  with assms show ?thesis
    by (cases "sint (wp_streamStartPts w) < 0")
       (simp_all add: pushPacket_def start_pts_def eff_framerate_def Let_def)
qed

lemma pushPacket_dangling:
  assumes "wp_running w" "pushable (a, Some pk)" "wp_appsrc w = Some s" "s \<notin> set (live (gh_ledger H))"
  shows "pushPacket a (Some pk) w H = Inl UseAfterFree"
proof -
  obtain av where "pk_packet pk = Some av" using assms(2) by (auto split: option.splits)
  with assms show ?thesis
    by (cases "sint (wp_streamStartPts w) < 0")
       (simp_all add: pushPacket_def Let_def i64_sub_self i64_sub_nonneg)
qed

lemma whip_owns_cong:
  "whip_owns L w H \<Longrightarrow> wp_pipeline w' = wp_pipeline w \<Longrightarrow> wp_appsrc w' = wp_appsrc w \<Longrightarrow>
   (wp_pipeline w = None \<longrightarrow> wp_running w' = wp_running w) \<Longrightarrow> whip_owns L w' H"
  by (auto simp: whip_owns_def split: option.splits)

lemma whip_stop_owns:
  assumes o: "whip_owns L w H"
  shows "\<exists>r w' H'. whip_stop eos w H = Inr (r, w', H') \<and> whip_owns L w' H' \<and> \<not> wp_running w'
    \<and> (r = NetErrorNotInitialized \<longleftrightarrow> wp_pipeline w = None) \<and> (wp_running w \<longrightarrow> wp_pipeline w' = None)"
proof (cases "wp_pipeline w")
  case None
  with o show ?thesis by (simp add: whip_stop_def whip_owns_def)
next
  case (Some p)
  show ?thesis
  proof (cases "wp_running w")
    case False
    with o Some show ?thesis by (simp add: whip_stop_def)
  next
    case True
    from o Some obtain s where g: "grows L (p # gh_children H p) (gh_ledger H)"
      and s: "s \<in> set (gh_children H p)" "wp_appsrc w = Some s" by (auto simp: whip_owns_def)
    have live: "p \<in> set (live (gh_ledger H))" "s \<in> set (live (gh_ledger H))"
      using grows_live [OF g] s by auto
    let ?n = "next_handle (gh_ledger H) + (if eos then 3 else 2)"
    let ?H = "H\<lparr>gh_ledger := gh_ledger H\<lparr>next_handle := ?n\<rparr>\<rparr>"
    have "grows L (p # gh_children ?H p) (gh_ledger ?H)" using grows_next [OF g] by simp
    from unref_bin_grows [OF this] obtain L' where u: "unref_bin p ?H = Inr (?H\<lparr>gh_ledger := L'\<rparr>)"
      and g': "grows L [] L'" by blast
    have "whip_stop eos w H = andThen (unref_bin p ?H) (\<lambda>H. Inr (NetSuccess, w\<lparr>wp_pipeline := None,
        wp_appsrc := None, wp_running := False, wp_streamStartPts := - 1, wp_state := GST_NULL\<rparr>, H))"
      using Some True live s(2) by (cases eos) (simp_all add: whip_stop_def transient_eq numeral_3_eq_3)
    with u g' show ?thesis by (simp add: whip_owns_def Some)
  qed
qed

lemma pushPacket_ok:
  assumes o: "whip_owns L w H" and p: "pushable (a, p)"
  shows "\<exists>b errs w'. pushPacket a p w H = Inr (b, errs, w') \<and> whip_owns L w' H"
proof (cases "wp_running w")
  case False
  with o show ?thesis by (simp add: pushPacket_def)
next
  case True
  with o obtain pi where pi: "wp_pipeline w = Some pi" by (auto simp: whip_owns_def split: option.splits)
  with o obtain s where s: "wp_appsrc w = Some s" and "s \<in> set (gh_children H pi)"
    and "grows L (pi # gh_children H pi) (gh_ledger H)" by (auto simp: whip_owns_def)
  then have live: "s \<in> set (live (gh_ledger H))" by (auto simp: grows_def)
  obtain pk av where pk: "p = Some pk" "pk_packet pk = Some av" using p by (auto split: option.splits)
  from pushPacket_takes [OF True _ pk(2) s live] p pk(1) obtain b errs w'
    where "pushPacket a p w H = Inr (b, errs, w')"
      and "w' = w\<lparr>wp_streamStartPts := start_pts w pk, wp_framerate := eff_framerate w,
              wp_frameCount := wp_frameCount w + 1\<rparr>" by blast
  then show ?thesis using whip_owns_cong [OF o, of w'] by simp
qed

lemma whip_step_owns:
  "whip_owns L w H \<Longrightarrow> whip_op_ok x \<Longrightarrow> \<exists>w' H'. whip_step x (w, H) = Inr (w', H') \<and> whip_owns L w' H'"
proof (cases x)
  case (WStart a)
  assume o: "whip_owns L w H" "whip_op_ok x"
  with WStart obtain i where "sa_pop a i = None" by auto
  then obtain r out w' where "whip_start a w = Inr (r, out, w')" "wp_pipeline w' = wp_pipeline w"
    "wp_appsrc w' = wp_appsrc w" "wp_pipeline w = None \<longrightarrow> wp_running w' = wp_running w"
    using whip_start_ok by blast
  with WStart whip_owns_cong [OF o(1)] show ?thesis by simp
next
  case (WStop eos)
  assume "whip_owns L w H"
  from whip_stop_owns [OF this, of eos] WStop show ?thesis by auto
next
  case (WPush a p)
  assume o: "whip_owns L w H" "whip_op_ok x"
  with WPush have "pushable (a, p)" by (simp only: whip_op_ok.simps)
  from pushPacket_ok [OF o(1) this] WPush show ?thesis by auto
qed

lemma whip_run_owns:
  "whip_owns L w H \<Longrightarrow> \<forall>x \<in> set xs. whip_op_ok x \<Longrightarrow>
   \<exists>w' H'. whip_run xs (w, H) = Inr (w', H') \<and> whip_owns L w' H'"
proof (induction xs arbitrary: w H)
  case (Cons x xs)
  then obtain w1 H1 where "whip_step x (w, H) = Inr (w1, H1)" "whip_owns L w1 H1"
    using whip_step_owns [of L w H x] by (metis list.set_intros(1))
  with Cons show ?case by simp
qed simp

lemma whip_destroy_owns:
  assumes o: "whip_owns L w H"
  shows "\<exists>H'. whip_destroy eos w H = Inr H' \<and> set (live (gh_ledger H')) = set (live L)"
proof -
  have fin: "\<exists>H'. (case wp_pipeline w of None \<Rightarrow> Inr H | Some p \<Rightarrow> unref_bin p H) = Inr H'
      \<and> set (live (gh_ledger H')) = set (live L)" if v: "whip_owns L w H" for w H
  proof (cases "wp_pipeline w")
    case None
    with v show ?thesis by (simp add: whip_owns_def grows_def)
  next
    case (Some p)
    with v have "grows L (p # gh_children H p) (gh_ledger H)" by (simp add: whip_owns_def)
    from unref_bin_grows [OF this] Some show ?thesis by (auto simp: grows_def)
  qed
  show ?thesis
  proof (cases "wp_running w")
    case True
    obtain r w' H' where "whip_stop eos w H = Inr (r, w', H')" "whip_owns L w' H'"
      using whip_stop_owns [OF o] by blast
    with True fin [of w' H'] show ?thesis by (simp add: whip_destroy_def)
  next
    case False
    with fin [OF o] show ?thesis by (simp add: whip_destroy_def)
  qed
qed

section \<open>The publisher as a service\<close>

definition whip_inv :: "publisher \<times> gst_heap \<Rightarrow> bool" where
  "whip_inv s \<longleftrightarrow> (wp_running (fst s) \<longrightarrow> wp_pipeline (fst s) \<noteq> None)"

definition whip_start_op :: "start_answers \<times> bool \<Rightarrow> publisher \<times> gst_heap \<Rightarrow>
    (NetResult \<times> publisher \<times> gst_heap) run" where
  "whip_start_op e s = andThen (whip_start (fst e) (fst s)) (\<lambda>(r, _, w). Inr (r, w, snd s))"

definition whip_stop_op :: "start_answers \<times> bool \<Rightarrow> publisher \<times> gst_heap \<Rightarrow>
    (NetResult \<times> publisher \<times> gst_heap) run" where
  "whip_stop_op e s = whip_stop (snd e) (fst s) (snd s)"

definition is_NetSuccess :: "NetResult \<Rightarrow> bool" where
  "is_NetSuccess r \<longleftrightarrow> r = NetSuccess"

lemma whip_start_running:
  "whip_start a w = Inr (r, out, w') \<Longrightarrow>
   wp_pipeline w' = wp_pipeline w \<and> (wp_running w \<longrightarrow> wp_pipeline w \<noteq> None \<longrightarrow> wp_running w')
   \<and> (wp_running w' \<longleftrightarrow> wp_running w \<or> r = NetSuccess) \<and> (r = NetSuccess \<longrightarrow> wp_pipeline w \<noteq> None)"
  by (auto simp: whip_start_def Let_def split: if_splits)

lemma whip_stop_not_running:
  "whip_stop eos w H = Inr (r, w', H') \<Longrightarrow> wp_running w \<longrightarrow> wp_pipeline w \<noteq> None \<Longrightarrow> \<not> wp_running w'"
  by (auto simp: whip_stop_def split: option.splits if_splits)

interpretation whip_service: service whip_start_op whip_stop_op "\<lambda>s. wp_running (fst s)" whip_inv is_NetSuccess
proof unfold_locales
  fix s e r s'
  assume "whip_inv s" and "whip_start_op e s = Inr (r, s')"
  then show "whip_inv s'" "wp_running (fst s') \<longleftrightarrow> wp_running (fst s) \<or> is_NetSuccess r"
    using whip_start_running [of "fst e" "fst s" r]
    by (auto simp: whip_inv_def whip_start_op_def is_NetSuccess_def)
next
  fix s e r s'
  assume "whip_inv s" and "whip_stop_op e s = Inr (r, s')"
  then show "\<not> wp_running (fst s')"
    using whip_stop_not_running [of "snd e" "fst s" "snd s" r "fst s'" "snd s'"]
    by (auto simp: whip_inv_def whip_stop_op_def)
  then show "whip_inv s'" by (simp add: whip_inv_def)
qed

section \<open>Properties of the publisher\<close>


text \<open>The buffers a run of pushes hands to the source.\<close>

fun packet_of :: "push_answers \<times> Packet option \<Rightarrow> Packet" where
  "packet_of (a, p) = the p"

definition whip_buffer :: "i64 \<Rightarrow> publisher \<Rightarrow> push_answers \<times> Packet option \<Rightarrow> gst_buffer" where
  "whip_buffer start w x = (let pk = packet_of x; av = the (pk_packet pk) in
     \<lparr>gb_data = take (nat (sint (ap_size av))) (ap_data av), gb_pts = pk_pts pk - start,
      gb_duration = GST_SECOND div word_of_int (eff_framerate w)\<rparr>)"

lemma pushPackets_started:
  assumes "wp_running w" "\<forall>x \<in> set ps. pushable x" "wp_appsrc w = Some s"
    and "s \<in> set (live (gh_ledger H))" "0 \<le> sint (wp_streamStartPts w)"
  shows "\<exists>w'. pushPackets ps w H = Inr (map (\<lambda>x. Some (whip_buffer (wp_streamStartPts w) w x)) ps, w')"
  using assms
proof (induction ps arbitrary: w)
  case (Cons x ps)
  obtain a p where x: "x = (a, p)" by fastforce
  with Cons.prems(2) obtain pk av where pk: "p = Some pk" "pk_packet pk = Some av"
    by (auto split: option.splits)
  let ?w = "w\<lparr>wp_streamStartPts := wp_streamStartPts w, wp_framerate := eff_framerate w,
              wp_frameCount := wp_frameCount w + 1\<rparr>"
  have st: "start_pts w pk = wp_streamStartPts w" using Cons.prems(5) by (simp add: start_pts_def)
  obtain errs where "pushPacket a p w H = Inr (Some (whip_buffer (wp_streamStartPts w) w x), errs, ?w)"
    using pushPacket_takes [OF Cons.prems(1) _ pk(2) Cons.prems(3,4), of a] Cons.prems(2) x pk st
    by (auto simp: whip_buffer_def)
  moreover have "eff_framerate ?w = eff_framerate w" by (simp add: eff_framerate_def)
  then have "\<exists>w'. pushPackets ps ?w H = Inr (map (\<lambda>x. Some (whip_buffer (wp_streamStartPts w) w x)) ps, w')"
    using Cons.IH [of ?w] Cons.prems by (simp add: whip_buffer_def)
  ultimately show ?case using x by auto
qed simp

lemma uint_diff_i64:
  fixes a b :: i64
  assumes "0 \<le> sint b" "sint b \<le> sint a"
  shows "uint (a - b) = sint a - sint b"
proof -
  have u: "uint c = sint c" if "0 \<le> sint c" for c :: i64
    using that sint_lt [of c] by (simp add: uint_sint take_bit_int_eq_self)
  have "uint a = sint a" "uint b = sint b" using assms by (auto intro: u)
  with assms show ?thesis by (simp add: uint_sub_if')
qed

text \<open>C3: stream time starts at zero and keeps the packets' distances: pushing well-formed packets
  with non-negative time stamps to a running publisher that has pushed nothing yet never faults,
  gives every packet to the source in order with its bytes, stamps the first one 0 and each
  later one exactly its distance to the first, with the frame duration of the configured rate.\<close>

theorem whip_relative_pts:
  assumes "wp_running w" "wp_appsrc w = Some s" "s \<in> set (live (gh_ledger H))"
    and "wp_streamStartPts w = - 1" "\<forall>x \<in> set (x0 # ps). pushable x"
  shows "(\<exists>w'. pushPackets (x0 # ps) w H =
      Inr (map (\<lambda>x. Some (whip_buffer (pk_pts (packet_of x0)) w x)) (x0 # ps), w'))
    \<and> (\<forall>x \<in> set (x0 # ps). sint (pk_pts (packet_of x0)) \<le> sint (pk_pts (packet_of x)) \<longrightarrow>
      uint (gb_pts (whip_buffer (pk_pts (packet_of x0)) w x))
        = sint (pk_pts (packet_of x)) - sint (pk_pts (packet_of x0)))"
proof -
  obtain a p where x: "x0 = (a, p)" by fastforce
  with assms(5) obtain pk av where pk: "p = Some pk" "pk_packet pk = Some av" "0 \<le> sint (pk_pts pk)"
    by (auto split: option.splits)
  let ?w = "w\<lparr>wp_streamStartPts := pk_pts pk, wp_framerate := eff_framerate w,
              wp_frameCount := wp_frameCount w + 1\<rparr>"
  have "start_pts w pk = pk_pts pk" using assms(4) by (simp add: start_pts_def)
  then obtain errs where "pushPacket a p w H = Inr (Some (whip_buffer (pk_pts pk) w x0), errs, ?w)"
    using pushPacket_takes [OF assms(1) _ pk(2) assms(2,3), of a] assms(5) x pk
    by (auto simp: whip_buffer_def)
  moreover have "eff_framerate ?w = eff_framerate w" by (simp add: eff_framerate_def)
  then have "\<exists>w'. pushPackets ps ?w H = Inr (map (\<lambda>x. Some (whip_buffer (pk_pts pk) w x)) ps, w')"
    using pushPackets_started [of ?w ps s H] assms pk by (simp add: whip_buffer_def)
  ultimately have "\<exists>w'. pushPackets (x0 # ps) w H =
      Inr (map (\<lambda>x. Some (whip_buffer (pk_pts (packet_of x0)) w x)) (x0 # ps), w')"
    using x pk by auto
  moreover have "uint (gb_pts (whip_buffer (pk_pts (packet_of x0)) w y))
        = sint (pk_pts (packet_of y)) - sint (pk_pts (packet_of x0))"
    if "sint (pk_pts (packet_of x0)) \<le> sint (pk_pts (packet_of y))" for y
    using that uint_diff_i64 x pk by (simp add: whip_buffer_def Let_def)
  ultimately show ?thesis by blast
qed


text \<open>a missing plugin leaves a half-built publisher: when one of the four elements cannot be
  created, \<open>initialize\<close> reports \<open>ErrorPipelineFailed\<close> but keeps the empty pipeline, so a
  later \<open>start\<close> whose state change GStreamer accepts reports success and the publisher counts
  as running; and the elements that were created stay allocated after its destruction.\<close>

theorem whip_missing_element:
  assumes wf: "wf_ledger (gh_ledger H)" and p: "wl_pipeline a" and m: "\<not> has_elements a"
  shows "\<exists>w H1. whip_initialize a url key fr cb new_publisher H = Inr (NetErrorPipelineFailed, w, H1)
    \<and> (\<forall>ans. sa_set_playing ans = CHANGE_SUCCESS \<longrightarrow>
         (\<exists>w'. whip_start ans w = Inr (NetSuccess, [], w') \<and> wp_running w'))
    \<and> (\<exists>H2. whip_destroy eos w H1 = Inr H2 \<and> set (live (gh_ledger H)) \<subseteq> set (live (gh_ledger H2)) \<and>
         card (set (live (gh_ledger H2)) - set (live (gh_ledger H)))
           = length (filter id [wl_appsrc a, wl_h264parse a, wl_rtph264pay a, wl_whipsink a]))"
proof -
  let ?L = "gh_ledger H"
  obtain pi L1 where 1: "acquire ?L = (pi, L1)" by fastforce
  obtain s L2 where 2: "try_acquire (wl_appsrc a) L1 = (s, L2)" by fastforce
  obtain h L3 where 3: "try_acquire (wl_h264parse a) L2 = (h, L3)" by fastforce
  obtain y L4 where 4: "try_acquire (wl_rtph264pay a) L3 = (y, L4)" by fastforce
  obtain k L5 where 5: "try_acquire (wl_whipsink a) L4 = (k, L5)" by fastforce
  have some: "(s \<noteq> None) = wl_appsrc a" "(h \<noteq> None) = wl_h264parse a" "(y \<noteq> None) = wl_rtph264pay a"
    "(k \<noteq> None) = wl_whipsink a"
    using 2 3 4 5 by (auto simp: try_acquire_def split: if_splits prod.splits)
  let ?es = "opt_list k @ opt_list y @ opt_list h @ opt_list s"
  have g: "grows ?L (?es @ [pi]) L5"
    using grows_try_acquire [OF grows_try_acquire [OF grows_try_acquire [OF grows_try_acquire
      [OF grows_acquire [OF grows_refl [OF wf] 1] 2] 3] 4] 5] by simp
  define w where "w = new_publisher\<lparr>wp_whipUrl := url, wp_streamKey := key, wp_framerate := fr,
    wp_onError := cb, wp_pipeline := Some pi, wp_state := GST_NULL, wp_appsrc := s\<rparr>"
  define H1 where "H1 = H\<lparr>gh_children := (gh_children H)(pi := []), gh_ledger := L5\<rparr>"
  have "s = None \<or> h = None \<or> y = None \<or> k = None" using m some by (auto simp: has_elements_def)
  then have i: "whip_initialize a url key fr cb new_publisher H = Inr (NetErrorPipelineFailed, w, H1)"
    using p by (simp add: whip_initialize_def try_acquire_True 1 2 3 4 5 w_def H1_def Let_def)
  have w: "wp_pipeline w = Some pi" "\<not> wp_running w" by (simp_all add: w_def new_publisher_def)
  obtain L6 where r: "release_all [pi] L5 = Inr L6" and g6: "grows ?L ?es L6"
    using grows_release [of ?L ?es "[pi]" "[]" L5] g by auto
  have "whip_destroy eos w H1 = Inr (H1\<lparr>gh_ledger := L6\<rparr>)"
    using w r by (simp add: whip_destroy_def unref_bin_def H1_def)
  moreover have "set (live L6) - set (live ?L) = set ?es" "distinct ?es" "set (live ?L) \<subseteq> set (live L6)"
    using g6 by (auto simp: grows_def)
  then have "card (set (live L6) - set (live ?L)) = length ?es"
    by (simp add: distinct_card del: set_append)
  moreover have "length ?es = length (filter id [wl_appsrc a, wl_h264parse a, wl_rtph264pay a, wl_whipsink a])"
    using some by (cases s; cases h; cases y; cases k) simp_all
  moreover have "\<exists>w'. whip_start ans w = Inr (NetSuccess, [], w') \<and> wp_running w'"
    if "sa_set_playing ans = CHANGE_SUCCESS" for ans
    using that w by (simp add: whip_start_def)
  ultimately show ?thesis using i \<open>set (live ?L) \<subseteq> set (live L6)\<close>
    by (intro exI [of _ w] exI [of _ H1]) simp
qed

text \<open>initialising a running publisher again is unsafe: the old pipeline is overwritten
  without being stopped, and when the new one does not link, \<open>appsrc_\<close> still points into the
  pipeline that was freed while \<open>running_\<close> is true, so the next packet uses freed memory.\<close>

theorem whip_reinitialize_running_faults:
  assumes wf: "wf_ledger (gh_ledger H)" and "wp_running w" "wl_pipeline a" "has_elements a" "\<not> wl_link_many a"
    and "pushable (b, Some pk)"
  shows "\<exists>w' H'. whip_initialize a url key fr cb w H = Inr (NetErrorPipelineFailed, w', H')
    \<and> set (live (gh_ledger H')) = set (live (gh_ledger H)) \<and> wp_running w'
    \<and> pushPacket b (Some pk) w' H' = Inl UseAfterFree"
proof -
  let ?L = "gh_ledger H"
  obtain p s h y k L' where g: "grows ?L [p, s, h, y, k] L'"
    and eq: "whip_initialize a url key fr cb w H = whip_link a
      (w\<lparr>wp_whipUrl := url, wp_streamKey := key, wp_framerate := fr, wp_onError := cb,
         wp_pipeline := Some p, wp_state := GST_NULL, wp_appsrc := Some s\<rparr>) p
      \<lparr>gh_ledger = L', gh_children = (gh_children H)(p := [s, h, y, k])\<rparr>"
      (is "_ = whip_link a ?w p ?H")
    using whip_initialize_builds [OF wf assms(3,4), of url key fr cb w] by blast
  have "grows ?L (p # gh_children ?H p) (gh_ledger ?H)" using g by simp
  from whip_abandon_grows [OF this, of ?w] obtain H' where
    i: "whip_initialize a url key fr cb w H = Inr (NetErrorPipelineFailed, ?w\<lparr>wp_pipeline := None\<rparr>, H')"
    and g': "grows ?L [] (gh_ledger H')" using eq assms(5) by (auto simp: whip_link_def)
  have "s \<notin> set (live (gh_ledger H'))" using g g' by (auto simp: grows_def)
  then have "pushPacket b (Some pk) (?w\<lparr>wp_pipeline := None\<rparr>) H' = Inl UseAfterFree"
    using pushPacket_dangling [of "?w\<lparr>wp_pipeline := None\<rparr>" b pk s H'] assms(2,6) by simp
  with i g' assms(2) show ?thesis by (simp add: grows_def)
qed

text \<open>stopping is final until the next \<open>initialize\<close>: \<open>stop\<close> of a running publisher that
  owns its pipeline succeeds (whether or not the end of stream came back), clears the stream's
  time origin, and from then on \<open>start\<close> and \<open>stop\<close> report \<open>ErrorNotInitialized\<close>, pushed
  packets are dropped, and the publisher keeps no GStreamer object.\<close>

theorem whip_stop_final:
  assumes "whip_owns L w H" "wp_running w"
  shows "\<exists>w' H'. whip_stop eos w H = Inr (NetSuccess, w', H') \<and> wp_streamStartPts w' = - 1
    \<and> whip_start a w' = Inr (NetErrorNotInitialized, [], w')
    \<and> whip_stop eos' w' H' = Inr (NetErrorNotInitialized, w', H')
    \<and> pushPacket b pk w' H' = Inr (None, [], w')
    \<and> set (live (gh_ledger H')) = set (live L)"
proof -
  obtain r w' H' where st: "whip_stop eos w H = Inr (r, w', H')" and o: "whip_owns L w' H'"
    and n: "\<not> wp_running w'" "wp_pipeline w' = None"
    using whip_stop_owns [OF assms(1), of eos] assms(2) by blast
  from st assms have "r = NetSuccess" "wp_streamStartPts w' = - 1"
    by (auto simp: whip_stop_def whip_owns_def split: option.splits)
  with st o n show ?thesis
    by (simp add: whip_start_def whip_stop_def pushPacket_def whip_owns_def grows_def)
qed

text \<open>the time origin is only kept once it is not negative: while packets carry negative time
  stamps, every one of them restarts the stream's time, and all are stamped 0.\<close>

theorem whip_negative_pts_collapse:
  assumes "wp_running w" "wp_appsrc w = Some s" "s \<in> set (live (gh_ledger H))"
    and "sint (wp_streamStartPts w) < 0" "pu_alloc a" "pu_map a" "sint (pk_pts pk) < 0"
    and "pk_packet pk = Some av" "0 \<le> sint (ap_size av)" "sint (ap_size av) \<le> int (length (ap_data av))"
  shows "\<exists>b errs w'. pushPacket a (Some pk) w H = Inr (Some b, errs, w') \<and> gb_pts b = 0
    \<and> sint (wp_streamStartPts w') < 0"
  using assms by (simp add: pushPacket_def i64_sub_self Let_def)

section \<open>Publisher witnesses\<close>

definition all_ok :: whip_lib where
  "all_ok = \<lparr>wl_pipeline = True, wl_appsrc = True, wl_h264parse = True, wl_rtph264pay = True,
     wl_whipsink = True, wl_link_many = True, wl_request_pad = True, wl_pad_link = True\<rparr>"

definition empty_heap :: gst_heap where
  "empty_heap = \<lparr>gh_ledger = \<lparr>next_handle = 0, live = []\<rparr>, gh_children = (\<lambda>_. [])\<rparr>"

definition demo_push :: push_answers where
  "demo_push = \<lparr>pu_alloc = True, pu_map = True, pu_flow_ok = True\<rparr>"

definition demo_packet :: "i64 \<Rightarrow> Packet" where
  "demo_packet t = \<lparr>pk_packet = Some \<lparr>ap_pts = t, ap_dts = t, ap_size = 2, ap_flags = 0,
     ap_data = [1, 2, 3]\<rparr>, pk_pts = t, pk_dts = t, pk_size = 2, pk_isKeyframe = True\<rparr>"

definition demo_start :: start_answers where
  "demo_start = \<lparr>sa_set_playing = CHANGE_SUCCESS, sa_failed_state = GST_NULL,
     sa_waited = CHANGE_SUCCESS, sa_pop = (\<lambda>_. None)\<rparr>"

definition demo_publisher :: publisher where
  "demo_publisher = new_publisher\<lparr>wp_running := True, wp_pipeline := Some 0, wp_appsrc := Some 1\<rparr>"

definition demo_heap :: gst_heap where
  "demo_heap = \<lparr>gh_ledger = \<lparr>next_handle = 2, live = [1, 0]\<rparr>, gh_children = (\<lambda>_. [])(0 := [1])\<rparr>"

lemma demo_pushable: "t \<in> {0, 1000, 34000} \<Longrightarrow> pushable (demo_push, Some (demo_packet t))"
  by (auto simp: demo_push_def demo_packet_def)

lemma empty_heap_wf: "wf_ledger (gh_ledger empty_heap)"
  by (simp add: empty_heap_def wf_ledger_def)


theorem whip_relative_pts_witness:
  "\<exists>w'. pushPackets [(demo_push, Some (demo_packet 1000)), (demo_push, Some (demo_packet 34000))]
      demo_publisher demo_heap = Inr ([Some \<lparr>gb_data = [1, 2], gb_pts = 0, gb_duration = 16666666\<rparr>,
        Some \<lparr>gb_data = [1, 2], gb_pts = 33000, gb_duration = 16666666\<rparr>], w')"
proof -
  have "wp_running demo_publisher" "wp_appsrc demo_publisher = Some 1" "1 \<in> set (live (gh_ledger demo_heap))"
    "wp_streamStartPts demo_publisher = - 1"
    by (simp_all add: demo_publisher_def new_publisher_def demo_heap_def)
  moreover have "\<forall>x \<in> set [(demo_push, Some (demo_packet 1000)), (demo_push, Some (demo_packet 34000))]. pushable x"
    by (simp add: demo_pushable del: pushable.simps)
  ultimately have "\<exists>w'. pushPackets [(demo_push, Some (demo_packet 1000)), (demo_push, Some (demo_packet 34000))]
      demo_publisher demo_heap = Inr (map (\<lambda>x. Some (whip_buffer (pk_pts (packet_of (demo_push, Some (demo_packet 1000))))
        demo_publisher x)) [(demo_push, Some (demo_packet 1000)), (demo_push, Some (demo_packet 34000))], w')"
    by (rule whip_relative_pts [THEN conjunct1])
  moreover have "whip_buffer 1000 demo_publisher (demo_push, Some (demo_packet t))
      = \<lparr>gb_data = [1, 2], gb_pts = t - 1000, gb_duration = 16666666\<rparr>" for t
    by (simp add: whip_buffer_def demo_packet_def demo_publisher_def new_publisher_def eff_framerate_def GST_SECOND_def)
  ultimately show ?thesis by (simp add: demo_packet_def)
qed

theorem whip_missing_element_witness:
  "\<exists>w H1. whip_initialize (all_ok\<lparr>wl_whipsink := False\<rparr>) ''u'' ''k'' 30 True new_publisher empty_heap
      = Inr (NetErrorPipelineFailed, w, H1) \<and> (\<exists>w'. whip_start demo_start w = Inr (NetSuccess, [], w') \<and> wp_running w')
      \<and> (\<exists>H2. whip_destroy True w H1 = Inr H2 \<and> card (set (live (gh_ledger H2))) = 3)"
proof -
  have "wl_pipeline (all_ok\<lparr>wl_whipsink := False\<rparr>)" "\<not> has_elements (all_ok\<lparr>wl_whipsink := False\<rparr>)"
    "sa_set_playing demo_start = CHANGE_SUCCESS"
    "length (filter id [wl_appsrc (all_ok\<lparr>wl_whipsink := False\<rparr>), wl_h264parse (all_ok\<lparr>wl_whipsink := False\<rparr>),
       wl_rtph264pay (all_ok\<lparr>wl_whipsink := False\<rparr>), wl_whipsink (all_ok\<lparr>wl_whipsink := False\<rparr>)]) = 3"
    "set (live (gh_ledger empty_heap)) = {}"
    by (simp_all add: all_ok_def has_elements_def demo_start_def empty_heap_def)
  with whip_missing_element [OF empty_heap_wf this(1,2), of "''u''" "''k''" 30 True True]
  show ?thesis by (metis Diff_empty)
qed

theorem whip_reinitialize_running_faults_witness:
  "\<exists>w' H'. whip_initialize (all_ok\<lparr>wl_link_many := False\<rparr>) ''u'' ''k'' 30 True demo_publisher demo_heap
      = Inr (NetErrorPipelineFailed, w', H') \<and> pushPacket demo_push (Some (demo_packet 0)) w' H' = Inl UseAfterFree"
proof -
  have "wf_ledger (gh_ledger demo_heap)" "wp_running demo_publisher" "wl_pipeline (all_ok\<lparr>wl_link_many := False\<rparr>)"
    "has_elements (all_ok\<lparr>wl_link_many := False\<rparr>)" "\<not> wl_link_many (all_ok\<lparr>wl_link_many := False\<rparr>)"
    by (simp_all add: demo_heap_def wf_ledger_def demo_publisher_def all_ok_def has_elements_def)
  from whip_reinitialize_running_faults [OF this demo_pushable [of 0], of "''u''" "''k''" 30 True]
  show ?thesis by blast
qed

theorem whip_stop_final_witness:
  "\<exists>w' H'. whip_stop False demo_publisher demo_heap = Inr (NetSuccess, w', H')
     \<and> whip_start demo_start w' = Inr (NetErrorNotInitialized, [], w') \<and> set (live (gh_ledger H')) = {}"
proof -
  have "whip_owns \<lparr>next_handle = 0, live = []\<rparr> demo_publisher demo_heap"
    by (auto simp: whip_owns_def demo_publisher_def demo_heap_def grows_def wf_ledger_def)
  from whip_stop_final [OF this, of False demo_start True demo_push None] show ?thesis
    by (auto simp: demo_publisher_def)
qed

theorem whip_negative_pts_collapse_witness:
  "\<exists>b errs w'. pushPacket demo_push (Some (demo_packet (- 5))) demo_publisher demo_heap = Inr (Some b, errs, w')
     \<and> gb_pts b = 0"
proof -
  have "wp_running demo_publisher" "wp_appsrc demo_publisher = Some 1" "1 \<in> set (live (gh_ledger demo_heap))"
    "sint (wp_streamStartPts demo_publisher) < 0" "pu_alloc demo_push" "pu_map demo_push"
    "sint (pk_pts (demo_packet (- 5))) < 0"
    by (simp_all add: demo_publisher_def new_publisher_def demo_heap_def demo_push_def demo_packet_def)
  from whip_negative_pts_collapse [OF this, of "the (pk_packet (demo_packet (- 5)))"] show ?thesis
    by (auto simp: demo_packet_def)
qed

end
