(* ===== verification/Camera_Session.thy ===== *)
theory Camera_Session
  imports Video_Pipeline Whip_Publisher
begin

text \<open>
  \<open>client/src/session/camera_session.cpp\<close>: the operator's session, which builds the video
  pipeline and the WHIP publisher, starts the publisher and then the pipeline, and connects
  the encoder's packets to the publisher and the publisher's key frame requests to the
  encoder. FFmpeg and camera objects are in one ledger, the publisher's GStreamer objects in
  another.
\<close>

section \<open>State and configuration\<close>

record 'c session =
  cs_pipeline :: "'c pipeline"
  cs_ledger :: ledger
  cs_whip :: publisher
  cs_heap :: gst_heap
  cs_isRunning :: bool

definition new_session :: "ledger \<Rightarrow> gst_heap \<Rightarrow> 'c session" where
  "new_session L H = \<lparr>cs_pipeline = new_pipeline, cs_ledger = L, cs_whip = new_publisher, cs_heap = H,
     cs_isRunning = False\<rparr>"

definition session_CaptureConfig :: CaptureConfig where
  "session_CaptureConfig = default_CaptureConfig\<lparr>cc_devicePath := ''/dev/video0'', cc_inputFormat := ''v4l2'',
     cc_pixelFormat := ''mjpeg'', cc_width := 1280, cc_height := 720, cc_framerate := 30\<rparr>"

definition session_EncoderConfig :: EncoderConfig where
  "session_EncoderConfig = default_EncoderConfig\<lparr>ec_width := cc_width session_CaptureConfig,
     ec_height := cc_height session_CaptureConfig, ec_framerate := cc_framerate session_CaptureConfig,
     ec_bitrate := 4000000, ec_preset := UltraFast\<rparr>"

text \<open>Everything the libraries answer during one \<open>start\<close>, and the scheduler's choice for a stop.\<close>

record 'c session_env =
  se_gst :: "string \<Rightarrow> gst_probe"
  se_pipewire :: bool
  se_av :: "'c av_lib"
  se_whip :: whip_lib
  se_start :: start_answers
  se_play :: play_answers
  se_now :: rat
  se_push :: push_answers
  se_eos :: bool
  se_left :: nat

section \<open>Operations\<close>

text \<open>The pipeline's packet callback: every packet goes to \<open>pushPacket\<close>.\<close>

definition push_out :: "'c session_env \<Rightarrow> Packet list \<Rightarrow> publisher \<Rightarrow> gst_heap \<Rightarrow> (gst_buffer option list \<times> publisher) run" where
  "push_out env out w H = pushPackets (map (\<lambda>p. (se_push env, Some p)) out) w H"

text \<open>\<open>start\<close>, from its last part to its first: the two starts, the publisher, the pipeline.\<close>

definition cs_launch :: "'c session_env \<Rightarrow> 'c session \<Rightarrow> (bool \<times> 'c session) run" where
  "cs_launch env s =
     andThen (whip_start (se_start env) (setKeyframeRequestCallback True (cs_whip s)))
       (\<lambda>(publisherResult, _, w). let s = s\<lparr>cs_whip := w\<rparr> in
         if publisherResult \<noteq> NetSuccess
         then andThen (vp_stop (se_av env) (se_left env) (cs_pipeline s) (cs_ledger s))
           (\<lambda>(_, out, vp, L). andThen (push_out env out (cs_whip s) (cs_heap s))
           (\<lambda>(_, w). Inr (False, s\<lparr>cs_pipeline := vp, cs_ledger := L, cs_whip := w\<rparr>)))
         else (case vp_start (se_av env) (se_play env) (se_now env) True (cs_pipeline s) (cs_ledger s) of
           (pipelineResult, vp, L) \<Rightarrow> let s = s\<lparr>cs_pipeline := vp, cs_ledger := L\<rparr> in
             if pipelineResult \<noteq> Success
             then andThen (whip_stop (se_eos env) (cs_whip s) (cs_heap s))
               (\<lambda>(_, w, H). Inr (False, s\<lparr>cs_whip := w, cs_heap := H\<rparr>))
             else Inr (True, s\<lparr>cs_isRunning := True\<rparr>)))"

definition cs_publish :: "'c session_env \<Rightarrow> string \<Rightarrow> string \<Rightarrow> 'c session \<Rightarrow> (bool \<times> 'c session) run" where
  "cs_publish env whipUrl streamKey s =
     andThen (whip_initialize (se_whip env) whipUrl streamKey (ec_framerate session_EncoderConfig)
         True (cs_whip s) (cs_heap s))
       (\<lambda>(whipPublisherResult, w, H). let s = s\<lparr>cs_whip := w, cs_heap := H\<rparr> in
         if whipPublisherResult \<noteq> NetSuccess then Inr (False, s) else cs_launch env s)"

definition cs_start :: "'c session_env \<Rightarrow> string \<Rightarrow> string \<Rightarrow> 'c session \<Rightarrow> (bool \<times> 'c session) run" where
  "cs_start env whipUrl streamKey s =
     (if cs_isRunning s then Inr (False, s)
      else andThen (vp_initialize (se_gst env) (se_pipewire env) (se_av env) session_CaptureConfig
          session_EncoderConfig (cs_pipeline s) (cs_ledger s))
        (\<lambda>(startResult, out, vp, L). andThen (push_out env out (cs_whip s) (cs_heap s))
        (\<lambda>(_, w). let s = s\<lparr>cs_pipeline := vp, cs_ledger := L, cs_whip := w\<rparr> in
          if startResult \<noteq> Success then Inr (False, s) else cs_publish env whipUrl streamKey s)))"

definition cs_stop :: "'c session_env \<Rightarrow> 'c session \<Rightarrow> 'c session run" where
  "cs_stop env s =
     (if \<not> cs_isRunning s then Inr s
      else andThen (vp_stop (se_av env) (se_left env) (cs_pipeline s) (cs_ledger s))
        (\<lambda>(_, out, vp, L). andThen (push_out env out (cs_whip s) (cs_heap s))
        (\<lambda>(_, w). andThen (whip_stop (se_eos env) w (cs_heap s))
        (\<lambda>(_, w, H). Inr (s\<lparr>cs_pipeline := vp, cs_ledger := L, cs_whip := w, cs_heap := H,
            cs_isRunning := False\<rparr>)))))"

definition cs_setPreviewCallback :: "bool \<Rightarrow> 'c session \<Rightarrow> 'c session" where
  "cs_setPreviewCallback cb s = s\<lparr>cs_pipeline := setPreviewCallback cb (cs_pipeline s)\<rparr>"

text \<open>A key frame request from the network: the pad probe, the publisher's callback, the encoder.\<close>

definition cs_force_key_unit :: "'c session \<Rightarrow> 'c session" where
  "cs_force_key_unit s =
     (if whip_upstream_probe (cs_whip s) True
      then s\<lparr>cs_pipeline := vp_requestKeyframe (cs_pipeline s)\<rparr> else s)"

text \<open>One pass of the encode thread, with the packets it produces going to the publisher.\<close>

definition cs_encode :: "'c session_env \<Rightarrow> 'c session \<Rightarrow> (gst_buffer option list \<times> 'c session) run" where
  "cs_encode env s =
     andThen (encode_next (se_av env) (cs_pipeline s))
       (\<lambda>(out, vp). andThen (push_out env out (cs_whip s) (cs_heap s))
       (\<lambda>(bs, w). Inr (bs, s\<lparr>cs_pipeline := vp, cs_whip := w\<rparr>)))"

section \<open>What the parts keep\<close>

lemma pushPacket_keeps:
  assumes "pushPacket a p w H = Inr (b, errs, w')"
  shows "wp_running w' = wp_running w \<and> wp_pipeline w' = wp_pipeline w \<and> wp_appsrc w' = wp_appsrc w
    \<and> wp_forceKeyframe w' = wp_forceKeyframe w"
  using assms by (auto simp: pushPacket_def Let_def split: if_splits option.splits)

lemma pushPackets_keeps:
  "pushPackets ps w H = Inr (bs, w') \<Longrightarrow> wp_running w' = wp_running w \<and> wp_pipeline w' = wp_pipeline w
    \<and> wp_appsrc w' = wp_appsrc w \<and> wp_forceKeyframe w' = wp_forceKeyframe w"
proof (induction ps arbitrary: w bs)
  case (Cons x ps)
  obtain a p where x: "x = (a, p)" by fastforce
  with Cons.prems obtain b errs w1 bs1 where 1: "pushPacket a p w H = Inr (b, errs, w1)"
    and "pushPackets ps w1 H = Inr (bs1, w')" by auto
  with Cons.IH [OF this(2)] pushPacket_keeps [OF 1] show ?case by simp
qed simp

lemma cam_initialize_idle:
  "cam_initialize gst pw cfg new_camera L = Inr (r, cam, L') \<Longrightarrow> \<not> cam_running cam"
  by (auto simp: cam_initialize_def buildPipeline_eq new_camera_def split: option.splits)

lemma replace_encoder_keeps:
  assumes "replace_encoder lib e vp L = Inr (out, vp', L')"
  shows "vp_capture vp' = vp_capture vp \<and> vp_encodeThread vp' = vp_encodeThread vp \<and> vp_encoder vp' = e"
proof (cases "vp_encoder vp")
  case None
  with assms show ?thesis by (auto simp: replace_encoder_def)
next
  case (Some old)
  with assms obtain ps where d: "deliver ps (vp\<lparr>vp_encoder := e\<rparr>) = (out, vp')"
    by (auto simp: replace_encoder_def case_prod_beta)
  from deliver_keeps [OF d] show ?thesis by simp
qed

lemma vp_initialize_idle:
  assumes "vp_initialize gst pw lib ccfg ecfg vp L = Inr (r, out, vp', L')"
  shows "vp_encodeThread vp' = vp_encodeThread vp \<and> (\<exists>cam. vp_capture vp' = Some cam \<and> \<not> cam_running cam)"
proof -
  obtain vp1 L1 cr cam L2 where 1: "replace_capture new_camera (vp\<lparr>vp_encoderConfig := ecfg\<rparr>) L = Inr (vp1, L1)"
    and 2: "cam_initialize gst pw ccfg new_camera L1 = Inr (cr, cam, L2)"
    and 3: "(if cr \<noteq> Success then Inr (cr, [], vp1\<lparr>vp_capture := Some cam\<rparr>, L2)
        else andThen (replace_encoder lib (createEncoder lib ecfg) (vp1\<lparr>vp_capture := Some cam\<rparr>) L2)
          (\<lambda>(out, vp, L). if vp_encoder vp = None then Inr (ErrorInitFailed, out, vp, L)
             else Inr (Success, out, vp, L))) = Inr (r, out, vp', L')"
    using assms by (auto simp: vp_initialize_def Let_def)
  have "vp_encodeThread vp1 = vp_encodeThread vp" using 1 by (auto simp: replace_capture_def)
  with 3 cam_initialize_idle [OF 2] show ?thesis
    by (auto split: if_splits dest!: replace_encoder_keeps)
qed

lemma vp_start_running:
  assumes "vp_start lib play now cb vp L = (r, vp', L')" "\<not> vp_encodeThread vp"
    and "vp_capture vp = Some cam" "\<not> cam_running cam"
  shows "vp_encodeThread vp' = (r = Success) \<and> (\<exists>cam. vp_capture vp' = Some cam \<and> cam_running cam = (r = Success))"
proof (cases "vp_encoder vp")
  case None
  with assms show ?thesis by (auto simp: vp_start_def)
next
  case (Some e)
  obtain er e1 L1 where i: "enc_initialize lib (vp_encoderConfig vp) True e L = (er, e1, L1)"
    by (metis prod_cases3)
  obtain cr cam1 where c: "cam_start play True cam = (cr, cam1)" by fastforce
  then have "cam_running cam1 = (cr = Success)"
    using assms(4) by (auto simp: cam_start_def Let_def split: if_splits)
  with assms Some i c show ?thesis
    by (auto simp: vp_start_def Let_def split: if_splits)
qed

lemma vp_stop_idle:
  assumes "vp_stop lib n vp L = Inr (r, out, vp', L')"
  shows "\<not> vp_encodeThread vp' \<and> (\<forall>cam. vp_capture vp' = Some cam \<longrightarrow> \<not> cam_running cam)"
proof -
  obtain o1 vp1 o2 where 1: "(if vp_encodeThread (stop_capture vp) then encode_some lib n (stop_capture vp)
      else Inr ([], stop_capture vp)) = Inr (o1, vp1)"
    and 2: "vp_finish lib vp1 L = Inr (o2, vp', L')"
    using assms by (auto simp: vp_stop_def Let_def)
  have "vp_capture vp1 = vp_capture (stop_capture vp)"
    using 1 by (auto split: if_splits dest: encode_some_capture)
  with vp_finish_keeps [OF 2] stop_capture_keeps(6) [of vp] show ?thesis by simp
qed

lemma whip_abandon_running:
  "whip_abandon w p H = Inr (r, w', H') \<Longrightarrow> wp_running w' = wp_running w \<and> r = NetErrorPipelineFailed"
  by (auto simp: whip_abandon_def)

lemma whip_link_running:
  "whip_link a w p H = Inr (r, w', H') \<Longrightarrow> wp_running w' = wp_running w"
  by (auto simp: whip_link_def transient_eq split: if_splits prod.splits dest!: whip_abandon_running)

lemma whip_initialize_running:
  "whip_initialize a url key fr cb w H = Inr (r, w', H') \<Longrightarrow> wp_running w' = wp_running w"
  by (auto simp: whip_initialize_def Let_def split: prod.splits option.splits if_splits dest!: whip_link_running)

section \<open>Start and stop\<close>

text \<open>Nothing runs: the state before a start, after a failed one, and after a stop.\<close>

definition quiet :: "'c session \<Rightarrow> bool" where
  "quiet s \<longleftrightarrow> \<not> cs_isRunning s \<and> \<not> wp_running (cs_whip s) \<and> \<not> vp_encodeThread (cs_pipeline s)
     \<and> (\<forall>cam. vp_capture (cs_pipeline s) = Some cam \<longrightarrow> \<not> cam_running cam)"

definition all_running :: "'c session \<Rightarrow> bool" where
  "all_running s \<longleftrightarrow> cs_isRunning s \<and> wp_running (cs_whip s) \<and> wp_pipeline (cs_whip s) \<noteq> None
     \<and> wp_forceKeyframe (cs_whip s) \<and> vp_encodeThread (cs_pipeline s)
     \<and> (\<exists>cam. vp_capture (cs_pipeline s) = Some cam \<and> cam_running cam)"

lemma whip_start_forceKeyframe:
  "whip_start a w = Inr (r, out, w') \<Longrightarrow> wp_forceKeyframe w' = wp_forceKeyframe w"
  by (auto simp: whip_start_def Let_def split: if_splits)

text \<open>The state in which a stage of \<open>start\<close> begins: a fresh pipeline, nothing running.\<close>

definition ready :: "'c session \<Rightarrow> bool" where
  "ready s \<longleftrightarrow> quiet s \<and> vp_capture (cs_pipeline s) \<noteq> None"

lemma cs_launch_atomic:
  assumes l: "cs_launch env s = Inr (b, s')" and r: "ready s"
  shows "if b then all_running s' else quiet s'"
proof -
  obtain r3 lg w3 where 3: "whip_start (se_start env) (setKeyframeRequestCallback True (cs_whip s)) = Inr (r3, lg, w3)"
    using l by (auto simp: cs_launch_def)
  have w3: "wp_running w3 = (r3 = NetSuccess)" "wp_forceKeyframe w3"
    using whip_start_running [OF 3] whip_start_forceKeyframe [OF 3] r
    by (auto simp: ready_def quiet_def setKeyframeRequestCallback_def)
  obtain cam where cam: "vp_capture (cs_pipeline s) = Some cam" "\<not> cam_running cam"
    using r by (auto simp: ready_def quiet_def)
  show ?thesis
  proof (cases "r3 = NetSuccess")
    case False
    with l 3 obtain r4 out4 vp4 L4 bs4 w4 where
      4: "vp_stop (se_av env) (se_left env) (cs_pipeline s) (cs_ledger s) = Inr (r4, out4, vp4, L4)"
      and 5: "push_out env out4 w3 (cs_heap s) = Inr (bs4, w4)"
      and s': "b = False" "s' = s\<lparr>cs_whip := w3, cs_pipeline := vp4, cs_ledger := L4, cs_whip := w4\<rparr>"
      by (auto simp: cs_launch_def Let_def)
    from vp_stop_idle [OF 4] pushPackets_keeps [OF 5 [unfolded push_out_def]] w3 False r
    show ?thesis unfolding s' by (simp add: quiet_def ready_def)
  next
    case True
    obtain r5 vp5 L5 where 5: "vp_start (se_av env) (se_play env) (se_now env) True (cs_pipeline s) (cs_ledger s)
        = (r5, vp5, L5)" by (metis prod_cases3)
    have v5: "vp_encodeThread vp5 = (r5 = Success)" "\<exists>cam. vp_capture vp5 = Some cam \<and> cam_running cam = (r5 = Success)"
      using vp_start_running [OF 5 _ cam] r by (auto simp: ready_def quiet_def)
    show ?thesis
    proof (cases "r5 = Success")
      case True
      with l 3 5 \<open>r3 = NetSuccess\<close> have "b = True"
        "s' = s\<lparr>cs_whip := w3, cs_pipeline := vp5, cs_ledger := L5, cs_isRunning := True\<rparr>"
        by (simp_all add: cs_launch_def Let_def)
      with v5 w3 \<open>r3 = NetSuccess\<close> True whip_start_running [OF 3] show ?thesis by (simp add: all_running_def)
    next
      case False
      with l 3 5 \<open>r3 = NetSuccess\<close> obtain r6 w6 H6 where 6: "whip_stop (se_eos env) w3 (cs_heap s) = Inr (r6, w6, H6)"
        and s': "b = False" "s' = s\<lparr>cs_whip := w3, cs_pipeline := vp5, cs_ledger := L5, cs_whip := w6, cs_heap := H6\<rparr>"
        by (auto simp: cs_launch_def Let_def)
      have "wp_pipeline w3 \<noteq> None" using whip_start_running [OF 3] \<open>r3 = NetSuccess\<close> by auto
      with whip_stop_not_running [OF 6] v5 False r show ?thesis unfolding s' by (auto simp: quiet_def ready_def)
    qed
  qed
qed

lemma cs_publish_atomic:
  assumes l: "cs_publish env url key s = Inr (b, s')" and r: "ready s"
  shows "if b then all_running s' else quiet s'"
proof -
  obtain r2 w2 H2 where 2: "whip_initialize (se_whip env) url key (ec_framerate session_EncoderConfig) True
      (cs_whip s) (cs_heap s) = Inr (r2, w2, H2)" using l by (auto simp: cs_publish_def)
  let ?s = "s\<lparr>cs_whip := w2, cs_heap := H2\<rparr>"
  have rd: "ready ?s" using whip_initialize_running [OF 2] r by (simp add: ready_def quiet_def)
  show ?thesis
  proof (cases "r2 = NetSuccess")
    case True
    with l 2 have "cs_launch env ?s = Inr (b, s')" by (simp add: cs_publish_def)
    then show ?thesis using rd by (rule cs_launch_atomic)
  next
    case False
    with l 2 have "b = False" "s' = ?s" by (simp_all add: cs_publish_def)
    with rd show ?thesis by (simp add: ready_def)
  qed
qed

lemma cs_start_outcome:
  assumes l: "cs_start env url key s = Inr (b, s')" and q: "quiet s"
  shows "if b then all_running s' else quiet s'"
proof -
  obtain r1 out vp1 L1 bs w1 where
    1: "vp_initialize (se_gst env) (se_pipewire env) (se_av env) session_CaptureConfig session_EncoderConfig
       (cs_pipeline s) (cs_ledger s) = Inr (r1, out, vp1, L1)"
    and p: "push_out env out (cs_whip s) (cs_heap s) = Inr (bs, w1)"
    using l q by (auto simp: cs_start_def quiet_def)
  let ?s = "s\<lparr>cs_pipeline := vp1, cs_ledger := L1, cs_whip := w1\<rparr>"
  have rd: "ready ?s"
    using vp_initialize_idle [OF 1] pushPackets_keeps [OF p [unfolded push_out_def]] q
    by (auto simp: ready_def quiet_def)
  have nr: "\<not> cs_isRunning s" using q by (simp add: quiet_def)
  show ?thesis
  proof (cases "r1 = Success")
    case True
    with l 1 p nr have "cs_publish env url key ?s = Inr (b, s')" by (simp add: cs_start_def)
    then show ?thesis using rd by (rule cs_publish_atomic)
  next
    case False
    with l 1 p nr have "b = False" "s' = ?s" by (simp_all add: cs_start_def)
    with rd show ?thesis by (simp add: ready_def)
  qed
qed

lemma cs_stop_quiet:
  assumes l: "cs_stop env s = Inr s'" and i: "all_running s \<or> quiet s"
  shows "quiet s'"
proof (cases "cs_isRunning s")
  case False
  with l i show ?thesis by (auto simp: cs_stop_def all_running_def)
next
  case True
  with l obtain r1 out vp L bs w r2 w2 H2 where
    1: "vp_stop (se_av env) (se_left env) (cs_pipeline s) (cs_ledger s) = Inr (r1, out, vp, L)"
    and 2: "push_out env out (cs_whip s) (cs_heap s) = Inr (bs, w)"
    and 3: "whip_stop (se_eos env) w (cs_heap s) = Inr (r2, w2, H2)"
    and s': "s' = s\<lparr>cs_pipeline := vp, cs_ledger := L, cs_whip := w2, cs_heap := H2, cs_isRunning := False\<rparr>"
    by (auto simp: cs_stop_def)
  have "wp_running w \<longrightarrow> wp_pipeline w \<noteq> None" 
    using pushPackets_keeps [OF 2 [unfolded push_out_def]] i by (auto simp: all_running_def quiet_def)
  with whip_stop_not_running [OF 3] vp_stop_idle [OF 1] show ?thesis unfolding s' by (simp add: quiet_def)
qed

definition cs_inv :: "'c session \<Rightarrow> bool" where
  "cs_inv s \<longleftrightarrow> all_running s \<or> quiet s"

definition cs_start_op :: "'c session_env \<times> string \<times> string \<Rightarrow> 'c session \<Rightarrow> (bool \<times> 'c session) run" where
  "cs_start_op e s = cs_start (fst e) (fst (snd e)) (snd (snd e)) s"

definition cs_stop_op :: "'c session_env \<times> string \<times> string \<Rightarrow> 'c session \<Rightarrow> (bool \<times> 'c session) run" where
  "cs_stop_op e s = andThen (cs_stop (fst e) s) (\<lambda>s. Inr (False, s))"

interpretation session_service: service cs_start_op cs_stop_op cs_isRunning cs_inv "\<lambda>b. b"
proof unfold_locales
  fix s s' :: "'a session" and e r
  assume i: "cs_inv s" and st: "cs_start_op e s = Inr (r, s')"
  have "cs_inv s' \<and> (cs_isRunning s' \<longleftrightarrow> cs_isRunning s \<or> r)"
  proof (cases "cs_isRunning s")
    case True
    with st i show ?thesis by (auto simp: cs_start_op_def cs_start_def)
  next
    case False
    with i have "quiet s" by (auto simp: cs_inv_def all_running_def)
    with st have o: "if r then all_running s' else quiet s'"
      unfolding cs_start_op_def by (rule cs_start_outcome)
    have "all_running s' \<Longrightarrow> cs_isRunning s'" "quiet s' \<Longrightarrow> \<not> cs_isRunning s'"
      by (simp_all add: all_running_def quiet_def)
    with o False show ?thesis by (cases r) (simp_all add: cs_inv_def)
  qed
  then show "cs_inv s'" "cs_isRunning s' \<longleftrightarrow> cs_isRunning s \<or> r" by auto
next
  fix s s' :: "'a session" and e r
  assume i: "cs_inv s" and st: "cs_stop_op e s = Inr (r, s')"
  from st have "cs_stop (fst e) s = Inr s'" by (auto simp: cs_stop_op_def)
  from cs_stop_quiet [OF this i [unfolded cs_inv_def]] have "quiet s'" .
  then show "cs_inv s'" "\<not> cs_isRunning s'" by (simp_all add: cs_inv_def quiet_def)
qed

section \<open>What a retry leaks\<close>

lemma push_out_owns:
  assumes "push_out env out w H = Inr (bs, w')" "whip_owns L w H"
  shows "whip_owns L w' H"
  using whip_owns_cong [OF assms(2)] pushPackets_keeps [OF assms(1) [unfolded push_out_def]] by simp

lemma cs_launch_owns:
  assumes l: "cs_launch env s = Inr (b, s')" and o: "whip_owns L (cs_whip s) (cs_heap s)"
  shows "whip_owns L (cs_whip s') (cs_heap s')"
proof -
  obtain r3 lg w3 where 3: "whip_start (se_start env) (setKeyframeRequestCallback True (cs_whip s)) = Inr (r3, lg, w3)"
    using l by (auto simp: cs_launch_def)
  have a3: "wp_appsrc w3 = wp_appsrc (cs_whip s)"
    using 3 by (auto simp: whip_start_def setKeyframeRequestCallback_def Let_def split: if_splits)
  have o3: "whip_owns L w3 (cs_heap s)"
    using whip_owns_cong [OF o, of w3] whip_start_running [OF 3] a3 o
    by (auto simp: setKeyframeRequestCallback_def)
  show ?thesis
  proof (cases "r3 = NetSuccess")
    case False
    with l 3 obtain out bs w4 vp L4 where "push_out env out w3 (cs_heap s) = Inr (bs, w4)"
      and "s' = s\<lparr>cs_whip := w3, cs_pipeline := vp, cs_ledger := L4, cs_whip := w4\<rparr>"
      by (auto simp: cs_launch_def Let_def)
    with push_out_owns [OF _ o3, of env out bs w4] show ?thesis by simp
  next
    case True
    obtain r5 vp5 L5 where 5: "vp_start (se_av env) (se_play env) (se_now env) True (cs_pipeline s) (cs_ledger s)
        = (r5, vp5, L5)" by (metis prod_cases3)
    show ?thesis
    proof (cases "r5 = Success")
      case True
      with l 3 5 o3 \<open>r3 = NetSuccess\<close> show ?thesis by (auto simp: cs_launch_def)
    next
      case False
      with l 3 5 \<open>r3 = NetSuccess\<close> obtain r6 w6 H6 where 6: "whip_stop (se_eos env) w3 (cs_heap s) = Inr (r6, w6, H6)"
        and "s' = s\<lparr>cs_whip := w3, cs_pipeline := vp5, cs_ledger := L5, cs_whip := w6, cs_heap := H6\<rparr>"
        by (auto simp: cs_launch_def Let_def)
      with whip_stop_owns [OF o3, of "se_eos env"] show ?thesis by auto
    qed
  qed
qed

lemma cs_start_owns:
  assumes l: "cs_start env url key s = Inr (b, s')" and q: "quiet s"
    and wf: "wf_ledger (gh_ledger (cs_heap s))" and el: "wl_pipeline (se_whip env) \<longrightarrow> has_elements (se_whip env)"
  shows "whip_owns (gh_ledger (cs_heap s)) (cs_whip s') (cs_heap s')
    \<or> cs_heap s' = cs_heap s \<and> wp_pipeline (cs_whip s') = wp_pipeline (cs_whip s)"
proof -
  obtain r1 out vp1 L1 bs w1 where
    1: "vp_initialize (se_gst env) (se_pipewire env) (se_av env) session_CaptureConfig session_EncoderConfig
       (cs_pipeline s) (cs_ledger s) = Inr (r1, out, vp1, L1)"
    and p: "push_out env out (cs_whip s) (cs_heap s) = Inr (bs, w1)"
    using l q by (auto simp: cs_start_def quiet_def)
  note w1 = pushPackets_keeps [OF p [unfolded push_out_def]]
  let ?s = "s\<lparr>cs_pipeline := vp1, cs_ledger := L1, cs_whip := w1\<rparr>"
  show ?thesis
  proof (cases "r1 = Success")
    case False
    with l 1 p q w1 show ?thesis by (auto simp: cs_start_def quiet_def)
  next
    case True
    with l 1 p q have pb: "cs_publish env url key ?s = Inr (b, s')" by (simp add: cs_start_def quiet_def)
    have "\<not> wp_running w1" using w1 q by (simp add: quiet_def)
    from whip_initialize_outcome [OF wf el this] obtain r2 w2 H2 where
      2: "whip_initialize (se_whip env) url key (ec_framerate session_EncoderConfig) True w1 (cs_heap s) = Inr (r2, w2, H2)"
      and o: "whip_owns (gh_ledger (cs_heap s)) w2 H2" by blast
    show ?thesis
    proof (cases "r2 = NetSuccess")
      case True
      with pb 2 have "cs_launch env (?s\<lparr>cs_whip := w2, cs_heap := H2\<rparr>) = Inr (b, s')" by (simp add: cs_publish_def)
      from cs_launch_owns [OF this] o show ?thesis by simp
    next
      case False
      with pb 2 o show ?thesis by (auto simp: cs_publish_def)
    qed
  qed
qed

section \<open>Properties of the session\<close>

text \<open>C4: a camera session runs entirely or not at all: after any history of starts and stops of a new
  session, \<open>isRunning_\<close> is what the last successful start or stop left, and it is true exactly
  when publisher, encode thread and camera all run with the key frame callback in place, and
  false exactly when none of them runs.\<close>

theorem session_all_or_nothing:
  fixes s :: "'c session"
  assumes "session_service.history ops (new_session L H) = Inr (rs, s)"
  shows "cs_isRunning s = session_service.up False (zip ops rs)
    \<and> (if cs_isRunning s then all_running s else quiet s)"
proof -
  have q: "quiet (new_session L H :: 'c session)"
    by (simp add: quiet_def new_session_def new_publisher_def new_pipeline_def)
  then have "cs_inv (new_session L H :: 'c session)" by (simp add: cs_inv_def)
  from session_service.history_running [OF this assms]
  have "cs_inv s" "cs_isRunning s = session_service.up False (zip ops rs)"
    by (simp_all add: new_session_def)
  then show ?thesis by (auto simp: cs_inv_def all_running_def quiet_def)
qed

text \<open>C39: a failed WHIP handshake followed by another attempt leaks a GStreamer pipeline: \<open>start\<close> leaves
  the publisher's pipeline in place when the publisher does not start, the next attempt
  overwrites it, and it survives even the destruction of the publisher.\<close>

theorem failed_handshake_then_retry_leaks:
  assumes wf: "wf_ledger (gh_ledger H)"
    and el: "wl_pipeline (se_whip env) \<longrightarrow> has_elements (se_whip env)" "wl_pipeline (se_whip env') \<longrightarrow> has_elements (se_whip env')"
    and 1: "cs_start env url key (new_session L H) = Inr (False, s1)" "wp_pipeline (cs_whip s1) = Some p"
    and 2: "cs_start env' url' key' s1 = Inr (b, s2)" "wp_pipeline (cs_whip s2) \<noteq> Some p"
  shows "p \<notin> set (live (gh_ledger H)) \<and>
    (\<exists>H'. whip_destroy eos (cs_whip s2) (cs_heap s2) = Inr H' \<and> p \<in> set (live (gh_ledger H')))"
proof -
  let ?s0 = "new_session L H"
  have q0: "quiet ?s0" by (simp add: quiet_def new_session_def new_publisher_def new_pipeline_def)
  have wf0: "wf_ledger (gh_ledger (cs_heap ?s0))" using wf by (simp add: new_session_def)
  have q1: "quiet s1" using cs_start_outcome [OF 1(1) q0] by simp
  have "wp_pipeline (cs_whip s1) \<noteq> wp_pipeline (cs_whip ?s0)"
    using 1(2) by (simp add: new_session_def new_publisher_def)
  with cs_start_owns [OF 1(1) q0 wf0 el(1)] have o1: "whip_owns (gh_ledger H) (cs_whip s1) (cs_heap s1)"
    by (auto simp: new_session_def)
  with 1(2) have p: "p \<notin> set (live (gh_ledger H))" "p \<in> set (live (gh_ledger (cs_heap s1)))"
    and wf1: "wf_ledger (gh_ledger (cs_heap s1))" by (auto simp: whip_owns_def grows_def)
  from cs_start_owns [OF 2(1) q1 wf1 el(2)] 1(2) 2(2)
  have "whip_owns (gh_ledger (cs_heap s1)) (cs_whip s2) (cs_heap s2)" by auto
  from whip_destroy_owns [OF this, of eos] p show ?thesis by auto
qed


section \<open>Session witnesses\<close>

definition demo_env :: "bool \<Rightarrow> state_change \<Rightarrow> av_packet list session_env" where
  "demo_env device handshake = \<lparr>se_gst = (\<lambda>c. (demo_probe True)\<lparr>gp_parse_error := \<not> device\<rparr>), se_pipewire = False,
     se_av = queue_lib, se_whip = all_ok,
     se_start = \<lparr>sa_set_playing = CHANGE_ASYNC, sa_failed_state = GST_NULL, sa_waited = handshake, sa_pop = (\<lambda>_. None)\<rparr>,
     se_play = demo_play, se_now = 0, se_push = demo_push, se_eos = True, se_left = 0\<rparr>"

abbreviation no_objects :: ledger where
  "no_objects \<equiv> \<lparr>next_handle = 0, live = []\<rparr>"

definition demo_first :: "state_change \<Rightarrow> (bool \<times> av_packet list session) run" where
  "demo_first handshake = cs_start (demo_env True handshake) ''u'' ''k'' (new_session no_objects empty_heap)"

definition demo_second :: "(bool \<times> av_packet list session) run" where
  "demo_second = andThen (demo_first CHANGE_ASYNC) (\<lambda>(b, s). cs_start (demo_env True CHANGE_SUCCESS) ''u'' ''k'' s)"

lemma demo_first_fails: "case demo_first CHANGE_ASYNC of Inr (b, s) \<Rightarrow> \<not> b \<and> wp_pipeline (cs_whip s) = Some 0 | _ \<Rightarrow> False"
  by code_simp

lemma demo_first_succeeds: "case demo_first CHANGE_SUCCESS of Inr (b, s) \<Rightarrow> b | _ \<Rightarrow> False"
  by code_simp

lemma demo_second_succeeds: "case demo_second of Inr (b, s) \<Rightarrow> b \<and> wp_pipeline (cs_whip s) \<noteq> Some 0 | _ \<Rightarrow> False"
  by code_simp

theorem session_all_or_nothing_witness:
  "\<exists>s. session_service.history [Start (demo_env True CHANGE_SUCCESS, ''u'', ''k'')] (new_session no_objects empty_heap)
     = Inr ([True], s) \<and> all_running s"
proof -
  obtain s where s: "demo_first CHANGE_SUCCESS = Inr (True, s)"
    using demo_first_succeeds by (auto split: sum.splits prod.splits)
  then have h: "session_service.history [Start (demo_env True CHANGE_SUCCESS, ''u'', ''k'')]
      (new_session no_objects empty_heap) = Inr ([True], s)"
    by (simp add: demo_first_def cs_start_op_def)
  from session_all_or_nothing [OF h] have "all_running s" by simp
  with h show ?thesis by blast
qed

theorem failed_handshake_then_retry_leaks_witness:
  "\<exists>s1 s2 H'. demo_first CHANGE_ASYNC = Inr (False, s1) \<and> demo_second = Inr (True, s2)
     \<and> whip_destroy True (cs_whip s2) (cs_heap s2) = Inr H' \<and> 0 \<in> set (live (gh_ledger H'))"
proof -
  obtain s1 where 1: "demo_first CHANGE_ASYNC = Inr (False, s1)" "wp_pipeline (cs_whip s1) = Some 0"
    using demo_first_fails by (auto split: sum.splits prod.splits)
  obtain s2 where 2: "demo_second = Inr (True, s2)" "wp_pipeline (cs_whip s2) \<noteq> Some 0"
    using demo_second_succeeds by (auto split: sum.splits prod.splits)
  have "wl_pipeline (se_whip (demo_env True h)) \<longrightarrow> has_elements (se_whip (demo_env True h))" for h
    by (simp add: demo_env_def all_ok_def has_elements_def)
  moreover have "cs_start (demo_env True CHANGE_SUCCESS) ''u'' ''k'' s1 = Inr (True, s2)"
    using 1 2 by (simp add: demo_second_def)
  ultimately show ?thesis
    using failed_handshake_then_retry_leaks [OF empty_heap_wf _ _ 1(1) [unfolded demo_first_def] 1(2) _ 2(2),
        of "demo_env True CHANGE_SUCCESS" "''u''" "''k''" True True] 1(1) 2(1) by blast
qed

text \<open>A running session with one frame queued, on a library whose packets are empty.\<close>

definition empty_packets :: "av_packet list session_env" where
  "empty_packets = (demo_env True CHANGE_SUCCESS)\<lparr>se_av := queue_lib\<lparr>lib_packet_clone := (\<lambda>p. Some (p\<lparr>ap_size := 0\<rparr>))\<rparr>\<rparr>"

definition demo_session :: "av_packet list session" where
  "demo_session = \<lparr>cs_pipeline = new_pipeline\<lparr>vp_queue := [demo_Frame 0], vp_encoder := Some (demo_encoder []),
       vp_packetCallback := True\<rparr>, cs_ledger = no_objects,
     cs_whip = demo_publisher\<lparr>wp_streamStartPts := 1000\<rparr>, cs_heap = demo_heap, cs_isRunning = True\<rparr>"

lemma demo_session_encodes:
  "case encode_next (se_av empty_packets) (cs_pipeline demo_session) of
     Inr (out, vp') \<Rightarrow> length out = 1 \<and> (\<forall>p \<in> set out. pushable (se_push empty_packets, Some p)) | _ \<Rightarrow> False"
  by code_simp


end
