(* ===== verification/Guarded_Calls.thy ===== *)
theory Guarded_Calls
  imports Prelude
begin

text \<open>
  Two calls on one object from two threads, kept apart by a plain flag: \<open>start\<close> asks the flag
  first and sets it last, \<open>stop\<close> asks it first and clears it last. This is how
  \<open>CameraSession\<close> is used: the controller runs \<open>start\<close> in a worker and \<open>stop\<close> on the user
  interface's thread. The theory has the calls stage by stage, their interleaving with each
  other and with background threads, and the proof that every interleaving is explained by whole
  calls.
\<close>

section \<open>Stages\<close>

text \<open>
  A stage of a start may end the call with a result; \<open>gd_go\<close> is the last one, which brings the
  background threads to life, and \<open>gd_halt\<close> the stage of a stop that ends them.
\<close>

record ('e, 'b, 's, 'r) guarded =
  gd_prepare :: "'e \<Rightarrow> ('s \<Rightarrow> ('r option \<times> 's) run) list"
  gd_go :: "'e \<Rightarrow> 's \<Rightarrow> ('r option \<times> 's) run"
  gd_halt :: "'e \<Rightarrow> 's \<Rightarrow> 's run"
  gd_rest :: "'e \<Rightarrow> ('s \<Rightarrow> 's run) list"
  gd_flag :: "'s \<Rightarrow> bool"
  gd_set :: "bool \<Rightarrow> 's \<Rightarrow> 's"
  gd_refused :: 'r
  gd_done :: 'r
  gd_enabled :: "'b \<Rightarrow> 's \<Rightarrow> bool"
  gd_thread :: "'b \<Rightarrow> 's \<Rightarrow> 's run"
  gd_live :: "'s \<Rightarrow> bool"

text \<open>The calls as a whole.\<close>

fun run_start :: "('e, 'b, 's, 'r) guarded \<Rightarrow> ('s \<Rightarrow> ('r option \<times> 's) run) list \<Rightarrow> 's \<Rightarrow> ('r \<times> 's) run" where
  "run_start g [] s = Inr (gd_done g, gd_set g True s)"
| "run_start g (f # fs) s =
     andThen (f s) (\<lambda>(r, s). case r of Some r \<Rightarrow> Inr (r, s) | None \<Rightarrow> run_start g fs s)"

fun run_stop :: "('e, 'b, 's, 'r) guarded \<Rightarrow> ('s \<Rightarrow> 's run) list \<Rightarrow> 's \<Rightarrow> 's run" where
  "run_stop g [] s = Inr (gd_set g False s)"
| "run_stop g (f # fs) s = andThen (f s) (run_stop g fs)"

definition whole_start :: "('e, 'b, 's, 'r) guarded \<Rightarrow> 'e \<Rightarrow> 's \<Rightarrow> ('r \<times> 's) run" where
  "whole_start g e s =
     (if gd_flag g s then Inr (gd_refused g, s) else run_start g (gd_prepare g e @ [gd_go g e]) s)"

definition whole_stop :: "('e, 'b, 's, 'r) guarded \<Rightarrow> 'e \<Rightarrow> 's \<Rightarrow> 's run" where
  "whole_stop g e s = (if gd_flag g s then run_stop g (gd_halt g e # gd_rest g e) s else Inr s)"

datatype ('e, 'b) whole_action = CallStart 'e | CallStop 'e | Background 'b

primrec whole_step :: "('e, 'b, 's, 'r) guarded \<Rightarrow> ('e, 'b) whole_action \<Rightarrow> 's \<Rightarrow> 's run option" where
  "whole_step g (CallStart e) s = Some (andThen (whole_start g e s) (\<lambda>(r, s). Inr s))"
| "whole_step g (CallStop e) s = Some (whole_stop g e s)"
| "whole_step g (Background b) s = (if gd_enabled g b s then Some (gd_thread g b s) else None)"

inductive whole_reach :: "('e, 'b, 's, 'r) guarded \<Rightarrow> 's \<Rightarrow> 's \<Rightarrow> bool" for g s0 where
  whole_init: "whole_reach g s0 s0"
| whole_next: "whole_reach g s0 s \<Longrightarrow> whole_step g a s = Some (Inr s') \<Longrightarrow> whole_reach g s0 s'"

section \<open>Interleaving\<close>

text \<open>
  The object with the stages the two threads still have to do. \<open>Some []\<close>: the flag is next. A
  worker starts only when the last one has finished.
\<close>

record ('s, 'r) calls =
  cl_state :: 's
  cl_start :: "('s \<Rightarrow> ('r option \<times> 's) run) list option"
  cl_stop :: "('s \<Rightarrow> 's run) list option"

definition no_calls :: "'s \<Rightarrow> ('s, 'r) calls" where
  "no_calls s = \<lparr>cl_state = s, cl_start = None, cl_stop = None\<rparr>"

datatype ('e, 'b) fine_action = BeginStart 'e | StartStage | BeginStop 'e | StopStage | ThreadStep 'b

primrec fine_step ::
  "('e, 'b, 's, 'r) guarded \<Rightarrow> ('e, 'b) fine_action \<Rightarrow> ('s, 'r) calls \<Rightarrow> ('s, 'r) calls run option" where
  "fine_step g (BeginStart e) c =
     (case cl_start c of
        Some fs \<Rightarrow> None
      | None \<Rightarrow> Some (Inr (if gd_flag g (cl_state c) then c
          else c\<lparr>cl_start := Some (gd_prepare g e @ [gd_go g e])\<rparr>)))"
| "fine_step g StartStage c =
     (case cl_start c of
        None \<Rightarrow> None
      | Some [] \<Rightarrow> Some (Inr (c\<lparr>cl_state := gd_set g True (cl_state c), cl_start := None\<rparr>))
      | Some (f # fs) \<Rightarrow> Some (andThen (f (cl_state c)) (\<lambda>(r, s).
          Inr (c\<lparr>cl_state := s, cl_start := (case r of Some r \<Rightarrow> None | None \<Rightarrow> Some fs)\<rparr>))))"
| "fine_step g (BeginStop e) c =
     (case cl_stop c of
        Some fs \<Rightarrow> None
      | None \<Rightarrow> Some (Inr (if gd_flag g (cl_state c)
          then c\<lparr>cl_stop := Some (gd_halt g e # gd_rest g e)\<rparr> else c)))"
| "fine_step g StopStage c =
     (case cl_stop c of
        None \<Rightarrow> None
      | Some [] \<Rightarrow> Some (Inr (c\<lparr>cl_state := gd_set g False (cl_state c), cl_stop := None\<rparr>))
      | Some (f # fs) \<Rightarrow> Some (andThen (f (cl_state c)) (\<lambda>s. Inr (c\<lparr>cl_state := s, cl_stop := Some fs\<rparr>))))"
| "fine_step g (ThreadStep b) c =
     (if gd_enabled g b (cl_state c)
      then Some (andThen (gd_thread g b (cl_state c)) (\<lambda>s. Inr (c\<lparr>cl_state := s\<rparr>))) else None)"

inductive fine_reach :: "('e, 'b, 's, 'r) guarded \<Rightarrow> 's \<Rightarrow> ('s, 'r) calls \<Rightarrow> bool" for g s0 where
  fine_init: "fine_reach g s0 (no_calls s0)"
| fine_next: "fine_reach g s0 c \<Longrightarrow> fine_step g a c = Some (Inr c') \<Longrightarrow> fine_reach g s0 c'"

declare whole_step.simps [simp del]

section \<open>The contract\<close>

text \<open>
  No stage touches the flag; the stages of a start leave the threads at rest unless the last one
  succeeds, those of a stop leave them at rest; and the threads neither read nor write the flag.
\<close>

locale guarded_object =
  fixes g :: "('e, 'b, 's, 'r) guarded"
  assumes flag_set [simp]: "gd_flag g (gd_set g b s) = b"
    and set_same: "gd_flag g s = b \<Longrightarrow> gd_set g b s = s"
    and set_set [simp]: "gd_set g b (gd_set g b' s) = gd_set g b s"
    and live_set [simp]: "gd_live g (gd_set g b s) = gd_live g s"
    and start_flag: "f \<in> set (gd_prepare g e @ [gd_go g e]) \<Longrightarrow> f s = Inr (r, s') \<Longrightarrow> gd_flag g s' = gd_flag g s"
    and prepare_rest: "f \<in> set (gd_prepare g e) \<Longrightarrow> \<not> gd_live g s \<Longrightarrow> f s = Inr (r, s') \<Longrightarrow> \<not> gd_live g s'"
    and go_rest: "\<not> gd_live g s \<Longrightarrow> gd_go g e s = Inr (Some res, s') \<Longrightarrow> \<not> gd_live g s'"
    and stop_flag: "h \<in> set (gd_halt g e # gd_rest g e) \<Longrightarrow> h s = Inr s' \<Longrightarrow> gd_flag g s' = gd_flag g s"
    and halt_rest: "gd_halt g e s = Inr s' \<Longrightarrow> \<not> gd_live g s'"
    and rest_rest: "h \<in> set (gd_rest g e) \<Longrightarrow> \<not> gd_live g s \<Longrightarrow> h s = Inr s' \<Longrightarrow> \<not> gd_live g s'"
    and enabled_live: "gd_enabled g k s \<Longrightarrow> gd_live g s"
    and enabled_set: "gd_enabled g k (gd_set g b s) = gd_enabled g k s"
    and thread_set: "gd_thread g k (gd_set g b s) = andThen (gd_thread g k s) (\<lambda>s. Inr (gd_set g b s))"
    and thread_flag: "gd_thread g k s = Inr s' \<Longrightarrow> gd_flag g s' = gd_flag g s"
begin

text \<open>
  What a whole-call state \<open>s\<close> has to do with an interleaved one. A start takes effect when its
  last stage succeeds, a stop when its flag is cleared; the calls in progress still have to do
  exactly what is missing.
\<close>

definition tail_of :: "'x list \<Rightarrow> 'x list \<Rightarrow> bool" where
  "tail_of xs ys \<longleftrightarrow> (\<exists>zs. ys = zs @ xs)"

definition at_rest :: "'s \<Rightarrow> ('s, 'r) calls \<Rightarrow> bool" where
  "at_rest s c \<longleftrightarrow> cl_start c = None \<and> cl_stop c = None \<and> cl_state c = s \<and> (gd_flag g s \<or> \<not> gd_live g s)"

definition starting :: "'s \<Rightarrow> ('s, 'r) calls \<Rightarrow> bool" where
  "starting s c \<longleftrightarrow> cl_stop c = None \<and> \<not> gd_flag g s \<and> \<not> gd_flag g (cl_state c) \<and> \<not> gd_live g (cl_state c)
     \<and> (\<exists>fs e. cl_start c = Some fs \<and> fs \<noteq> [] \<and> tail_of fs (gd_prepare g e @ [gd_go g e])
         \<and> run_start g fs (cl_state c) = run_start g (gd_prepare g e @ [gd_go g e]) s)"

definition started :: "'s \<Rightarrow> ('s, 'r) calls \<Rightarrow> bool" where
  "started s c \<longleftrightarrow> cl_stop c = None \<and> cl_start c = Some [] \<and> gd_flag g s \<and> cl_state c = gd_set g False s"

definition stopping :: "'s \<Rightarrow> ('s, 'r) calls \<Rightarrow> bool" where
  "stopping s c \<longleftrightarrow> cl_start c = None \<and> gd_flag g s
     \<and> (\<exists>e. cl_stop c = Some (gd_halt g e # gd_rest g e) \<and> cl_state c = s)"

definition stopped :: "'s \<Rightarrow> ('s, 'r) calls \<Rightarrow> bool" where
  "stopped s c \<longleftrightarrow> cl_start c = None \<and> gd_flag g s \<and> gd_flag g (cl_state c) \<and> \<not> gd_live g (cl_state c)
     \<and> (\<exists>fs e. cl_stop c = Some fs \<and> tail_of fs (gd_rest g e)
         \<and> run_stop g fs (cl_state c) = run_stop g (gd_halt g e # gd_rest g e) s)"

definition explains :: "'s \<Rightarrow> ('s, 'r) calls \<Rightarrow> bool" where
  "explains s c \<longleftrightarrow> at_rest s c \<or> starting s c \<or> started s c \<or> stopping s c \<or> stopped s c"

text \<open>What a step of the interleaving has to be answered with: at most one step of whole calls.\<close>

definition answered :: "'s \<Rightarrow> ('s, 'r) calls run \<Rightarrow> bool" where
  "answered s res \<longleftrightarrow>
     (case res of
        Inr c' \<Rightarrow> \<exists>s'. (s' = s \<or> (\<exists>a. whole_step g a s = Some (Inr s'))) \<and> explains s' c'
      | Inl x \<Rightarrow> \<exists>a. whole_step g a s = Some (Inl x))"

lemma answered_stay: "explains s c' \<Longrightarrow> answered s (Inr c')"
  by (auto simp: answered_def)

lemma answered_step: "whole_step g a s = Some (Inr s') \<Longrightarrow> explains s' c' \<Longrightarrow> answered s (Inr c')"
  by (auto simp: answered_def)

lemma answered_fault: "whole_step g a s = Some (Inl x) \<Longrightarrow> answered s (Inl x)"
  by (auto simp: answered_def)

lemma tail_Cons: "tail_of (x # xs) ys \<Longrightarrow> x \<in> set ys \<and> tail_of xs ys"
  by (auto simp: tail_of_def)

lemma tail_snoc: "tail_of (x # xs) (ys @ [y]) \<Longrightarrow> (xs = [] \<and> x = y) \<or> (xs \<noteq> [] \<and> x \<in> set ys)"
  by (cases xs rule: rev_cases) (auto simp: tail_of_def append_eq_append_conv2 append_eq_Cons_conv)

lemma step_at_rest:
  assumes "at_rest s c" "fine_step g a c = Some res"
  shows "answered s res"
proof (cases a)
  case (BeginStart e)
  show ?thesis
  proof (cases "gd_flag g s")
    case True
    with assms BeginStart show ?thesis by (auto simp: at_rest_def explains_def intro!: answered_stay)
  next
    case False
    let ?fs = "gd_prepare g e @ [gd_go g e]"
    have "starting s (c\<lparr>cl_start := Some ?fs\<rparr>)"
      using assms(1) False by (auto simp: at_rest_def starting_def tail_of_def)
    with assms BeginStart False show ?thesis by (auto simp: at_rest_def explains_def intro!: answered_stay)
  qed
next
  case (BeginStop e)
  show ?thesis
  proof (cases "gd_flag g s")
    case False
    with assms BeginStop show ?thesis by (auto simp: at_rest_def explains_def intro!: answered_stay)
  next
    case True
    have "stopping s (c\<lparr>cl_stop := Some (gd_halt g e # gd_rest g e)\<rparr>)"
      using assms(1) True by (auto simp: at_rest_def stopping_def)
    with assms BeginStop True show ?thesis by (auto simp: at_rest_def explains_def intro!: answered_stay)
  qed
next
  case (ThreadStep b)
  with assms have en: "gd_enabled g b s" and res: "res = andThen (gd_thread g b s) (\<lambda>s. Inr (c\<lparr>cl_state := s\<rparr>))"
    by (auto simp: at_rest_def split: if_splits)
  then have w: "whole_step g (Background b) s = Some (gd_thread g b s)" by (simp add: whole_step.simps)
  show ?thesis
  proof (cases "gd_thread g b s")
    case (Inl x)
    with w res show ?thesis by (auto intro: answered_fault)
  next
    case (Inr s')
    have "gd_flag g s" using assms(1) enabled_live [OF en] by (auto simp: at_rest_def)
    then have "at_rest s' (c\<lparr>cl_state := s'\<rparr>)"
      using assms(1) thread_flag [OF Inr] by (simp add: at_rest_def)
    with w res Inr show ?thesis by (auto simp: explains_def intro: answered_step)
  qed
qed (use assms in \<open>auto simp: at_rest_def\<close>)

lemma step_starting:
  assumes "starting s c" "fine_step g a c = Some res"
  shows "answered s res"
proof -
  from assms(1) obtain fs e where c: "cl_stop c = None" "\<not> gd_flag g s" "\<not> gd_flag g (cl_state c)"
      "\<not> gd_live g (cl_state c)" "cl_start c = Some fs" "fs \<noteq> []"
    and t: "tail_of fs (gd_prepare g e @ [gd_go g e])"
    and r: "run_start g fs (cl_state c) = run_start g (gd_prepare g e @ [gd_go g e]) s"
    by (auto simp: starting_def)
  have w: "whole_step g (CallStart e) s = Some (andThen (run_start g fs (cl_state c)) (\<lambda>(r, s). Inr s))"
    using c(2) r by (simp add: whole_start_def whole_step.simps)
  show ?thesis
  proof (cases a)
    case StartStage
    obtain f fs' where fs: "fs = f # fs'" using c(6) by (cases fs) auto
    with assms(2) StartStage c(5) have res: "res = andThen (f (cl_state c)) (\<lambda>(r, s).
        Inr (c\<lparr>cl_state := s, cl_start := (case r of Some r \<Rightarrow> None | None \<Rightarrow> Some fs')\<rparr>))" by simp
    show ?thesis
    proof (cases "f (cl_state c)")
      case (Inl x)
      have "whole_step g (CallStart e) s = Some (Inl x)" unfolding w fs using Inl by simp
      with res Inl show ?thesis by (simp add: answered_fault)
    next
      case (Inr q)
      obtain r1 s1 where q: "f (cl_state c) = Inr (r1, s1)" using Inr by (cases q) simp
      have "f \<in> set (gd_prepare g e @ [gd_go g e])" using tail_Cons [OF t [unfolded fs]] by blast
      from start_flag [OF this q] c(3) have fl: "\<not> gd_flag g s1" by simp
      have last: "fs' = [] \<and> f = gd_go g e \<or> fs' \<noteq> [] \<and> f \<in> set (gd_prepare g e)"
        using tail_snoc [OF t [unfolded fs]] by blast
      show ?thesis
      proof (cases r1)
        case (Some r)
        have "\<not> gd_live g s1" using last go_rest [OF c(4)] prepare_rest [OF _ c(4)] q Some by blast
        then have "at_rest s1 (c\<lparr>cl_state := s1, cl_start := None\<rparr>)" using c(1) by (simp add: at_rest_def)
        then have "explains s1 (c\<lparr>cl_state := s1, cl_start := None\<rparr>)" by (simp add: explains_def)
        moreover have "whole_step g (CallStart e) s = Some (Inr s1)" unfolding w fs using q Some by simp
        ultimately show ?thesis using res q Some by (simp add: answered_step)
      next
        case None
        show ?thesis
        proof (cases "fs' = []")
          case True
          have "started (gd_set g True s1) (c\<lparr>cl_state := s1, cl_start := Some []\<rparr>)"
            using c(1) fl set_same [of s1 False] by (simp add: started_def)
          then have "explains (gd_set g True s1) (c\<lparr>cl_state := s1, cl_start := Some []\<rparr>)"
            by (simp add: explains_def)
          moreover have "whole_step g (CallStart e) s = Some (Inr (gd_set g True s1))"
            unfolding w fs using q None True by simp
          ultimately show ?thesis using res q None True by (simp add: answered_step)
        next
          case False
          have "\<not> gd_live g s1" using last False prepare_rest [of f e "cl_state c" r1 s1] c(4) q by blast
          moreover have "run_start g fs' s1 = run_start g (gd_prepare g e @ [gd_go g e]) s"
            using r fs q None by simp
          moreover have "tail_of fs' (gd_prepare g e @ [gd_go g e])" using tail_Cons [OF t [unfolded fs]] by blast
          ultimately have "starting s (c\<lparr>cl_state := s1, cl_start := Some fs'\<rparr>)"
            using c(1,2) fl False by (auto simp: starting_def)
          then have "explains s (c\<lparr>cl_state := s1, cl_start := Some fs'\<rparr>)" by (simp add: explains_def)
          with res q None show ?thesis by (simp add: answered_stay)
        qed
      qed
    qed
  next
    case (ThreadStep b)
    with assms(2) c(4) enabled_live show ?thesis by (auto split: if_splits)
  next
    case (BeginStop e)
    with assms c(1,3) show ?thesis by (auto simp: explains_def intro!: answered_stay)
  qed (use assms(2) c in auto)
qed

lemma step_started:
  assumes "started s c" "fine_step g a c = Some res"
  shows "answered s res"
proof (cases a)
  case StartStage
  have "at_rest s (c\<lparr>cl_state := gd_set g True (cl_state c), cl_start := None\<rparr>)"
    using assms(1) set_same [of s True] by (simp add: at_rest_def started_def)
  with assms StartStage show ?thesis by (auto simp: started_def explains_def intro!: answered_stay)
next
  case (ThreadStep b)
  have c: "cl_state c = gd_set g False s" "gd_flag g s" using assms(1) by (simp_all add: started_def)
  with assms(2) ThreadStep have en: "gd_enabled g b s" and
    res: "res = andThen (gd_thread g b s) (\<lambda>s. Inr (c\<lparr>cl_state := gd_set g False s\<rparr>))"
    by (auto simp: enabled_set thread_set andThen_assoc split: if_splits)
  have w: "whole_step g (Background b) s = Some (gd_thread g b s)"
      using en by (simp add: whole_step.simps)
  show ?thesis
  proof (cases "gd_thread g b s")
    case (Inl x)
    with w res show ?thesis by (auto intro: answered_fault)
  next
    case (Inr s')
    have "started s' (c\<lparr>cl_state := gd_set g False s'\<rparr>)"
      using assms(1) c(2) thread_flag [OF Inr] by (simp add: started_def)
    with w res Inr show ?thesis by (auto simp: explains_def intro: answered_step)
  qed
next
  case (BeginStop e)
  with assms show ?thesis by (auto simp: started_def explains_def intro!: answered_stay)
qed (use assms in \<open>auto simp: started_def\<close>)

lemma step_stopping:
  assumes "stopping s c" "fine_step g a c = Some res"
  shows "answered s res"
proof -
  from assms(1) obtain e where c: "cl_start c = None" "gd_flag g s" "cl_state c = s"
      "cl_stop c = Some (gd_halt g e # gd_rest g e)" by (auto simp: stopping_def)
  show ?thesis
  proof (cases a)
    case StopStage
    with assms(2) c have res: "res = andThen (gd_halt g e s) (\<lambda>s. Inr (c\<lparr>cl_state := s, cl_stop := Some (gd_rest g e)\<rparr>))"
      by simp
    show ?thesis
    proof (cases "gd_halt g e s")
      case (Inl x)
      with c(2) have "whole_step g (CallStop e) s = Some (Inl x)"
        by (simp add: whole_stop_def whole_step.simps)
      with res Inl show ?thesis by (auto intro: answered_fault)
    next
      case (Inr s1)
      have "gd_flag g s1" using stop_flag [of "gd_halt g e" e s s1] Inr c(2) by simp
      then have "stopped s (c\<lparr>cl_state := s1, cl_stop := Some (gd_rest g e)\<rparr>)"
        using c halt_rest [OF Inr] Inr by (auto simp: stopped_def tail_of_def intro: exI [of _ e])
      with res Inr show ?thesis by (auto simp: explains_def intro: answered_stay)
    qed
  next
    case (ThreadStep b)
    with assms(2) c have en: "gd_enabled g b s"
      and res: "res = andThen (gd_thread g b s) (\<lambda>s. Inr (c\<lparr>cl_state := s\<rparr>))" by (auto split: if_splits)
    have w: "whole_step g (Background b) s = Some (gd_thread g b s)"
      using en by (simp add: whole_step.simps)
    show ?thesis
    proof (cases "gd_thread g b s")
      case (Inl x)
      with w res show ?thesis by (auto intro: answered_fault)
    next
      case (Inr s')
      have "stopping s' (c\<lparr>cl_state := s'\<rparr>)" using c thread_flag [OF Inr] by (auto simp: stopping_def)
      with w res Inr show ?thesis by (auto simp: explains_def intro: answered_step)
    qed
  next
    case (BeginStart e)
    with assms c show ?thesis by (auto simp: explains_def intro!: answered_stay)
  qed (use assms(2) c in auto)
qed

lemma step_stopped:
  assumes "stopped s c" "fine_step g a c = Some res"
  shows "answered s res"
proof -
  from assms(1) obtain fs e where c: "cl_start c = None" "gd_flag g s" "gd_flag g (cl_state c)"
      "\<not> gd_live g (cl_state c)" "cl_stop c = Some fs" "tail_of fs (gd_rest g e)"
    and r: "run_stop g fs (cl_state c) = run_stop g (gd_halt g e # gd_rest g e) s"
    by (auto simp: stopped_def)
  have w: "whole_step g (CallStop e) s = Some (run_stop g fs (cl_state c))"
    using c(2) r by (simp add: whole_stop_def whole_step.simps)
  show ?thesis
  proof (cases a)
    case StopStage
    show ?thesis
    proof (cases fs)
      case Nil
      have "at_rest (gd_set g False (cl_state c)) (c\<lparr>cl_state := gd_set g False (cl_state c), cl_stop := None\<rparr>)"
        using c(1,4) by (simp add: at_rest_def)
      then have "explains (gd_set g False (cl_state c)) (c\<lparr>cl_state := gd_set g False (cl_state c), cl_stop := None\<rparr>)"
        by (simp add: explains_def)
      moreover have "whole_step g (CallStop e) s = Some (Inr (gd_set g False (cl_state c)))" unfolding w Nil by simp
      ultimately show ?thesis using assms(2) StopStage c(5) Nil by (auto intro: answered_step)
    next
      case (Cons f fs')
      with assms(2) StopStage c(5) have res: "res = andThen (f (cl_state c)) (\<lambda>s. Inr (c\<lparr>cl_state := s, cl_stop := Some fs'\<rparr>))"
        by simp
      show ?thesis
      proof (cases "f (cl_state c)")
        case (Inl x)
        have "whole_step g (CallStop e) s = Some (Inl x)" unfolding w Cons using Inl by simp
        with res Inl show ?thesis by (simp add: answered_fault)
      next
        case (Inr s1)
        have f: "f \<in> set (gd_rest g e)" "tail_of fs' (gd_rest g e)" using tail_Cons [OF c(6) [unfolded Cons]] by blast+
        have "gd_flag g s1" "\<not> gd_live g s1" using stop_flag [of f e, OF _ Inr] f(1) c(3) rest_rest [OF f(1) c(4) Inr] by simp_all
        moreover have "run_stop g fs' s1 = run_stop g (gd_halt g e # gd_rest g e) s" using r Cons Inr by simp
        ultimately have "stopped s (c\<lparr>cl_state := s1, cl_stop := Some fs'\<rparr>)"
          using c(1,2) f(2) by (auto simp: stopped_def)
        then have "explains s (c\<lparr>cl_state := s1, cl_stop := Some fs'\<rparr>)" by (simp add: explains_def)
        with res Inr show ?thesis by (simp add: answered_stay)
      qed
    qed
  next
    case (ThreadStep b)
    with assms(2) c(4) enabled_live show ?thesis by (auto split: if_splits)
  next
    case (BeginStart e)
    with assms c show ?thesis by (auto simp: explains_def intro!: answered_stay)
  qed (use assms(2) c in auto)
qed

lemma step_explained:
  assumes "explains s c" "fine_step g a c = Some res"
  shows "answered s res"
  using assms step_at_rest step_starting step_started step_stopping step_stopped
  unfolding explains_def by blast

text \<open>Every interleaving is explained by whole calls, and so are its faults.\<close>

lemma fine_explained:
  assumes "fine_reach g s0 c" "\<not> gd_live g s0"
  shows "\<exists>s. whole_reach g s0 s \<and> explains s c"
  using assms(1)
proof (induction rule: fine_reach.induct)
  case fine_init
  have "at_rest s0 (no_calls s0)" using assms(2) by (simp add: at_rest_def no_calls_def)
  then show ?case by (auto simp: explains_def intro: whole_init)
next
  case (fine_next c a c')
  then obtain s where s: "whole_reach g s0 s" "explains s c" by blast
  from step_explained [OF s(2) fine_next.hyps(2)] obtain s' where
    "s' = s \<or> (\<exists>a. whole_step g a s = Some (Inr s'))" "explains s' c'" by (auto simp: answered_def)
  with s(1) show ?case by (auto intro: whole_next)
qed

lemma fine_at_rest:
  assumes "fine_reach g s0 c" "\<not> gd_live g s0" "cl_start c = None" "cl_stop c = None"
  shows "whole_reach g s0 (cl_state c)"
  using fine_explained [OF assms(1,2)] assms(3,4)
  by (auto simp: explains_def at_rest_def starting_def started_def stopping_def stopped_def)

lemma fine_exclusive:
  assumes "fine_reach g s0 c" "\<not> gd_live g s0"
  shows "cl_start c = None \<or> cl_stop c = None"
  using fine_explained [OF assms]
  by (auto simp: explains_def at_rest_def starting_def started_def stopping_def stopped_def)

lemma fine_fault:
  assumes "fine_reach g s0 c" "\<not> gd_live g s0" "fine_step g a c = Some (Inl x)"
  shows "\<exists>s b. whole_reach g s0 s \<and> whole_step g b s = Some (Inl x)"
proof -
  obtain s where s: "whole_reach g s0 s" "explains s c" using fine_explained [OF assms(1,2)] by blast
  from step_explained [OF s(2) assms(3)] s(1) show ?thesis by (auto simp: answered_def)
qed

end

end
