(* ===== verification/Session_Threads.thy ===== *)
theory Session_Threads
  imports Camera_Session Guarded_Calls
begin

text \<open>
  \<open>CameraSession::start\<close> in the controller's worker against \<open>CameraSession::stop\<close> on the user
  interface's thread (\<open>camera_session.cpp\<close>), stage by stage, while the capture and encode threads
  run. \<open>isRunning_\<close> is a plain \<open>bool\<close> that the two threads share; here its accesses are atomic
  steps. The interpretation of \<open>guarded_object\<close> shows that asking it first and setting it last
  is enough to keep the two bodies apart.
\<close>

section \<open>The stages of start\<close>

definition st_initialize :: "'c session_env \<Rightarrow> 'c session \<Rightarrow> (bool option \<times> 'c session) run" where
  "st_initialize env s =
     andThen (vp_initialize (se_gst env) (se_pipewire env) (se_av env) session_CaptureConfig
         session_EncoderConfig (cs_pipeline s) (cs_ledger s))
       (\<lambda>(startResult, out, vp, L). andThen (push_out env out (cs_whip s) (cs_heap s))
       (\<lambda>(_, w). Inr (if startResult \<noteq> Success then Some False else None,
           s\<lparr>cs_pipeline := vp, cs_ledger := L, cs_whip := w\<rparr>)))"

definition st_publish :: "'c session_env \<Rightarrow> string \<Rightarrow> string \<Rightarrow> 'c session \<Rightarrow> (bool option \<times> 'c session) run" where
  "st_publish env whipUrl streamKey s =
     andThen (whip_initialize (se_whip env) whipUrl streamKey (ec_framerate session_EncoderConfig)
         True (cs_whip s) (cs_heap s))
       (\<lambda>(whipPublisherResult, w, H). Inr (if whipPublisherResult \<noteq> NetSuccess then Some False else None,
           s\<lparr>cs_whip := w, cs_heap := H\<rparr>))"

definition st_whip_start :: "'c session_env \<Rightarrow> 'c session \<Rightarrow> (bool option \<times> 'c session) run" where
  "st_whip_start env s =
     andThen (whip_start (se_start env) (setKeyframeRequestCallback True (cs_whip s)))
       (\<lambda>(publisherResult, _, w). let s = s\<lparr>cs_whip := w\<rparr> in
         if publisherResult \<noteq> NetSuccess
         then andThen (vp_stop (se_av env) (se_left env) (cs_pipeline s) (cs_ledger s))
           (\<lambda>(_, out, vp, L). andThen (push_out env out (cs_whip s) (cs_heap s))
           (\<lambda>(_, w). Inr (Some False, s\<lparr>cs_pipeline := vp, cs_ledger := L, cs_whip := w\<rparr>)))
         else Inr (None, s))"

definition st_pipeline_start :: "'c session_env \<Rightarrow> 'c session \<Rightarrow> (bool option \<times> 'c session) run" where
  "st_pipeline_start env s =
     (case vp_start (se_av env) (se_play env) (se_now env) True (cs_pipeline s) (cs_ledger s) of
        (pipelineResult, vp, L) \<Rightarrow> let s = s\<lparr>cs_pipeline := vp, cs_ledger := L\<rparr> in
          if pipelineResult \<noteq> Success
          then andThen (whip_stop (se_eos env) (cs_whip s) (cs_heap s))
            (\<lambda>(_, w, H). Inr (Some False, s\<lparr>cs_whip := w, cs_heap := H\<rparr>))
          else Inr (None, s))"

section \<open>The stages of stop\<close>

definition sp_pipeline_stop :: "'c session_env \<Rightarrow> 'c session \<Rightarrow> 'c session run" where
  "sp_pipeline_stop env s =
     andThen (vp_stop (se_av env) (se_left env) (cs_pipeline s) (cs_ledger s))
       (\<lambda>(_, out, vp, L). andThen (push_out env out (cs_whip s) (cs_heap s))
       (\<lambda>(_, w). Inr (s\<lparr>cs_pipeline := vp, cs_ledger := L, cs_whip := w\<rparr>)))"

definition sp_whip_stop :: "'c session_env \<Rightarrow> 'c session \<Rightarrow> 'c session run" where
  "sp_whip_stop env s =
     andThen (whip_stop (se_eos env) (cs_whip s) (cs_heap s))
       (\<lambda>(_, w, H). Inr (s\<lparr>cs_whip := w, cs_heap := H\<rparr>))"

section \<open>The threads of the pipeline\<close>

text \<open>
  A frame arrives from the capture thread, its loop ends by itself after a bus message, or the
  encode thread takes a frame.
\<close>

datatype 'c session_thread = Capture Frame | CaptureEnds | Encode "'c session_env"

definition capture_ends :: "'c pipeline \<Rightarrow> 'c pipeline" where
  "capture_ends vp = vp\<lparr>vp_capture := map_option cam_loop_end (vp_capture vp)\<rparr>"

definition capture_runs :: "'c pipeline \<Rightarrow> bool" where
  "capture_runs vp \<longleftrightarrow> (case vp_capture vp of None \<Rightarrow> False | Some cam \<Rightarrow> cam_running cam)"

primrec thread_enabled :: "'c session_thread \<Rightarrow> 'c session \<Rightarrow> bool" where
  "thread_enabled (Capture f) s = capture_runs (cs_pipeline s)"
| "thread_enabled CaptureEnds s = capture_runs (cs_pipeline s)"
| "thread_enabled (Encode env) s = vp_encodeThread (cs_pipeline s)"

primrec thread_run :: "'c session_thread \<Rightarrow> 'c session \<Rightarrow> 'c session run" where
  "thread_run (Capture f) s = Inr (s\<lparr>cs_pipeline := snd (frame_callback f (cs_pipeline s))\<rparr>)"
| "thread_run CaptureEnds s = Inr (s\<lparr>cs_pipeline := capture_ends (cs_pipeline s)\<rparr>)"
| "thread_run (Encode env) s = andThen (cs_encode env s) (\<lambda>(bs, s). Inr s)"

definition threads_live :: "'c session \<Rightarrow> bool" where
  "threads_live s \<longleftrightarrow> vp_encodeThread (cs_pipeline s) \<or> capture_runs (cs_pipeline s)"

definition session_calls ::
  "('c session_env \<times> string \<times> string, 'c session_thread, 'c session, bool) guarded" where
  "session_calls = \<lparr>
     gd_prepare = (\<lambda>(env, url, key). [st_initialize env, st_publish env url key, st_whip_start env]),
     gd_go = (\<lambda>(env, url, key). st_pipeline_start env),
     gd_halt = (\<lambda>(env, url, key). sp_pipeline_stop env),
     gd_rest = (\<lambda>(env, url, key). [sp_whip_stop env]),
     gd_flag = cs_isRunning, gd_set = (\<lambda>b s. s\<lparr>cs_isRunning := b\<rparr>),
     gd_refused = False, gd_done = True,
     gd_enabled = thread_enabled, gd_thread = thread_run, gd_live = threads_live\<rparr>"

section \<open>The stages make up the calls\<close>

lemma session_calls_sel [simp]:
  "gd_flag session_calls = cs_isRunning" "gd_set session_calls b s = s\<lparr>cs_isRunning := b\<rparr>"
  "gd_prepare session_calls (env, url, key) = [st_initialize env, st_publish env url key, st_whip_start env]"
  "gd_go session_calls (env, url, key) = st_pipeline_start env"
  "gd_halt session_calls (env, url, key) = sp_pipeline_stop env"
  "gd_rest session_calls (env, url, key) = [sp_whip_stop env]"
  "gd_refused session_calls = False" "gd_done session_calls = True"
  "gd_enabled session_calls = thread_enabled" "gd_thread session_calls = thread_run"
  "gd_live session_calls = threads_live"
  by (simp_all add: session_calls_def)

lemma launch_stages: "run_start session_calls [st_whip_start env, st_pipeline_start env] s = cs_launch env s"
proof (cases "whip_start (se_start env) (setKeyframeRequestCallback True (cs_whip s))")
  case (Inl x)
  then show ?thesis by (simp add: st_whip_start_def cs_launch_def)
next
  case (Inr q)
  obtain r lg w where q: "q = (r, lg, w)" by (cases q)
  show ?thesis
  proof (cases "r = NetSuccess")
    case True
    obtain r5 vp L where v: "vp_start (se_av env) (se_play env) (se_now env) True (cs_pipeline s) (cs_ledger s) = (r5, vp, L)"
      by (metis prod_cases3)
    show ?thesis
    proof (cases "r5 = Success")
      case True
      with Inr q v \<open>r = NetSuccess\<close> show ?thesis by (simp add: st_whip_start_def st_pipeline_start_def cs_launch_def)
    next
      case False
      with Inr q v \<open>r = NetSuccess\<close> show ?thesis
        by (cases "whip_stop (se_eos env) w (cs_heap s)")
           (auto simp: st_whip_start_def st_pipeline_start_def cs_launch_def)
    qed
  next
    case False
    show ?thesis
    proof (cases "vp_stop (se_av env) (se_left env) (cs_pipeline s) (cs_ledger s)")
      case (Inl x)
      with Inr q False show ?thesis by (simp add: st_whip_start_def cs_launch_def)
    next
      case (Inr v)
      obtain r4 out vp L where v: "v = (r4, out, vp, L)" by (cases v)
      show ?thesis
        using \<open>whip_start _ _ = _\<close> q False Inr v
        by (cases "push_out env out w (cs_heap s)") (auto simp: st_whip_start_def cs_launch_def)
    qed
  qed
qed

lemma publish_stages:
  "run_start session_calls [st_publish env url key, st_whip_start env, st_pipeline_start env] s = cs_publish env url key s"
proof (cases "whip_initialize (se_whip env) url key (ec_framerate session_EncoderConfig) True (cs_whip s) (cs_heap s)")
  case (Inl x)
  then show ?thesis by (simp add: st_publish_def cs_publish_def)
next
  case (Inr q)
  obtain r w H where "q = (r, w, H)" by (cases q)
  with Inr show ?thesis
    using launch_stages [of env "s\<lparr>cs_whip := w, cs_heap := H\<rparr>"]
    by (cases "r = NetSuccess") (simp_all add: st_publish_def cs_publish_def del: run_start.simps add: run_start.simps(2))
qed

lemma whole_start_cs_start: "whole_start session_calls (env, url, key) s = cs_start env url key s"
proof (cases "cs_isRunning s")
  case True
  then show ?thesis by (simp add: whole_start_def cs_start_def)
next
  case nr: False
  show ?thesis
  proof (cases "vp_initialize (se_gst env) (se_pipewire env) (se_av env) session_CaptureConfig session_EncoderConfig
      (cs_pipeline s) (cs_ledger s)")
    case (Inl x)
    with nr show ?thesis by (simp add: whole_start_def cs_start_def st_initialize_def)
  next
    case (Inr q)
    obtain r out vp L where q: "q = (r, out, vp, L)" by (cases q)
    show ?thesis
    proof (cases "push_out env out (cs_whip s) (cs_heap s)")
      case (Inl x)
      with Inr q nr show ?thesis by (simp add: whole_start_def cs_start_def st_initialize_def)
    next
      case (Inr pw)
      obtain bs w where pw: "pw = (bs, w)" by (cases pw)
      show ?thesis
        using \<open>vp_initialize _ _ _ _ _ _ _ = _\<close> q Inr pw nr
          publish_stages [of env url key "s\<lparr>cs_pipeline := vp, cs_ledger := L, cs_whip := w\<rparr>"]
        by (cases "r = Success") (simp_all add: whole_start_def cs_start_def st_initialize_def
            del: run_start.simps add: run_start.simps(2))
    qed
  qed
qed

lemma whole_stop_cs_stop: "whole_stop session_calls (env, url, key) s = cs_stop env s"
proof (cases "cs_isRunning s")
  case False
  then show ?thesis by (simp add: whole_stop_def cs_stop_def)
next
  case run: True
  show ?thesis
  proof (cases "vp_stop (se_av env) (se_left env) (cs_pipeline s) (cs_ledger s)")
    case (Inl x)
    with run show ?thesis by (simp add: whole_stop_def cs_stop_def sp_pipeline_stop_def)
  next
    case (Inr q)
    obtain r out vp L where q: "q = (r, out, vp, L)" by (cases q)
    show ?thesis
    proof (cases "push_out env out (cs_whip s) (cs_heap s)")
      case (Inl x)
      with Inr q run show ?thesis by (simp add: whole_stop_def cs_stop_def sp_pipeline_stop_def)
    next
      case (Inr pw)
      obtain bs w where pw: "pw = (bs, w)" by (cases pw)
      show ?thesis
        using \<open>vp_stop _ _ _ _ = _\<close> q Inr pw run
        by (cases "whip_stop (se_eos env) w (cs_heap s)")
           (auto simp: whole_stop_def cs_stop_def sp_pipeline_stop_def sp_whip_stop_def)
    qed
  qed
qed

section \<open>The contract\<close>

lemma threads_at_rest:
  "\<not> threads_live s \<longleftrightarrow> \<not> vp_encodeThread (cs_pipeline s)
     \<and> (\<forall>cam. vp_capture (cs_pipeline s) = Some cam \<longrightarrow> \<not> cam_running cam)"
  by (auto simp: threads_live_def capture_runs_def split: option.splits)

lemma threads_live_set [simp]:
  "threads_live (s\<lparr>cs_isRunning := b\<rparr>) = threads_live s" "threads_live (s\<lparr>cs_whip := w\<rparr>) = threads_live s"
  by (simp_all add: threads_live_def)

lemma st_initialize_stage:
  assumes "st_initialize env s = Inr (r, s')"
  shows "cs_isRunning s' = cs_isRunning s" "\<not> threads_live s \<Longrightarrow> \<not> threads_live s'"
proof -
  obtain r1 out vp L bs w where
    1: "vp_initialize (se_gst env) (se_pipewire env) (se_av env) session_CaptureConfig session_EncoderConfig
        (cs_pipeline s) (cs_ledger s) = Inr (r1, out, vp, L)"
    and s': "s' = s\<lparr>cs_pipeline := vp, cs_ledger := L, cs_whip := w\<rparr>"
    using assms by (auto simp: st_initialize_def)
  show "cs_isRunning s' = cs_isRunning s" by (simp add: s')
  show "\<not> threads_live s \<Longrightarrow> \<not> threads_live s'"
    using vp_initialize_idle [OF 1] by (auto simp: threads_at_rest s')
qed

lemma st_publish_stage:
  assumes "st_publish env url key s = Inr (r, s')"
  shows "cs_isRunning s' = cs_isRunning s" "threads_live s' = threads_live s"
  using assms by (auto simp: st_publish_def threads_live_def)

lemma st_whip_start_stage:
  assumes "st_whip_start env s = Inr (r, s')"
  shows "cs_isRunning s' = cs_isRunning s" "\<not> threads_live s \<Longrightarrow> \<not> threads_live s'"
proof -
  obtain r3 lg w where 3: "whip_start (se_start env) (setKeyframeRequestCallback True (cs_whip s)) = Inr (r3, lg, w)"
    using assms by (auto simp: st_whip_start_def)
  have "cs_isRunning s' = cs_isRunning s \<and> (\<not> threads_live s \<longrightarrow> \<not> threads_live s')"
  proof (cases "r3 = NetSuccess")
    case True
    with assms 3 have "s' = s\<lparr>cs_whip := w\<rparr>" by (auto simp: st_whip_start_def)
    then show ?thesis by simp
  next
    case False
    with assms 3 obtain r4 out vp L w4 where
      4: "vp_stop (se_av env) (se_left env) (cs_pipeline s) (cs_ledger s) = Inr (r4, out, vp, L)"
      and "s' = s\<lparr>cs_pipeline := vp, cs_ledger := L, cs_whip := w4\<rparr>"
      by (auto simp: st_whip_start_def Let_def)
    with vp_stop_idle [OF 4] show ?thesis by (simp add: threads_at_rest)
  qed
  then show "cs_isRunning s' = cs_isRunning s" "\<not> threads_live s \<Longrightarrow> \<not> threads_live s'" by auto
qed

lemma vp_start_failed:
  assumes "vp_start lib play now cb vp L = (r, vp', L')" "r \<noteq> Success" "\<not> vp_encodeThread vp"
    and "\<forall>cam. vp_capture vp = Some cam \<longrightarrow> \<not> cam_running cam"
  shows "\<not> vp_encodeThread vp' \<and> (\<forall>cam. vp_capture vp' = Some cam \<longrightarrow> \<not> cam_running cam)"
proof (cases "vp_capture vp")
  case None
  with assms show ?thesis by (simp add: vp_start_def)
next
  case (Some cam)
  with vp_start_running [OF assms(1,3) Some] assms(2,4) show ?thesis by auto
qed

lemma st_pipeline_start_stage:
  assumes "st_pipeline_start env s = Inr (r, s')"
  shows "cs_isRunning s' = cs_isRunning s" "\<not> threads_live s \<Longrightarrow> r \<noteq> None \<Longrightarrow> \<not> threads_live s'"
proof -
  obtain r5 vp L where 5: "vp_start (se_av env) (se_play env) (se_now env) True (cs_pipeline s) (cs_ledger s) = (r5, vp, L)"
    by (metis prod_cases3)
  have "cs_isRunning s' = cs_isRunning s \<and> (\<not> threads_live s \<and> r \<noteq> None \<longrightarrow> \<not> threads_live s')"
  proof (cases "r5 = Success")
    case True
    with assms 5 show ?thesis by (auto simp: st_pipeline_start_def)
  next
    case False
    with assms 5 obtain w H where s': "s' = s\<lparr>cs_pipeline := vp, cs_ledger := L, cs_whip := w, cs_heap := H\<rparr>"
      by (auto simp: st_pipeline_start_def Let_def)
    with vp_start_failed [OF 5 False] show ?thesis by (simp add: threads_at_rest)
  qed
  then show "cs_isRunning s' = cs_isRunning s" "\<not> threads_live s \<Longrightarrow> r \<noteq> None \<Longrightarrow> \<not> threads_live s'" by auto
qed

lemma sp_pipeline_stop_stage:
  assumes "sp_pipeline_stop env s = Inr s'"
  shows "cs_isRunning s' = cs_isRunning s" "\<not> threads_live s'"
proof -
  obtain r out vp L w where 1: "vp_stop (se_av env) (se_left env) (cs_pipeline s) (cs_ledger s) = Inr (r, out, vp, L)"
    and s': "s' = s\<lparr>cs_pipeline := vp, cs_ledger := L, cs_whip := w\<rparr>"
    using assms by (auto simp: sp_pipeline_stop_def)
  show "cs_isRunning s' = cs_isRunning s" "\<not> threads_live s'"
    using vp_stop_idle [OF 1] by (simp_all add: s' threads_at_rest)
qed

lemma sp_whip_stop_stage:
  assumes "sp_whip_stop env s = Inr s'"
  shows "cs_isRunning s' = cs_isRunning s" "threads_live s' = threads_live s"
  using assms by (auto simp: sp_whip_stop_def threads_live_def)

lemma thread_enabled_live: "thread_enabled k s \<Longrightarrow> threads_live s"
  by (cases k) (auto simp: threads_live_def)

lemma thread_run_flag: "thread_run k s = Inr s' \<Longrightarrow> cs_isRunning s' = cs_isRunning s"
  by (cases k) (auto simp: cs_encode_def)

lemma thread_run_set:
  "thread_run k (s\<lparr>cs_isRunning := b\<rparr>) = andThen (thread_run k s) (\<lambda>s. Inr (s\<lparr>cs_isRunning := b\<rparr>))"
proof (cases k)
  case (Encode env)
  show ?thesis
  proof (cases "encode_next (se_av env) (cs_pipeline s)")
    case (Inl x)
    with Encode show ?thesis by (simp add: cs_encode_def)
  next
    case (Inr q)
    with Encode show ?thesis
      by (cases "push_out env (fst q) (cs_whip s) (cs_heap s)") (auto simp: cs_encode_def case_prod_beta)
  qed
qed simp_all

interpretation session_calls: guarded_object "session_calls :: ('c session_env \<times> string \<times> string, 'c session_thread, 'c session, bool) guarded"
proof unfold_locales
  fix f e r and s s' :: "'c session"
  assume "f \<in> set (gd_prepare session_calls e @ [gd_go session_calls e])" "f s = Inr (r, s')"
  then show "gd_flag session_calls s' = gd_flag session_calls s"
    by (cases e) (auto dest: st_initialize_stage(1) st_publish_stage(1) st_whip_start_stage(1) st_pipeline_start_stage(1))
next
  fix f e r and s s' :: "'c session"
  assume "f \<in> set (gd_prepare session_calls e)" "\<not> gd_live session_calls s" "f s = Inr (r, s')"
  then show "\<not> gd_live session_calls s'"
    by (cases e) (auto dest: st_initialize_stage(2) st_publish_stage(2) st_whip_start_stage(2))
next
  fix e res and s s' :: "'c session"
  assume "\<not> gd_live session_calls s" "gd_go session_calls e s = Inr (Some res, s')"
  then show "\<not> gd_live session_calls s'" by (cases e) (auto dest: st_pipeline_start_stage(2))
next
  fix h e and s s' :: "'c session"
  assume "h \<in> set (gd_halt session_calls e # gd_rest session_calls e)" "h s = Inr s'"
  then show "gd_flag session_calls s' = gd_flag session_calls s"
    by (cases e) (auto dest: sp_pipeline_stop_stage(1) sp_whip_stop_stage(1))
next
  fix e and s s' :: "'c session"
  assume "gd_halt session_calls e s = Inr s'"
  then show "\<not> gd_live session_calls s'" by (cases e) (auto dest: sp_pipeline_stop_stage(2))
next
  fix h e and s s' :: "'c session"
  assume "h \<in> set (gd_rest session_calls e)" "\<not> gd_live session_calls s" "h s = Inr s'"
  then show "\<not> gd_live session_calls s'" by (cases e) (auto dest: sp_whip_stop_stage(2))
next
  fix k b and s :: "'c session"
  show "gd_enabled session_calls k (gd_set session_calls b s) = gd_enabled session_calls k s"
    by (cases k) simp_all
next
  fix k b and s :: "'c session"
  show "gd_thread session_calls k (gd_set session_calls b s) =
    andThen (gd_thread session_calls k s) (\<lambda>s. Inr (gd_set session_calls b s))"
    by (simp add: thread_run_set)
qed (simp_all add: thread_enabled_live thread_run_flag)

section \<open>The property of the calls\<close>

text \<open>C5: 
  Starting and stopping from two threads is as good as whole calls: in every interleaving of
  the stages of \<open>start\<close> and \<open>stop\<close> with each other and with the pipeline's threads, the two
  bodies never overlap; whenever no call is in progress the session is in a state that whole
  calls of \<open>start\<close> and \<open>stop\<close> reach; and a step with undefined behaviour is one of a whole call
  or of a thread.
\<close>

theorem session_calls_atomic:
  fixes c :: "('c session, bool) calls"
  assumes "fine_reach session_calls (new_session L H) c"
  shows "(cl_start c = None \<or> cl_stop c = None)
    \<and> (cl_start c = None \<and> cl_stop c = None \<longrightarrow> whole_reach session_calls (new_session L H) (cl_state c))
    \<and> (\<forall>a x. fine_step session_calls a c = Some (Inl x) \<longrightarrow>
         (\<exists>(s :: 'c session) b. whole_reach session_calls (new_session L H) s \<and> whole_step session_calls b s = Some (Inl x)))
    \<and> (\<forall>env url key (s :: 'c session). whole_step session_calls (CallStart (env, url, key)) s =
           Some (andThen (cs_start env url key s) (\<lambda>(r, s). Inr s))
         \<and> whole_step session_calls (CallStop (env, url, key)) s = Some (cs_stop env s))"
proof -
  have n: "\<not> gd_live session_calls (new_session L H :: 'c session)"
    by (simp add: threads_at_rest new_session_def new_pipeline_def)
  show ?thesis
  proof (intro conjI allI impI)
    show "cl_start c = None \<or> cl_stop c = None" by (rule session_calls.fine_exclusive [OF assms n])
    show "whole_reach session_calls (new_session L H) (cl_state c)" if "cl_start c = None \<and> cl_stop c = None"
      using that by (intro session_calls.fine_at_rest [OF assms n]) simp_all
    show "\<exists>(s :: 'c session) b. whole_reach session_calls (new_session L H) s \<and> whole_step session_calls b s = Some (Inl x)"
      if "fine_step session_calls a c = Some (Inl x)" for a x
      by (rule session_calls.fine_fault [OF assms n that])
  qed (simp_all add: whole_step.simps whole_start_cs_start whole_stop_cs_stop)
qed

text \<open>What the plain flag does not give: a stop that comes while a start is in progress is lost.\<close>

lemma stop_lost_while_starting:
  assumes "\<not> cs_isRunning (cl_state c)" "cl_stop c = None"
  shows "fine_step session_calls (BeginStop e) c = Some (Inr c)"
  using assms by simp

section \<open>Witness\<close>

theorem session_calls_atomic_witness:
  "\<exists>c. fine_reach session_calls (new_session no_objects empty_heap :: av_packet list session) c
     \<and> cl_start c \<noteq> None \<and> cl_stop c = None"
proof -
  let ?s = "new_session no_objects empty_heap :: av_packet list session"
  let ?e = "(demo_env True CHANGE_SUCCESS, ''u'', ''k'')"
  let ?c = "(no_calls ?s)\<lparr>cl_start := Some (gd_prepare session_calls ?e @ [gd_go session_calls ?e])\<rparr>"
  have "fine_step session_calls (BeginStart ?e) (no_calls ?s) = Some (Inr ?c)"
    by (simp add: no_calls_def new_session_def)
  from fine_next [OF fine_init this] have r: "fine_reach session_calls ?s ?c" .
  with session_calls_atomic [OF r] show ?thesis by (intro exI [of _ ?c]) (simp add: no_calls_def)
qed

end
