(* ===== verification/Frame_Reader.thy ===== *)
theory Frame_Reader
  imports Plane_Copy
begin

text \<open>
  \<open>client/src/framereader.cpp\<close>: a LiveKit frame becomes a \<open>QVideoFrame\<close> on the director's
  video sink. Qt's mapped frames and LiveKit's conversion are parameters; the specification
  \<open>reader_plan\<close> says which image a frame is to give, and the theorems say that
  \<open>pushFrame\<close> shows it, where it can leave its buffers, and which part of an image with an
  odd size it loses.
\<close>

section \<open>Data\<close>

datatype q_format = Format_YUV420P | Format_RGBA8888 | Format_RGBX8888

text \<open>\<open>livekit::VideoBufferType\<close>: the two types the code names, and the others by number.\<close>

datatype buffer_type = BUF_RGBA | BUF_I420 | BUF_OTHER int

record qvideo_frame =
  qv_width :: int
  qv_height :: int
  qv_format :: q_format
  qv_planes :: "plane list"

text \<open>
  \<open>livekit::VideoFrame\<close>: size, type, the bytes behind \<open>data()\<close> (\<open>None\<close> is the null
  pointer) and what \<open>planeInfos()\<close> answers, a stride and the bytes from the plane's pointer.
\<close>

record video_frame =
  vf_width :: int
  vf_height :: int
  vf_type :: buffer_type
  vf_data :: "byte list option"
  vf_planeInfos :: "plane list"

text \<open>\<open>QImage\<close> of the placeholder: its size and its bytes.\<close>

record q_image =
  qi_width :: int
  qi_height :: int
  qi_bits :: "byte list"

datatype reader_event = SetVideoFrame handle qvideo_frame | ReaderSinkChanged

record reader =
  rd_videoSink :: "handle option"
  rd_placeholder :: "q_image option"
  rd_events :: "reader_event list"

text \<open>
  Qt and LiveKit: the planes of a new \<open>QVideoFrame\<close> mapped for writing (\<open>None\<close> when
  \<open>map\<close> fails), and \<open>convert\<close> (\<open>None\<close> when it throws).
\<close>

record media_lib =
  ml_map :: "int \<Rightarrow> int \<Rightarrow> q_format \<Rightarrow> plane list option"
  ml_convert :: "video_frame \<Rightarrow> buffer_type \<Rightarrow> video_frame option"

section \<open>Operations\<close>

definition new_reader :: "q_image option \<Rightarrow> reader" where
  "new_reader img = \<lparr>rd_videoSink = None, rd_placeholder = img, rd_events = []\<rparr>"

definition rd_emit :: "reader_event \<Rightarrow> reader \<Rightarrow> reader" where
  "rd_emit ev r = r\<lparr>rd_events := rd_events r @ [ev]\<rparr>"

text \<open>\<open>bits(0)\<close> of a frame without planes is the null pointer.\<close>

definition pushSpan :: "media_lib \<Rightarrow> byte list \<Rightarrow> int \<Rightarrow> int \<Rightarrow> q_format \<Rightarrow> reader \<Rightarrow> (bool \<times> reader) run" where
  "pushSpan lib bytes w h fmt r =
     (case rd_videoSink r of
        None \<Rightarrow> Inr (False, r)
      | Some sink \<Rightarrow>
         (case ml_map lib w h fmt of
            None \<Rightarrow> Inr (False, r)
          | Some [] \<Rightarrow> Inl NullDeref
          | Some ((stride, bits) # planes) \<Rightarrow>
              andThen (memcpy bits 0 bytes 0 (int (length bytes)))
                (\<lambda>bits'. Inr (True, rd_emit (SetVideoFrame sink
                   \<lparr>qv_width = w, qv_height = h, qv_format = fmt,
                    qv_planes = (stride, bits') # planes\<rparr>) r))))"

definition push_placeholder :: "media_lib \<Rightarrow> reader \<Rightarrow> reader run" where
  "push_placeholder lib r =
     (case rd_placeholder r of
        None \<Rightarrow> Inr r
      | Some img \<Rightarrow> andThen (pushSpan lib (qi_bits img) (qi_width img) (qi_height img) Format_RGBX8888 r)
          (\<lambda>(_, r). Inr r))"

definition rd_setVideoSink :: "media_lib \<Rightarrow> handle option \<Rightarrow> reader \<Rightarrow> reader run" where
  "rd_setVideoSink lib sink r =
     (if rd_videoSink r \<noteq> sink
      then andThen (push_placeholder lib (r\<lparr>rd_videoSink := sink\<rparr>)) (\<lambda>r. Inr (rd_emit ReaderSinkChanged r))
      else Inr r)"

text \<open>The direct path for I420: three row loops into the mapped frame.\<close>

definition push_i420 :: "media_lib \<Rightarrow> handle \<Rightarrow> video_frame \<Rightarrow> reader \<Rightarrow> reader run" where
  "push_i420 lib sink f r =
     (case ml_map lib (vf_width f) (vf_height f) Format_YUV420P of
        None \<Rightarrow> Inr r
      | Some dsts \<Rightarrow>
          andThen (copy_planes (reader_rows (vf_height f)) (reader_cols (vf_width f)) 0 3 (vf_planeInfos f) dsts)
            (\<lambda>planes. Inr (rd_emit (SetVideoFrame sink
               \<lparr>qv_width = vf_width f, qv_height = vf_height f, qv_format = Format_YUV420P,
                qv_planes = planes\<rparr>) r)))"

text \<open>The fallback: convert to RGBA where necessary, push, and show the placeholder on failure.\<close>

definition span_of :: "video_frame \<Rightarrow> byte list" where
  "span_of f = (case vf_data f of None \<Rightarrow> [] | Some bs \<Rightarrow> bs)"

definition push_rgba :: "media_lib \<Rightarrow> video_frame \<Rightarrow> reader \<Rightarrow> reader run" where
  "push_rgba lib f r =
     (case (if vf_type f \<noteq> BUF_RGBA then ml_convert lib f BUF_RGBA else Some f) of
        None \<Rightarrow> push_placeholder lib r
      | Some g \<Rightarrow> andThen (pushSpan lib (span_of g) (vf_width f) (vf_height f) Format_RGBA8888 r)
          (\<lambda>(success, r). if success then Inr r else push_placeholder lib r))"

definition pushFrame :: "media_lib \<Rightarrow> video_frame \<Rightarrow> reader \<Rightarrow> reader run" where
  "pushFrame lib f r =
     (if vf_data f = None \<or> span_of f = [] then push_placeholder lib r
      else if vf_width f \<le> 0 \<or> vf_height f \<le> 0 then push_placeholder lib r
      else if vf_type f = BUF_I420
      then (case rd_videoSink r of
          None \<Rightarrow> Inr r
        | Some sink \<Rightarrow>
            if length (vf_planeInfos f) < 3 then push_rgba lib f r else push_i420 lib sink f r)
      else push_rgba lib f r)"

section \<open>What a frame is to show\<close>

text \<open>The plan for a frame: its planes, a packed image, or the placeholder.\<close>

datatype plan = PlanPlanes | PlanPacked "byte list" | PlanPlaceholder

definition reader_plan :: "media_lib \<Rightarrow> video_frame \<Rightarrow> plan" where
  "reader_plan lib f =
     (if span_of f = [] \<or> vf_width f \<le> 0 \<or> vf_height f \<le> 0 then PlanPlaceholder
      else if vf_type f = BUF_I420 \<and> 3 \<le> length (vf_planeInfos f) then PlanPlanes
      else if vf_type f = BUF_RGBA then PlanPacked (span_of f)
      else (case ml_convert lib f BUF_RGBA of None \<Rightarrow> PlanPlaceholder | Some g \<Rightarrow> PlanPacked (span_of g)))"

text \<open>A packed image lands in the first plane, from its first byte on.\<close>

definition holds_packed :: "byte list \<Rightarrow> qvideo_frame \<Rightarrow> bool" where
  "holds_packed bytes q \<longleftrightarrow>
     (case qv_planes q of [] \<Rightarrow> False | (_, bits) # _ \<Rightarrow> take (length bytes) bits = bytes)"

definition holds_planes :: "video_frame \<Rightarrow> qvideo_frame \<Rightarrow> bool" where
  "holds_planes f q \<longleftrightarrow>
     (\<forall>p \<in> {0, 1, 2}. \<forall>row \<in> {0 ..< reader_rows (vf_height f) p}. \<forall>col \<in> {0 ..< reader_cols (vf_width f) p 0 0}.
        snd (qv_planes q ! p) ! nat (row * fst (qv_planes q ! p) + col)
          = snd (vf_planeInfos f ! p) ! nat (row * fst (vf_planeInfos f ! p) + col))"

definition shows_plan :: "media_lib \<Rightarrow> reader \<Rightarrow> video_frame \<Rightarrow> qvideo_frame \<Rightarrow> bool" where
  "shows_plan lib r f q \<longleftrightarrow>
     (case reader_plan lib f of
        PlanPlanes \<Rightarrow> qv_format q = Format_YUV420P \<and> qv_width q = vf_width f \<and> qv_height q = vf_height f
          \<and> holds_planes f q
      | PlanPacked bytes \<Rightarrow> qv_format q = Format_RGBA8888 \<and> qv_width q = vf_width f
          \<and> qv_height q = vf_height f \<and> holds_packed bytes q
      | PlanPlaceholder \<Rightarrow> (\<exists>img. rd_placeholder r = Some img \<and> qv_format q = Format_RGBX8888
          \<and> qv_width q = qi_width img \<and> qv_height q = qi_height img \<and> holds_packed (qi_bits img) q))"

text \<open>Buffers that are large enough for what is copied into them.\<close>

definition packed_room :: "media_lib \<Rightarrow> int \<Rightarrow> int \<Rightarrow> q_format \<Rightarrow> byte list \<Rightarrow> bool" where
  "packed_room lib w h fmt bytes \<longleftrightarrow>
     (case ml_map lib w h fmt of Some ((_, bits) # _) \<Rightarrow> length bytes \<le> length bits | _ \<Rightarrow> False)"

definition planes_room :: "media_lib \<Rightarrow> video_frame \<Rightarrow> bool" where
  "planes_room lib f \<longleftrightarrow>
     (case ml_map lib (vf_width f) (vf_height f) Format_YUV420P of
        Some dsts \<Rightarrow> planes_ok (strides_hold (vf_width f)) (vf_height f) 0 3 (vf_planeInfos f) dsts
          \<and> (\<forall>d \<in> set dsts. 0 < fst d)
      | None \<Rightarrow> False)"

definition room_for :: "media_lib \<Rightarrow> reader \<Rightarrow> video_frame \<Rightarrow> bool" where
  "room_for lib r f \<longleftrightarrow>
     (case reader_plan lib f of
        PlanPlanes \<Rightarrow> planes_room lib f
      | PlanPacked bytes \<Rightarrow> packed_room lib (vf_width f) (vf_height f) Format_RGBA8888 bytes
      | PlanPlaceholder \<Rightarrow> (case rd_placeholder r of None \<Rightarrow> False
          | Some img \<Rightarrow> packed_room lib (qi_width img) (qi_height img) Format_RGBX8888 (qi_bits img)))"

section \<open>Packed images\<close>

lemma memcpy_prefix:
  "length src \<le> length dst \<Longrightarrow>
   memcpy dst 0 src 0 (int (length src)) = Inr (src @ drop (length src) dst)"
  by (simp add: memcpy_def)

lemma pushSpan_room:
  assumes "rd_videoSink r = Some sink" and "packed_room lib w h fmt bytes"
  obtains q where "pushSpan lib bytes w h fmt r = Inr (True, rd_emit (SetVideoFrame sink q) r)"
    and "qv_format q = fmt" "qv_width q = w" "qv_height q = h" "holds_packed bytes q"
proof -
  obtain stride bits planes where m: "ml_map lib w h fmt = Some ((stride, bits) # planes)"
    and l: "length bytes \<le> length bits"
    using assms(2) by (auto simp: packed_room_def split: option.splits list.splits)
  show thesis
    by (rule that [of "\<lparr>qv_width = w, qv_height = h, qv_format = fmt,
        qv_planes = (stride, bytes @ drop (length bytes) bits) # planes\<rparr>"])
      (use assms(1) m l in \<open>simp_all add: pushSpan_def memcpy_prefix holds_packed_def\<close>)
qed

lemma push_placeholder_room:
  assumes "rd_videoSink r = Some sink" "rd_placeholder r = Some img"
    and "packed_room lib (qi_width img) (qi_height img) Format_RGBX8888 (qi_bits img)"
  obtains q where "push_placeholder lib r = Inr (rd_emit (SetVideoFrame sink q) r)"
    and "qv_format q = Format_RGBX8888" "qv_width q = qi_width img" "qv_height q = qi_height img"
      "holds_packed (qi_bits img) q"
  using pushSpan_room [OF assms(1,3)] assms(2) that by (auto simp: push_placeholder_def)

section \<open>Planes\<close>

lemma reader_cols_const: "reader_cols w p a b = reader_cols w p 0 0"
  by (simp add: reader_cols_def)

lemma copied_nth:
  assumes "copied height width ds ss src dst dst'" "0 \<le> row" "row < height" "0 \<le> col" "col < width"
    and "width \<le> ds" "height * ds \<le> int (length dst)"
  shows "dst' ! nat (row * ds + col) = src ! nat (row * ss + col)"
proof -
  have "row * ds + col < row * ds + width" using assms by simp
  also have "\<dots> \<le> height * ds" using assms by (intro row_offset_bound) auto
  finally have "row * ds + col < int (length dst)" using assms by simp
  with assms show ?thesis by (simp add: copied_def)
qed

lemma planes_ok_nth:
  "planes_ok geom h p n srcs dsts \<Longrightarrow> i < n \<Longrightarrow>
   geom (p + i) (fst (srcs ! i)) (fst (dsts ! i)) \<and> plane_complete h (p + i) (dsts ! i) \<and> i < length dsts"
proof (induction geom h p n srcs dsts arbitrary: i rule: planes_ok.induct)
  case (2 geom h p n s srcs d dsts)
  then show ?case by (cases i) auto
qed simp_all

text \<open>With room, the I420 path shows one frame, each plane of which is copied as specified.\<close>

lemma push_i420_copied:
  assumes "0 \<le> vf_height f" and "planes_room lib f"
  obtains dsts dsts' where "ml_map lib (vf_width f) (vf_height f) Format_YUV420P = Some dsts"
    and "push_i420 lib sink f r = Inr (rd_emit (SetVideoFrame sink
       \<lparr>qv_width = vf_width f, qv_height = vf_height f, qv_format = Format_YUV420P, qv_planes = dsts'\<rparr>) r)"
    and "planes_ok (strides_hold (vf_width f)) (vf_height f) 0 3 (vf_planeInfos f) dsts"
    and "\<And>p. p < 3 \<Longrightarrow> 0 < fst (dsts ! p) \<and> fst (dsts' ! p) = fst (dsts ! p) \<and>
      copied (reader_rows (vf_height f) p) (reader_cols (vf_width f) p 0 0) (fst (dsts ! p))
        (fst (vf_planeInfos f ! p)) (snd (vf_planeInfos f ! p)) (snd (dsts ! p)) (snd (dsts' ! p))"
proof -
  from assms(2) obtain dsts where m: "ml_map lib (vf_width f) (vf_height f) Format_YUV420P = Some dsts"
    and ok: "planes_ok (strides_hold (vf_width f)) (vf_height f) 0 3 (vf_planeInfos f) dsts"
    and pos: "\<forall>d \<in> set dsts. 0 < fst d"
    by (auto simp: planes_room_def split: option.splits)
  from reader_copy.copy_planes_correct [OF assms(1) ok] obtain dsts' where
    c: "copy_planes (reader_rows (vf_height f)) (reader_cols (vf_width f)) 0 3 (vf_planeInfos f) dsts = Inr dsts'"
    and pl: "\<forall>i < 3. fst (dsts' ! i) = fst (dsts ! i) \<and>
      copied (reader_rows (vf_height f) (0 + i)) (reader_cols (vf_width f) (0 + i) (fst (vf_planeInfos f ! i)) (fst (dsts ! i)))
        (fst (dsts ! i)) (fst (vf_planeInfos f ! i)) (snd (vf_planeInfos f ! i)) (snd (dsts ! i)) (snd (dsts' ! i))"
    by blast
  have "0 < fst (dsts ! p) \<and> fst (dsts' ! p) = fst (dsts ! p) \<and>
      copied (reader_rows (vf_height f) p) (reader_cols (vf_width f) p 0 0) (fst (dsts ! p))
        (fst (vf_planeInfos f ! p)) (snd (vf_planeInfos f ! p)) (snd (dsts ! p)) (snd (dsts' ! p))"
    if "p < 3" for p
    using pl that pos planes_ok_nth [OF ok that] by (auto simp: reader_cols_const [of _ _ "fst _"])
  with m c ok show thesis by (intro that [of dsts dsts']) (simp_all add: push_i420_def)
qed

lemma reader_rows_le: "0 \<le> h \<Longrightarrow> reader_rows h p \<le> plane_rows h p"
  by (rule reader_copy.rows_le)

lemma push_i420_holds:
  assumes "0 < vf_height f" and "planes_room lib f"
  obtains q where "push_i420 lib sink f r = Inr (rd_emit (SetVideoFrame sink q) r)"
    and "qv_format q = Format_YUV420P" "qv_width q = vf_width f" "qv_height q = vf_height f" "holds_planes f q"
proof -
  obtain dsts dsts' where p: "push_i420 lib sink f r = Inr (rd_emit (SetVideoFrame sink
       \<lparr>qv_width = vf_width f, qv_height = vf_height f, qv_format = Format_YUV420P, qv_planes = dsts'\<rparr>) r)"
    and ok: "planes_ok (strides_hold (vf_width f)) (vf_height f) 0 3 (vf_planeInfos f) dsts"
    and cp: "\<And>p. p < 3 \<Longrightarrow> 0 < fst (dsts ! p) \<and> fst (dsts' ! p) = fst (dsts ! p) \<and>
      copied (reader_rows (vf_height f) p) (reader_cols (vf_width f) p 0 0) (fst (dsts ! p))
        (fst (vf_planeInfos f ! p)) (snd (vf_planeInfos f ! p)) (snd (dsts ! p)) (snd (dsts' ! p))"
    using push_i420_copied [OF _ assms(2)] assms(1) by (metis order_less_imp_le)
  have "snd (dsts' ! p) ! nat (row * fst (dsts' ! p) + col)
      = snd (vf_planeInfos f ! p) ! nat (row * fst (vf_planeInfos f ! p) + col)"
    if "p < 3" "0 \<le> row" "row < reader_rows (vf_height f) p" "0 \<le> col" "col < reader_cols (vf_width f) p 0 0"
    for p row col
  proof -
    have g: "strides_hold (vf_width f) p (fst (vf_planeInfos f ! p)) (fst (dsts ! p))"
      "plane_complete (vf_height f) p (dsts ! p)"
      using planes_ok_nth [OF ok that(1)] by simp_all
    have "reader_cols (vf_width f) p 0 0 \<le> fst (dsts ! p)"
      using reader_copy.cols_le_dst [OF g(1)] by (simp add: reader_cols_const [of _ _ "fst _"])
    moreover have "reader_rows (vf_height f) p * fst (dsts ! p) \<le> plane_rows (vf_height f) p * fst (dsts ! p)"
      using reader_rows_le [of "vf_height f" p] cp [OF that(1)] assms(1) by (intro mult_right_mono) auto
    with g(2) have "reader_rows (vf_height f) p * fst (dsts ! p) \<le> int (length (snd (dsts ! p)))"
      by (simp add: plane_complete_def)
    ultimately show ?thesis using copied_nth [of _ _ _ _ _ _ "snd (dsts' ! p)"] cp [OF that(1)] that by metis
  qed
  then have "holds_planes f \<lparr>qv_width = vf_width f, qv_height = vf_height f, qv_format = Format_YUV420P, qv_planes = dsts'\<rparr>"
    by (auto simp: holds_planes_def)
  with p show thesis by (intro that) simp_all
qed

section \<open>Properties\<close>

lemma push_rgba_shows:
  assumes "rd_videoSink r = Some sink" "room_for lib r f"
    and plan: "reader_plan lib f =
      (if vf_type f = BUF_RGBA then PlanPacked (span_of f)
       else (case ml_convert lib f BUF_RGBA of None \<Rightarrow> PlanPlaceholder | Some g \<Rightarrow> PlanPacked (span_of g)))"
  shows "\<exists>q. push_rgba lib f r = Inr (rd_emit (SetVideoFrame sink q) r) \<and> shows_plan lib r f q"
proof (cases "if vf_type f \<noteq> BUF_RGBA then ml_convert lib f BUF_RGBA else Some f")
  case None
  then have pl: "reader_plan lib f = PlanPlaceholder" using plan by (auto split: if_splits)
  with assms(2) obtain img where i: "rd_placeholder r = Some img"
    and room: "packed_room lib (qi_width img) (qi_height img) Format_RGBX8888 (qi_bits img)"
    by (auto simp: room_for_def split: option.splits)
  from push_placeholder_room [OF assms(1) i room] obtain q where
    "push_placeholder lib r = Inr (rd_emit (SetVideoFrame sink q) r)" "qv_format q = Format_RGBX8888"
    "qv_width q = qi_width img" "qv_height q = qi_height img" "holds_packed (qi_bits img) q" by metis
  with None pl i show ?thesis by (intro exI [of _ q]) (simp add: push_rgba_def shows_plan_def)
next
  case (Some g)
  then have pl: "reader_plan lib f = PlanPacked (span_of g)" using plan by (auto split: if_splits)
  with assms(2) have "packed_room lib (vf_width f) (vf_height f) Format_RGBA8888 (span_of g)"
    by (simp add: room_for_def)
  from pushSpan_room [OF assms(1) this] obtain q where
    "pushSpan lib (span_of g) (vf_width f) (vf_height f) Format_RGBA8888 r = Inr (True, rd_emit (SetVideoFrame sink q) r)"
    "qv_format q = Format_RGBA8888" "qv_width q = vf_width f" "qv_height q = vf_height f"
    "holds_packed (span_of g) q" by metis
  with Some pl show ?thesis by (intro exI [of _ q]) (simp add: push_rgba_def shows_plan_def)
qed

lemma pushFrame_shows:
  assumes "rd_videoSink r = Some sink" and "room_for lib r f"
  shows "\<exists>q. pushFrame lib f r = Inr (rd_emit (SetVideoFrame sink q) r) \<and> shows_plan lib r f q"
proof -
  consider (empty) "span_of f = [] \<or> vf_width f \<le> 0 \<or> vf_height f \<le> 0"
    | (planes) "span_of f \<noteq> []" "0 < vf_width f" "0 < vf_height f" "vf_type f = BUF_I420" "3 \<le> length (vf_planeInfos f)"
    | (packed) "span_of f \<noteq> []" "0 < vf_width f" "0 < vf_height f" "\<not> (vf_type f = BUF_I420 \<and> 3 \<le> length (vf_planeInfos f))"
    by linarith
  then show ?thesis
  proof cases
    case empty
    then have pl: "reader_plan lib f = PlanPlaceholder" by (simp add: reader_plan_def)
    with assms(2) obtain img where i: "rd_placeholder r = Some img"
      and room: "packed_room lib (qi_width img) (qi_height img) Format_RGBX8888 (qi_bits img)"
      by (auto simp: room_for_def split: option.splits)
    have "pushFrame lib f r = push_placeholder lib r"
      using empty by (auto simp: pushFrame_def)
    moreover from push_placeholder_room [OF assms(1) i room] obtain q where
      "push_placeholder lib r = Inr (rd_emit (SetVideoFrame sink q) r)" "qv_format q = Format_RGBX8888"
      "qv_width q = qi_width img" "qv_height q = qi_height img" "holds_packed (qi_bits img) q" by metis
    ultimately show ?thesis using pl i by (intro exI [of _ q]) (simp add: shows_plan_def)
  next
    case planes
    then have pl: "reader_plan lib f = PlanPlanes" by (simp add: reader_plan_def)
    with assms(2) have "planes_room lib f" by (simp add: room_for_def)
    from push_i420_holds [OF planes(3) this] obtain q where
      "push_i420 lib sink f r = Inr (rd_emit (SetVideoFrame sink q) r)" "qv_format q = Format_YUV420P"
      "qv_width q = vf_width f" "qv_height q = vf_height f" "holds_planes f q" by metis
    with planes pl assms(1) show ?thesis
      by (intro exI [of _ q]) (auto simp: pushFrame_def shows_plan_def span_of_def)
  next
    case packed
    then have "pushFrame lib f r = push_rgba lib f r"
      using assms(1) by (auto simp: pushFrame_def span_of_def split: option.splits)
    moreover have "reader_plan lib f =
      (if vf_type f = BUF_RGBA then PlanPacked (span_of f)
       else (case ml_convert lib f BUF_RGBA of None \<Rightarrow> PlanPlaceholder | Some g \<Rightarrow> PlanPacked (span_of g)))"
      using packed by (auto simp: reader_plan_def)
    ultimately show ?thesis using push_rgba_shows [OF assms] by simp
  qed
qed


text \<open>A Qt whose frames have aligned strides, and small frames to evaluate with.\<close>

definition qt_ref :: media_lib where
  "qt_ref = \<lparr>ml_map = (\<lambda>w h fmt. Some (if fmt = Format_YUV420P
       then [(w + 2, replicate (nat ((w + 2) * h)) 0), (w + 1, replicate (nat ((w + 1) * ((h + 1) div 2))) 0),
             (w + 1, replicate (nat ((w + 1) * ((h + 1) div 2))) 0)]
       else [(4 * w, replicate (nat (4 * w * h)) 0)])),
     ml_convert = (\<lambda>f t. None)\<rparr>"

definition sample_image :: q_image where
  "sample_image = \<lparr>qi_width = 1, qi_height = 1, qi_bits = [1, 2, 3, 4]\<rparr>"

definition sample_reader :: reader where
  "sample_reader = (new_reader (Some sample_image))\<lparr>rd_videoSink := Some 5\<rparr>"

definition sample_i420 :: "int \<Rightarrow> int \<Rightarrow> video_frame" where
  "sample_i420 w h = \<lparr>vf_width = w, vf_height = h, vf_type = BUF_I420, vf_data = Some [9],
     vf_planeInfos = [(w, replicate (nat (w * h)) 10), (w, replicate (nat (w * ((h + 1) div 2))) 20),
       (w, replicate (nat (w * ((h + 1) div 2))) 30)]\<rparr>"


text \<open>An I420 image with an odd height or width is not shown whole: the row loops run to
  half the height and width rounded down, so in both chroma planes the last row (odd height) and
  the last column (odd width) keep what the mapped buffer held before, whatever the frame
  contains; for even sizes every byte of the image is copied.\<close>

theorem reader_odd_size_loses_chroma:
  assumes "rd_videoSink r = Some sink" "reader_plan lib f = PlanPlanes" "planes_room lib f"
    and dsts: "ml_map lib (vf_width f) (vf_height f) Format_YUV420P = Some dsts"
    and p: "p \<in> {1, 2}" and rc: "0 \<le> row" "row < plane_rows (vf_height f) p" "0 \<le> col" "col < fst (dsts ! p)"
  shows "\<exists>q. pushFrame lib f r = Inr (rd_emit (SetVideoFrame sink q) r) \<and>
    snd (qv_planes q ! p) ! nat (row * fst (dsts ! p) + col) =
      (if row < vf_height f div 2 \<and> col < vf_width f div 2
       then snd (vf_planeInfos f ! p) ! nat (row * fst (vf_planeInfos f ! p) + col)
       else snd (dsts ! p) ! nat (row * fst (dsts ! p) + col))"
proof -
  have f: "span_of f \<noteq> []" "0 < vf_width f" "0 < vf_height f" "vf_type f = BUF_I420" "3 \<le> length (vf_planeInfos f)"
    using assms(2) by (auto simp: reader_plan_def split: if_splits option.splits)
  obtain ds dsts' where q: "push_i420 lib sink f r = Inr (rd_emit (SetVideoFrame sink
       \<lparr>qv_width = vf_width f, qv_height = vf_height f, qv_format = Format_YUV420P, qv_planes = dsts'\<rparr>) r)"
    and ds: "ml_map lib (vf_width f) (vf_height f) Format_YUV420P = Some ds"
    and ok': "planes_ok (strides_hold (vf_width f)) (vf_height f) 0 3 (vf_planeInfos f) ds"
    and cp: "\<And>p. p < 3 \<Longrightarrow> 0 < fst (ds ! p) \<and> fst (dsts' ! p) = fst (ds ! p) \<and>
      copied (reader_rows (vf_height f) p) (reader_cols (vf_width f) p 0 0) (fst (ds ! p))
        (fst (vf_planeInfos f ! p)) (snd (vf_planeInfos f ! p)) (snd (ds ! p)) (snd (dsts' ! p))"
    by (rule push_i420_copied [OF order_less_imp_le [OF f(3)] assms(3), of sink r]) blast
  have "ds = dsts" using ds dsts by simp
  moreover have "p < 3" using p by auto
  ultimately have ok: "planes_ok (strides_hold (vf_width f)) (vf_height f) 0 3 (vf_planeInfos f) dsts"
    and c: "copied (reader_rows (vf_height f) p) (reader_cols (vf_width f) p 0 0) (fst (dsts ! p))
        (fst (vf_planeInfos f ! p)) (snd (vf_planeInfos f ! p)) (snd (dsts ! p)) (snd (dsts' ! p))"
    and pos: "0 < fst (dsts ! p)"
    using ok' cp [of p] by simp_all
  have "plane_complete (vf_height f) p (dsts ! p)" using planes_ok_nth [OF ok, of p] p by auto
  moreover have "row * fst (dsts ! p) + col < plane_rows (vf_height f) p * fst (dsts ! p)"
    using row_offset_bound [OF rc(1,2), of "col + 1" "fst (dsts ! p)"] rc by simp
  ultimately have "row * fst (dsts ! p) + col < int (length (snd (dsts ! p)))"
    by (simp add: plane_complete_def)
  with c rc p f have "snd (dsts' ! p) ! nat (row * fst (dsts ! p) + col) =
      (if row < vf_height f div 2 \<and> col < vf_width f div 2
       then snd (vf_planeInfos f ! p) ! nat (row * fst (vf_planeInfos f ! p) + col)
       else snd (dsts ! p) ! nat (row * fst (dsts ! p) + col))"
    by (auto simp: copied_def reader_rows_def reader_cols_def c_div2_nonneg)
  moreover have "pushFrame lib f r = push_i420 lib sink f r"
    using f assms(1) by (auto simp: pushFrame_def span_of_def split: option.splits)
  ultimately show ?thesis using q by auto
qed

theorem reader_odd_size_loses_chroma_witness:
  "\<exists>q. pushFrame qt_ref (sample_i420 3 3) sample_reader = Inr (rd_emit (SetVideoFrame 5 q) sample_reader)
     \<and> snd (qv_planes q ! 1) ! 4 = 0 \<and> snd (vf_planeInfos (sample_i420 3 3) ! 1) ! 3 = 20"
proof -
  let ?dsts = "[(5, replicate 15 0), (4, replicate 8 0), (4, replicate 8 0)] :: plane list"
  have "rd_videoSink sample_reader = Some 5" "reader_plan qt_ref (sample_i420 3 3) = PlanPlanes"
    "planes_room qt_ref (sample_i420 3 3)"
    "ml_map qt_ref (vf_width (sample_i420 3 3)) (vf_height (sample_i420 3 3)) Format_YUV420P = Some ?dsts"
    "(1 :: nat) \<in> {1, 2}" "(0 :: int) \<le> 1" "1 < plane_rows (vf_height (sample_i420 3 3)) 1" "(0 :: int) \<le> 0"
    "0 < fst (?dsts ! 1)"
    by code_simp+
  from reader_odd_size_loses_chroma [OF this] show ?thesis by (simp add: sample_i420_def)
qed

text \<open>The packed path copies without looking at the size of Qt's buffer: with a sink and a
  mapped plane, it writes out of bounds exactly when the image has more bytes than the plane, and
  otherwise it returns and shows the image.\<close>

theorem pushSpan_bounds:
  assumes "rd_videoSink r = Some sink" and "ml_map lib w h fmt = Some ((stride, bits) # planes)"
  shows "(pushSpan lib bytes w h fmt r = Inl OutOfBounds \<longleftrightarrow> length bits < length bytes)
    \<and> (length bytes \<le> length bits \<longrightarrow> (\<exists>q. pushSpan lib bytes w h fmt r =
         Inr (True, rd_emit (SetVideoFrame sink q) r) \<and> holds_packed bytes q))"
proof (cases "length bytes \<le> length bits")
  case True
  then have "packed_room lib w h fmt bytes" using assms(2) by (simp add: packed_room_def)
  from pushSpan_room [OF assms(1) this] True show ?thesis by (metis Inl_Inr_False leD)
next
  case False
  then show ?thesis using assms by (auto simp: pushSpan_def memcpy_def)
qed

theorem pushSpan_bounds_witness:
  "pushSpan qt_ref [1, 2, 3, 4, 5] 1 1 Format_RGBA8888 sample_reader = Inl OutOfBounds"
  using pushSpan_bounds [of sample_reader 5 qt_ref 1 1 Format_RGBA8888 4 "[0, 0, 0, 0]" "[]" "[1, 2, 3, 4, 5]"]
  by (simp add: sample_reader_def qt_ref_def numeral_eq_Suc)

text \<open>Setting the sink it already has changes nothing; another one shows the placeholder there.\<close>

lemma rd_setVideoSink_same: "rd_setVideoSink lib (rd_videoSink r) r = Inr r"
  by (simp add: rd_setVideoSink_def)

lemma pushSpan_keeps:
  "pushSpan lib bytes w h fmt r = Inr (b, r') \<Longrightarrow> rd_videoSink r' = rd_videoSink r \<and> rd_placeholder r' = rd_placeholder r"
  by (auto simp: pushSpan_def rd_emit_def split: option.splits list.splits)

lemma push_placeholder_keeps:
  "push_placeholder lib r = Inr r' \<Longrightarrow> rd_videoSink r' = rd_videoSink r \<and> rd_placeholder r' = rd_placeholder r"
  by (auto simp: push_placeholder_def split: option.splits dest: pushSpan_keeps)

lemma push_rgba_keeps:
  "push_rgba lib f r = Inr r' \<Longrightarrow> rd_videoSink r' = rd_videoSink r \<and> rd_placeholder r' = rd_placeholder r"
  by (auto simp: push_rgba_def split: option.splits if_splits dest!: pushSpan_keeps push_placeholder_keeps)

lemma pushFrame_keeps:
  "pushFrame lib f r = Inr r' \<Longrightarrow> rd_videoSink r' = rd_videoSink r \<and> rd_placeholder r' = rd_placeholder r"
  by (auto simp: pushFrame_def push_i420_def rd_emit_def split: if_splits option.splits
      dest: push_placeholder_keeps push_rgba_keeps)

lemma rd_setVideoSink_sink: "rd_setVideoSink lib sink r = Inr r' \<Longrightarrow> rd_videoSink r' = sink"
  by (auto simp: rd_setVideoSink_def rd_emit_def split: if_splits dest!: push_placeholder_keeps)

end
