(* ===== verification/Future_Watcher.thy ===== *)
theory Future_Watcher
  imports Prelude
begin

text \<open>
  The pattern by which the client runs a blocking call off the user interface's thread:
  \<open>if (watcher && watcher->isRunning()) return; \<dots> watcher = new QFutureWatcher; \<dots>
  watcher->setFuture(QtConcurrent::run(\<dots>))\<close>, with a handler of \<open>finished\<close> that reads
  \<open>watcher->result()\<close> and sets the member to null. \<open>DirectorTransport::connectToRoom\<close> and
  \<open>CameraSessionController::start\<close> both contain it.
\<close>

datatype 'j job = Running 'j | Finished bool

text \<open>The \<open>i\<close>-th watcher created watches job \<open>i\<close>; \<open>ws_current\<close> is the member variable.\<close>

record 'j watcher_slot =
  ws_current :: "nat option"
  ws_jobs :: "'j job list"

definition new_slot :: "'j watcher_slot" where
  "new_slot = \<lparr>ws_current = None, ws_jobs = []\<rparr>"

fun is_running :: "'j job \<Rightarrow> bool" where
  "is_running (Running j) = True"
| "is_running (Finished b) = False"

definition ws_busy :: "'j watcher_slot \<Rightarrow> bool" where
  "ws_busy s = (case ws_current s of None \<Rightarrow> False | Some i \<Rightarrow> is_running (ws_jobs s ! i))"

definition ws_launch :: "'j \<Rightarrow> 'j watcher_slot \<Rightarrow> 'j watcher_slot" where
  "ws_launch j s = \<lparr>ws_current = Some (length (ws_jobs s)), ws_jobs = ws_jobs s @ [Running j]\<rparr>"

definition ws_set :: "nat \<Rightarrow> 'j job \<Rightarrow> 'j watcher_slot \<Rightarrow> 'j watcher_slot" where
  "ws_set i j s = s\<lparr>ws_jobs := (ws_jobs s)[i := j]\<rparr>"

text \<open>
  The first lines of the handler: \<open>result()\<close> of the member's watcher, which waits while its
  job runs (\<open>None\<close>), \<open>deleteLater\<close>, and the member set to null. The member, not the watcher
  that finished, is read: when it is null the handler dereferences it.
\<close>

definition ws_result :: "'j watcher_slot \<Rightarrow> (bool \<times> 'j watcher_slot) run option" where
  "ws_result s =
     (case ws_current s of
        None \<Rightarrow> Some (Inl NullDeref)
      | Some i \<Rightarrow> (case ws_jobs s ! i of
            Running j \<Rightarrow> None
          | Finished b \<Rightarrow> Some (Inr (b, s\<lparr>ws_current := None\<rparr>))))"

text \<open>Only the member's watcher can have an unfinished job, so there is at most one.\<close>

definition ws_inv :: "'j watcher_slot \<Rightarrow> bool" where
  "ws_inv s \<longleftrightarrow> (\<forall>i < length (ws_jobs s). is_running (ws_jobs s ! i) \<longrightarrow> ws_current s = Some i)
     \<and> (\<forall>i. ws_current s = Some i \<longrightarrow> i < length (ws_jobs s))"

lemma ws_invI:
  "(\<And>i. i < length (ws_jobs s) \<Longrightarrow> is_running (ws_jobs s ! i) \<Longrightarrow> ws_current s = Some i) \<Longrightarrow>
   (\<And>i. ws_current s = Some i \<Longrightarrow> i < length (ws_jobs s)) \<Longrightarrow> ws_inv s"
  unfolding ws_inv_def by blast

lemma ws_invD:
  assumes "ws_inv s"
  shows "i < length (ws_jobs s) \<Longrightarrow> is_running (ws_jobs s ! i) \<Longrightarrow> ws_current s = Some i"
    and "ws_current s = Some i \<Longrightarrow> i < length (ws_jobs s)"
  using assms unfolding ws_inv_def by blast+

lemma ws_inv_new: "ws_inv new_slot"
  by (rule ws_invI) (simp_all add: new_slot_def)

lemma ws_inv_launch:
  assumes "ws_inv s" "\<not> ws_busy s"
  shows "ws_inv (ws_launch j s)"
proof (rule ws_invI)
  fix i
  assume i: "i < length (ws_jobs (ws_launch j s))" "is_running (ws_jobs (ws_launch j s) ! i)"
  show "ws_current (ws_launch j s) = Some i"
  proof (cases "i < length (ws_jobs s)")
    case True
    with i have r: "is_running (ws_jobs s ! i)" by (simp add: ws_launch_def nth_append)
    with ws_invD(1) [OF assms(1) True] assms(2) show ?thesis by (simp add: ws_busy_def)
  next
    case False
    with i show ?thesis by (simp add: ws_launch_def)
  qed
qed (simp add: ws_launch_def)

lemma ws_inv_set:
  assumes "ws_inv s" "is_running (ws_jobs s ! i)" "i < length (ws_jobs s)"
  shows "ws_inv (ws_set i j s)"
proof (rule ws_invI)
  fix k
  assume k: "k < length (ws_jobs (ws_set i j s))" "is_running (ws_jobs (ws_set i j s) ! k)"
  show "ws_current (ws_set i j s) = Some k"
  proof (cases "k = i")
    case True
    then show ?thesis using ws_invD(1) [OF assms(1,3,2)] by (simp add: ws_set_def)
  next
    case False
    then show ?thesis using k ws_invD(1) [OF assms(1), of k] by (simp add: ws_set_def)
  qed
qed (use ws_invD(2) [OF assms(1)] in \<open>simp add: ws_set_def\<close>)

lemma ws_result_Inr:
  assumes "ws_result s = Some (Inr (b, s'))"
  shows "\<exists>i. ws_current s = Some i \<and> ws_jobs s ! i = Finished b" "s' = s\<lparr>ws_current := None\<rparr>"
  using assms by (simp_all add: ws_result_def split: option.splits job.splits)

lemma ws_inv_result:
  assumes "ws_inv s" "ws_result s = Some (Inr (b, s'))"
  shows "ws_inv s'"
proof (rule ws_invI)
  obtain c where c: "ws_current s = Some c" "ws_jobs s ! c = Finished b" using ws_result_Inr [OF assms(2)] by blast
  fix i
  assume i: "i < length (ws_jobs s')" "is_running (ws_jobs s' ! i)"
  with ws_result_Inr(2) [OF assms(2)] have "ws_current s = Some i" using ws_invD(1) [OF assms(1), of i] by simp
  with c i ws_result_Inr(2) [OF assms(2)] show "ws_current s' = Some i" by simp
qed (use ws_result_Inr(2) [OF assms(2)] in simp)

lemma ws_unique:
  assumes "ws_inv s" "i < length (ws_jobs s)" "k < length (ws_jobs s)"
    and "is_running (ws_jobs s ! i)" "is_running (ws_jobs s ! k)"
  shows "i = k"
  using ws_invD(1) [OF assms(1,2,4)] ws_invD(1) [OF assms(1,3,5)] by simp

end
