(* ===== verification/Session_Controller.thy ===== *)
theory Session_Controller
  imports Camera_Session Frame_Reader Future_Watcher
begin

text \<open>
  \<open>client/src/session/session_controller.cpp\<close>: the operator's controller. \<open>start\<close> wires the
  preview to the video sink and runs \<open>CameraSession::start\<close> in a worker; \<open>stop\<close> stops the
  session on the calling thread. The session is that of \<open>Camera_Session\<close>, the watcher that of
  \<open>Future_Watcher\<close>, and a call of the session is one step.
\<close>

section \<open>The preview\<close>

text \<open>The callback of the pipeline: the frame it hands to the sink, if any.\<close>

definition preview_callback :: "media_lib \<Rightarrow> Frame \<Rightarrow> qvideo_frame option run" where
  "preview_callback lib f =
     (case fr_frame f of
        None \<Rightarrow> Inr None
      | Some af \<Rightarrow>
         (case ml_map lib (fr_width f) (fr_height f) Format_YUV420P of
            None \<Rightarrow> Inr None
          | Some dsts \<Rightarrow>
              andThen (copy_planes (preview_rows (fr_height f)) min_cols 0 3 (zip (af_linesize af) (af_data af)) dsts)
                (\<lambda>planes. Inr (Some \<lparr>qv_width = fr_width f, qv_height = fr_height f,
                   qv_format = Format_YUV420P, qv_planes = planes\<rparr>))))"

section \<open>State and operations\<close>

datatype controller_signal =
    SessionStarted
  | SessionStopped
  | ErrorOccurred string
  | PreviewSinkChanged

record 'c controller =
  sk_session :: "'c session"
  sk_slot :: "(string \<times> string) watcher_slot"
  sk_previewSink :: "handle option"
  sk_wiredSink :: "handle option"
  sk_events :: "nat list"
  sk_signals :: "controller_signal list"

definition new_controller :: "ledger \<Rightarrow> gst_heap \<Rightarrow> 'c controller" where
  "new_controller L H = \<lparr>sk_session = new_session L H, sk_slot = new_slot, sk_previewSink = None, sk_wiredSink = None,
     sk_events = [], sk_signals = []\<rparr>"

definition sk_emit :: "controller_signal \<Rightarrow> 'c controller \<Rightarrow> 'c controller" where
  "sk_emit sig k = k\<lparr>sk_signals := sk_signals k @ [sig]\<rparr>"

definition wire_preview :: "'c controller \<Rightarrow> 'c controller" where
  "wire_preview k =
     (if sk_previewSink k \<noteq> None
      then k\<lparr>sk_session := cs_setPreviewCallback True (sk_session k), sk_wiredSink := sk_previewSink k\<rparr>
      else k)"

definition sk_start :: "string \<Rightarrow> string \<Rightarrow> 'c controller \<Rightarrow> 'c controller" where
  "sk_start whipUrl streamKey k =
     (if ws_busy (sk_slot k) then k
      else let k = wire_preview k in k\<lparr>sk_slot := ws_launch (whipUrl, streamKey) (sk_slot k)\<rparr>)"

text \<open>The worker: \<open>session_->start(std_url, std_key)\<close>, and its future finished.\<close>

definition sk_worker :: "'c session_env \<Rightarrow> nat \<Rightarrow> 'c controller \<Rightarrow> 'c controller run" where
  "sk_worker env i k =
     (case ws_jobs (sk_slot k) ! i of
        Running (url, key) \<Rightarrow> andThen (cs_start env url key (sk_session k))
          (\<lambda>(ok, s). Inr (k\<lparr>sk_session := s, sk_slot := ws_set i (Finished ok) (sk_slot k), sk_events := sk_events k @ [i]\<rparr>))
      | Finished b \<Rightarrow> Inr k)"

text \<open>The watcher's \<open>finished\<close>; \<open>None\<close> when it waits for a worker that still runs.\<close>

definition start_finished :: "'c controller \<Rightarrow> 'c controller run option" where
  "start_finished k =
     map_option (\<lambda>res. andThen res (\<lambda>(success, slot).
        Inr (sk_emit (if success then SessionStarted else ErrorOccurred ''Failed to start camera session'')
               (k\<lparr>sk_slot := slot\<rparr>)))) (ws_result (sk_slot k))"

definition sk_dispatch :: "'c controller \<Rightarrow> 'c controller run option" where
  "sk_dispatch k = (case sk_events k of [] \<Rightarrow> None | i # is \<Rightarrow> start_finished (k\<lparr>sk_events := is\<rparr>))"

definition sk_stop :: "'c session_env \<Rightarrow> 'c controller \<Rightarrow> 'c controller run" where
  "sk_stop env k = andThen (cs_stop env (sk_session k)) (\<lambda>s. Inr (sk_emit SessionStopped (k\<lparr>sk_session := s\<rparr>)))"

definition setPreviewSink :: "handle option \<Rightarrow> 'c controller \<Rightarrow> 'c controller" where
  "setPreviewSink sink k =
     (if sk_previewSink k = sink then k else sk_emit PreviewSinkChanged (k\<lparr>sk_previewSink := sink\<rparr>))"

text \<open>
  The destructor waits for the last start and stops nothing; then the session goes, members in
  reverse order: the publisher before the pipeline. Packets that the encode thread still
  produces in between (\<open>se_left\<close> frames) go to the destroyed publisher.
\<close>

definition cs_destroy :: "'c session_env \<Rightarrow> bool \<Rightarrow> 'c session \<Rightarrow> (ledger \<times> gst_heap) run" where
  "cs_destroy env late s =
     andThen (whip_destroy (se_eos env) (cs_whip s) (cs_heap s)) (\<lambda>H.
       andThen (if vp_encodeThread (cs_pipeline s) then encode_some (se_av env) (se_left env) (cs_pipeline s)
                else Inr ([], cs_pipeline s)) (\<lambda>(out, vp).
         if out \<noteq> [] then Inl UseAfterFree
         else andThen (vp_destroy (se_av env) late vp (cs_ledger s)) (\<lambda>L. Inr (L, H))))"

definition sk_destroy :: "'c session_env \<Rightarrow> bool \<Rightarrow> 'c controller \<Rightarrow> (ledger \<times> gst_heap) run" where
  "sk_destroy env late k =
     andThen (if ws_jobs (sk_slot k) \<noteq> [] then sk_worker env (length (ws_jobs (sk_slot k)) - 1) k else Inr k)
       (\<lambda>k. cs_destroy env late (sk_session k))"

section \<open>Properties\<close>

text \<open>C36: The preview shows the captured frame: with planes that are complete on both sides the
  callback returns, stays inside every buffer and delivers a frame of the same size in which
  each byte of a row is the captured one up to the smaller stride; only half the rows, rounded
  down, of the chroma planes are taken, so for an odd height the last chroma row keeps what the
  mapped buffer held.\<close>

theorem preview_copies_frame:
  assumes "fr_frame f = Some af" "ml_map lib (fr_width f) (fr_height f) Format_YUV420P = Some dsts" "0 \<le> fr_height f"
    and ok: "planes_ok strides_nonneg (fr_height f) 0 3 (zip (af_linesize af) (af_data af)) dsts"
  shows "\<exists>q. preview_callback lib f = Inr (Some q) \<and> qv_width q = fr_width f \<and> qv_height q = fr_height f
    \<and> (\<forall>p < 3. \<forall>row col. 0 \<le> row \<and> row < plane_rows (fr_height f) p \<and> 0 \<le> col \<and> col < fst (dsts ! p) \<longrightarrow>
         snd (qv_planes q ! p) ! nat (row * fst (dsts ! p) + col) =
           (if row < (if p = 0 then fr_height f else fr_height f div 2) \<and> col < fst (zip (af_linesize af) (af_data af) ! p)
            then snd (zip (af_linesize af) (af_data af) ! p) ! nat (row * fst (zip (af_linesize af) (af_data af) ! p) + col)
            else snd (dsts ! p) ! nat (row * fst (dsts ! p) + col)))"
proof -
  let ?srcs = "zip (af_linesize af) (af_data af)" and ?h = "fr_height f"
  from preview_copy.copy_planes_correct [OF assms(3) ok] obtain pl where
    c: "copy_planes (preview_rows ?h) min_cols 0 3 ?srcs dsts = Inr pl"
    and cp: "\<forall>i < 3. fst (pl ! i) = fst (dsts ! i) \<and>
      copied (preview_rows ?h (0 + i)) (min_cols (0 + i) (fst (?srcs ! i)) (fst (dsts ! i))) (fst (dsts ! i))
        (fst (?srcs ! i)) (snd (?srcs ! i)) (snd (dsts ! i)) (snd (pl ! i))"
    by blast
  have "snd (pl ! p) ! nat (row * fst (dsts ! p) + col) =
      (if row < (if p = 0 then ?h else ?h div 2) \<and> col < fst (?srcs ! p)
       then snd (?srcs ! p) ! nat (row * fst (?srcs ! p) + col) else snd (dsts ! p) ! nat (row * fst (dsts ! p) + col))"
    if "p < 3" "0 \<le> row" "row < plane_rows ?h p" "0 \<le> col" "col < fst (dsts ! p)" for p row col
  proof -
    have "plane_complete ?h p (dsts ! p)" using planes_ok_nth [OF ok that(1)] by simp
    moreover have "row * fst (dsts ! p) + (col + 1) \<le> plane_rows ?h p * fst (dsts ! p)"
      using that by (intro row_offset_bound) auto
    ultimately have "row * fst (dsts ! p) + col < int (length (snd (dsts ! p)))" by (simp add: plane_complete_def)
    with cp that assms(3) show ?thesis
      by (auto simp: copied_def preview_rows_def min_cols_def c_div2_nonneg)
  qed
  with c assms(1,2) show ?thesis by (simp add: preview_callback_def)
qed

text \<open>A stop that comes while the start is still waiting for its worker.\<close>

lemma quiet_wire: "quiet (sk_session k) \<Longrightarrow> quiet (sk_session (wire_preview k))"
  by (simp add: wire_preview_def quiet_def cs_setPreviewCallback_def setPreviewCallback_def)

lemma wire_preview_keeps [keeps]:
  "sk_slot (wire_preview k) = sk_slot k" "sk_events (wire_preview k) = sk_events k" "sk_signals (wire_preview k) = sk_signals k"
  by (simp_all add: wire_preview_def)

text \<open>C37: Stopping during a pending start does not stop the session. From an idle controller, a
  \<open>stop\<close> between \<open>start\<close> and the worker changes nothing and announces \<open>sessionStopped\<close>; when
  the worker then succeeds, camera, encoder and publisher run, and \<open>sessionStarted\<close> is
  announced after it.\<close>

theorem stop_during_start_keeps_running:
  assumes "\<not> ws_busy (sk_slot k)" "quiet (sk_session k)" "sk_events k = []"
    and "cs_start env' url key (sk_session (sk_start url key k)) = Inr (True, s)"
  shows "\<exists>k2 k3 k4. sk_stop env (sk_start url key k) = Inr k2 \<and> sk_session k2 = sk_session (sk_start url key k)
    \<and> sk_worker env' (length (ws_jobs (sk_slot k))) k2 = Inr k3 \<and> all_running (sk_session k3)
    \<and> sk_dispatch k3 = Some (Inr k4) \<and> all_running (sk_session k4)
    \<and> sk_signals k4 = sk_signals k @ [SessionStopped, SessionStarted]"
proof -
  let ?n = "length (ws_jobs (sk_slot k))" and ?k1 = "sk_start url key k"
  have k1: "?k1 = (wire_preview k)\<lparr>sk_slot := ws_launch (url, key) (sk_slot k)\<rparr>"
    using assms(1) by (simp add: sk_start_def Let_def keeps)
  have q: "quiet (sk_session ?k1)" unfolding k1 using quiet_wire [OF assms(2)] by simp
  then have st: "sk_stop env ?k1 = Inr (sk_emit SessionStopped ?k1)"
    by (simp add: sk_stop_def cs_stop_def quiet_def)
  have run: "all_running s" using cs_start_outcome [OF assms(4) q] by simp
  let ?k2 = "sk_emit SessionStopped ?k1"
  let ?k3 = "?k2\<lparr>sk_session := s, sk_slot := ws_set ?n (Finished True) (sk_slot ?k2), sk_events := [?n]\<rparr>"
  have job: "ws_jobs (sk_slot ?k2) ! ?n = Running (url, key)" by (simp add: k1 sk_emit_def ws_launch_def)
  have w: "sk_worker env' ?n ?k2 = Inr ?k3"
    using assms(3,4) job by (simp add: sk_worker_def sk_emit_def k1 keeps)
  have res: "ws_result (ws_set ?n (Finished True) (sk_slot ?k2))
      = Some (Inr (True, (ws_set ?n (Finished True) (sk_slot ?k2))\<lparr>ws_current := None\<rparr>))"
    by (simp add: ws_result_def ws_set_def k1 sk_emit_def ws_launch_def)
  let ?k4 = "sk_emit SessionStarted (?k3\<lparr>sk_events := [], sk_slot := (ws_set ?n (Finished True) (sk_slot ?k2))\<lparr>ws_current := None\<rparr>\<rparr>)"
  have "sk_dispatch ?k3 = Some (Inr ?k4)"
    using res by (simp add: sk_dispatch_def start_finished_def)
  moreover have "sk_signals ?k4 = sk_signals k @ [SessionStopped, SessionStarted]"
    by (simp add: sk_emit_def k1 keeps)
  moreover have "sk_session ?k2 = sk_session ?k1" "sk_session ?k3 = s" "sk_session ?k4 = s" by (simp_all add: sk_emit_def)
  ultimately show ?thesis using st w run by metis
qed

text \<open>A second start before the first one's \<open>finished\<close> has been delivered ends in a null
  dereference: the guard lets it through because the first job is done, the first event then
  consumes the second watcher's result and clears the member, and the second event reads it.\<close>

theorem double_start_faults:
  assumes "sk_events k = [i]" "ws_current (sk_slot k) = Some i" "ws_jobs (sk_slot k) ! i = Finished b"
    and "cs_start env url key (sk_session (sk_start url key k)) = Inr (b', s)"
  shows "\<exists>k2 k3. sk_worker env (length (ws_jobs (sk_slot k))) (sk_start url key k) = Inr k2
    \<and> sk_dispatch k2 = Some (Inr k3) \<and> sk_dispatch k3 = Some (Inl NullDeref)"
proof -
  let ?n = "length (ws_jobs (sk_slot k))" and ?k1 = "sk_start url key k"
  have "\<not> ws_busy (sk_slot k)" using assms(2,3) by (simp add: ws_busy_def)
  then have k1: "?k1 = (wire_preview k)\<lparr>sk_slot := ws_launch (url, key) (sk_slot k)\<rparr>"
    by (simp add: sk_start_def Let_def keeps)
  let ?slot = "ws_set ?n (Finished b') (ws_launch (url, key) (sk_slot k))"
  let ?k2 = "?k1\<lparr>sk_session := s, sk_slot := ?slot, sk_events := [i, ?n]\<rparr>"
  have w: "sk_worker env ?n ?k1 = Inr ?k2"
    using assms(1,4) by (simp add: sk_worker_def k1 keeps ws_launch_def)
  have r: "ws_result ?slot = Some (Inr (b', ?slot\<lparr>ws_current := None\<rparr>))"
    by (simp add: ws_result_def ws_set_def ws_launch_def)
  let ?k3 = "sk_emit (if b' then SessionStarted else ErrorOccurred ''Failed to start camera session'')
    (?k2\<lparr>sk_events := [?n], sk_slot := ?slot\<lparr>ws_current := None\<rparr>\<rparr>)"
  have "sk_dispatch ?k2 = Some (Inr ?k3)" using r by (simp add: sk_dispatch_def start_finished_def)
  moreover have "sk_dispatch ?k3 = Some (Inl NullDeref)"
    by (simp add: sk_dispatch_def start_finished_def sk_emit_def ws_result_def)
  ultimately show ?thesis using w by blast
qed

section \<open>Destruction\<close>

text \<open>No start is pending: the destructor does not wait.\<close>

definition no_start_pending :: "'c controller \<Rightarrow> bool" where
  "no_start_pending k \<longleftrightarrow> ws_jobs (sk_slot k) = [] \<or> \<not> is_running (last (ws_jobs (sk_slot k)))"

lemma sk_destroy_no_start: "no_start_pending k \<Longrightarrow> sk_destroy env late k = cs_destroy env late (sk_session k)"
  by (cases "last (ws_jobs (sk_slot k))")
    (auto simp: sk_destroy_def sk_worker_def no_start_pending_def last_conv_nth split: if_splits)

lemma cs_destroy_quiet:
  assumes "quiet s" "vp_owns L (cs_pipeline s) (cs_ledger s)" "whip_owns LH (cs_whip s) (cs_heap s)"
    and "codec_drains (se_av env)" "allocs_succeed (se_av env)"
  shows "\<exists>L' H'. cs_destroy env late s = Inr (L', H') \<and> set (live L') = set (live L)
    \<and> set (live (gh_ledger H')) = set (live LH)"
proof -
  obtain H' where h: "whip_destroy (se_eos env) (cs_whip s) (cs_heap s) = Inr H'" "set (live (gh_ledger H')) = set (live LH)"
    using whip_destroy_owns [OF assms(3)] by blast
  have "late \<longrightarrow> (\<forall>cam. vp_capture (cs_pipeline s) = Some cam \<longrightarrow> \<not> cam_running cam)" using assms(1) by (simp add: quiet_def)
  from vp_destroy_owns [OF assms(2,4,5) this] obtain L' where
    l: "vp_destroy (se_av env) late (cs_pipeline s) (cs_ledger s) = Inr L'" "set (live L') = set (live L)" by blast
  have "\<not> vp_encodeThread (cs_pipeline s)" using assms(1) by (simp add: quiet_def)
  with h l show ?thesis by (simp add: cs_destroy_def)
qed


section \<open>Controller witnesses\<close>

definition demo_preview :: "int \<Rightarrow> int \<Rightarrow> Frame" where
  "demo_preview w h = \<lparr>fr_frame = Some \<lparr>af_format = PIX_FMT_YUV420P, af_width = w, af_height = h, af_linesize = [w, w, w],
       af_data = [replicate (nat (w * h)) 1, replicate (nat (w * ((h + 1) div 2))) 2, replicate (nat (w * ((h + 1) div 2))) 3],
       af_color_range = RANGE_MPEG, af_pict_type = PICTURE_TYPE_NONE, af_pts = 0\<rparr>,
     fr_pts = 0, fr_width = w, fr_height = h, fr_format = PIX_FMT_YUV420P\<rparr>"

theorem preview_copies_frame_witness:
  "\<exists>q. preview_callback qt_ref (demo_preview 4 3) = Inr (Some q) \<and> snd (qv_planes q ! 1) ! 5 = 0 \<and> snd (qv_planes q ! 1) ! 0 = 2"
proof -
  let ?af = "the (fr_frame (demo_preview 4 3))"
  let ?dsts = "[(6, replicate 18 0), (5, replicate 10 0), (5, replicate 10 0)] :: plane list"
  have "fr_frame (demo_preview 4 3) = Some ?af" by (simp add: demo_preview_def)
  moreover have "ml_map qt_ref (fr_width (demo_preview 4 3)) (fr_height (demo_preview 4 3)) Format_YUV420P = Some ?dsts"
    "0 \<le> fr_height (demo_preview 4 3)"
    "planes_ok strides_nonneg (fr_height (demo_preview 4 3)) 0 3 (zip (af_linesize ?af) (af_data ?af)) ?dsts"
    by code_simp+
  ultimately obtain q where "preview_callback qt_ref (demo_preview 4 3) = Inr (Some q)" and
    b: "\<forall>p < 3. \<forall>row col. 0 \<le> row \<and> row < plane_rows (fr_height (demo_preview 4 3)) p \<and> 0 \<le> col \<and> col < fst (?dsts ! p) \<longrightarrow>
         snd (qv_planes q ! p) ! nat (row * fst (?dsts ! p) + col) =
           (if row < (if p = 0 then fr_height (demo_preview 4 3) else fr_height (demo_preview 4 3) div 2)
               \<and> col < fst (zip (af_linesize ?af) (af_data ?af) ! p)
            then snd (zip (af_linesize ?af) (af_data ?af) ! p) ! nat (row * fst (zip (af_linesize ?af) (af_data ?af) ! p) + col)
            else snd (?dsts ! p) ! nat (row * fst (?dsts ! p) + col))"
    using preview_copies_frame [of "demo_preview 4 3" ?af qt_ref ?dsts] by blast
  from b [rule_format, of 1 1 0] b [rule_format, of 1 0 0]
  have "snd (qv_planes q ! 1) ! 5 = 0" "snd (qv_planes q ! 1) ! 0 = 2"
    by (simp_all add: demo_preview_def plane_rows_def)
  then show ?thesis using \<open>preview_callback qt_ref (demo_preview 4 3) = Inr (Some q)\<close> by blast
qed

abbreviation demo_controller :: "av_packet list controller" where
  "demo_controller \<equiv> new_controller no_objects empty_heap"

lemma demo_start_session: "sk_session (sk_start ''u'' ''k'' demo_controller) = new_session no_objects empty_heap"
  by (simp add: sk_start_def wire_preview_def new_controller_def Let_def)

theorem stop_during_start_keeps_running_witness:
  "\<exists>k2 k3. sk_stop (demo_env True CHANGE_SUCCESS) (sk_start ''u'' ''k'' demo_controller) = Inr k2
     \<and> sk_worker (demo_env True CHANGE_SUCCESS) 0 k2 = Inr k3 \<and> all_running (sk_session k3)"
proof -
  obtain s where "demo_first CHANGE_SUCCESS = Inr (True, s)"
    using demo_first_succeeds by (auto split: sum.splits prod.splits)
  then have "cs_start (demo_env True CHANGE_SUCCESS) ''u'' ''k'' (sk_session (sk_start ''u'' ''k'' demo_controller)) = Inr (True, s)"
    by (simp add: demo_start_session demo_first_def)
  moreover have "\<not> ws_busy (sk_slot demo_controller)" "quiet (sk_session demo_controller)" "sk_events demo_controller = []"
    "length (ws_jobs (sk_slot demo_controller)) = 0"
    by (simp_all add: new_controller_def new_slot_def ws_busy_def quiet_def new_session_def new_publisher_def new_pipeline_def)
  ultimately show ?thesis
    using stop_during_start_keeps_running [of demo_controller "demo_env True CHANGE_SUCCESS" "''u''" "''k''" s "demo_env True CHANGE_SUCCESS"]
    by (metis (no_types))
qed

text \<open>A controller whose first start has finished, with the event still queued.\<close>

definition finished_controller :: "av_packet list controller" where
  "finished_controller = demo_controller\<lparr>sk_slot := \<lparr>ws_current = Some 0, ws_jobs = [Finished False]\<rparr>, sk_events := [0]\<rparr>"

theorem double_start_faults_witness:
  "\<exists>k2 k3. sk_worker (demo_env True CHANGE_SUCCESS) 1 (sk_start ''u'' ''k'' finished_controller) = Inr k2
     \<and> sk_dispatch k2 = Some (Inr k3) \<and> sk_dispatch k3 = Some (Inl NullDeref)"
proof -
  obtain s where "demo_first CHANGE_SUCCESS = Inr (True, s)"
    using demo_first_succeeds by (auto split: sum.splits prod.splits)
  then have "cs_start (demo_env True CHANGE_SUCCESS) ''u'' ''k'' (sk_session (sk_start ''u'' ''k'' finished_controller)) = Inr (True, s)"
    by (simp add: sk_start_def wire_preview_def finished_controller_def new_controller_def Let_def ws_busy_def demo_first_def)
  moreover have "sk_events finished_controller = [0]" "ws_current (sk_slot finished_controller) = Some 0"
    "ws_jobs (sk_slot finished_controller) ! 0 = Finished False" "length (ws_jobs (sk_slot finished_controller)) = 1"
    by (simp_all add: finished_controller_def)
  ultimately show ?thesis
    using double_start_faults [of finished_controller 0 False "demo_env True CHANGE_SUCCESS" "''u''" "''k''" True s] by simp
qed


text \<open>The second case happens: a running session with one frame in the queue.\<close>

lemma destroy_running_demo:
  "case cs_destroy (empty_packets\<lparr>se_left := 1\<rparr>) False
     (demo_session\<lparr>cs_pipeline := (cs_pipeline demo_session)\<lparr>vp_encodeThread := True\<rparr>\<rparr>) of Inl e \<Rightarrow> e = UseAfterFree | Inr r \<Rightarrow> False"
  by code_simp

end
