(* ===== verification/Session_Life.thy ===== *)
theory Session_Life
  imports Session_Threads Session_Controller
begin

text \<open>
  The whole life of a camera session: starts, streaming and stops, one after another, and the
  destruction of the session. The components' ownership invariants are put together here; what
  is new is where packets come from and what each stage hands to the next.
\<close>

section \<open>Packets come from the codec\<close>

definition from_codec :: "'c av_lib \<Rightarrow> Packet \<Rightarrow> bool" where
  "from_codec lib p \<longleftrightarrow> (\<exists>c q c' tb. lib_receive_packet lib c = (Some q, c') \<and> p = wrap_packet lib tb q)"

lemma receive_packets_from:
  assumes "receive_packets lib ctx cb = Inr (ps, ctx')" "p \<in> set ps"
  shows "from_codec lib p"
proof -
  obtain pkts where l: "receive_loop (ctx_receive lib) ctx = Some (pkts, ctx')"
    and ps: "ps = (if cb then map (wrap_packet lib (cp_time_base (ctx_params ctx))) pkts else [])"
    using assms(1) by (auto simp: receive_packets_def split: if_splits option.splits)
  with assms(2) obtain q where q: "q \<in> set pkts" "p = wrap_packet lib (cp_time_base (ctx_params ctx)) q"
    by (auto split: if_splits)
  obtain c c' where "ctx_receive lib c = (Some q, c')" using receive_loop_mem [OF l q(1)] by blast
  then obtain k k' where "lib_receive_packet lib k = (Some q, k')"
    by (auto simp: ctx_receive.simps split: option.splits prod.splits)
  with q(2) show ?thesis by (auto simp: from_codec_def)
qed

lemma submit_frame_from:
  "submit_frame lib inp f ctx e = Inr (r, ps, f', e') \<Longrightarrow> p \<in> set ps \<Longrightarrow> from_codec lib p"
  by (auto simp: submit_frame_def split: prod.splits if_splits dest: receive_packets_from)

lemma encodeFrame_from:
  assumes "encodeFrame lib f e = Inr (r, ps, f', e')" "p \<in> set ps"
  shows "from_codec lib p"
proof (cases "enc_kind e")
  case SoftwareEncoder
  with assms show ?thesis
    by (auto simp: encodeFrame_def sw_encodeFrame_def Let_def split: if_splits option.splits
        dest: submit_frame_from)
next
  case NVENCEncoder
  with assms show ?thesis
    by (auto simp: encodeFrame_def nvenc_encodeFrame_def Let_def split: if_splits option.splits
        dest: submit_frame_from)
qed

lemma enc_stop_from:
  "enc_stop lib e L = Inr (ps, e', L') \<Longrightarrow> p \<in> set ps \<Longrightarrow> from_codec lib p"
  by (auto simp: enc_stop_eq split: option.splits dest: receive_packets_from)

lemma deliver_from: "deliver ps vp = (out, vp') \<Longrightarrow> p \<in> set out \<Longrightarrow> p \<in> set ps"
  by (drule deliver_keeps) (auto split: if_splits)

lemma encode_one_from:
  assumes "encode_one lib f vp = Inr (out, vp')" "p \<in> set out"
  shows "from_codec lib p"
proof -
  from assms obtain e avf r ps avf' e' where enc: "encodeFrame lib avf e = Inr (r, ps, avf', e')"
    and d: "deliver ps (vp\<lparr>vp_encoder := Some e'\<rparr>) = (out, vp')"
    by (auto simp: encode_one_def split: option.splits if_splits)
  show ?thesis using encodeFrame_from [OF enc] deliver_from [OF d] assms(2) by blast
qed

lemma encode_next_from: "encode_next lib vp = Inr (out, vp') \<Longrightarrow> p \<in> set out \<Longrightarrow> from_codec lib p"
  by (auto simp: encode_next_def split: list.splits dest: encode_one_from)

lemma encode_some_from: "encode_some lib n vp = Inr (out, vp') \<Longrightarrow> p \<in> set out \<Longrightarrow> from_codec lib p"
proof (induction n arbitrary: vp out)
  case (Suc n)
  then obtain o1 vp1 o2 where 1: "encode_next lib vp = Inr (o1, vp1)"
    and 2: "encode_some lib n vp1 = Inr (o2, vp')" and out: "out = o1 @ o2" by auto
  from Suc.prems(2) out encode_next_from [OF 1] Suc.IH [OF 2] show ?case by auto
qed simp

lemma vp_finish_from:
  assumes "vp_finish lib vp L = Inr (out, vp', L')" "p \<in> set out"
  shows "from_codec lib p"
proof -
  obtain e where e: "vp_encoder vp = Some e" using assms by (cases "vp_encoder vp") (auto simp: vp_finish_def)
  with assms(1) obtain ps e' L1 where st: "enc_stop lib e L = Inr (ps, e', L1)"
    by (auto simp: vp_finish_def Let_def)
  obtain o2 vp2 where d2: "deliver ps (vp\<lparr>vp_encodeThread := False, vp_encoder := Some e'\<rparr>) = (o2, vp2)"
    by fastforce
  with assms(1) e st have d: "deliver ps (vp\<lparr>vp_encodeThread := False, vp_encoder := Some e'\<rparr>) = (out, vp')"
    by (simp add: vp_finish_def)
  show ?thesis using enc_stop_from [OF st] deliver_from [OF d] assms(2) by blast
qed

lemma vp_stop_from:
  assumes "vp_stop lib n vp L = Inr (r, out, vp', L')" "p \<in> set out"
  shows "from_codec lib p"
proof -
  obtain o1 vp1 o2 where
    1: "(if vp_encodeThread (stop_capture vp) then encode_some lib n (stop_capture vp) else Inr ([], stop_capture vp)) = Inr (o1, vp1)"
    and 2: "vp_finish lib vp1 L = Inr (o2, vp', L')" and out: "out = o1 @ o2"
    using assms(1) by (auto simp: vp_stop_def Let_def)
  have "p \<in> set o1 \<Longrightarrow> from_codec lib p" using 1 encode_some_from by (auto split: if_splits)
  with vp_finish_from [OF 2] out assms(2) show ?thesis by auto
qed

section \<open>Libraries that behave\<close>

text \<open>
  What is asked of the libraries in an environment of the session: GStreamer finds the sink it
  was asked to make and the publisher's elements; the codec runs dry and memory is there; the
  packets of the codec are well formed; and the bus of a failed handshake runs empty.
\<close>

definition packets_ok :: "'c session_env \<Rightarrow> bool" where
  "packets_ok env \<longleftrightarrow> (\<forall>p. from_codec (se_av env) p \<longrightarrow> pushable (se_push env, Some p))"

definition env_ok :: "'c session_env \<Rightarrow> bool" where
  "env_ok env \<longleftrightarrow> (\<forall>c. usable (se_gst env c) \<longrightarrow> gp_sink (se_gst env c))
     \<and> codec_drains (se_av env) \<and> allocs_succeed (se_av env) \<and> packets_ok env
     \<and> (wl_pipeline (se_whip env) \<longrightarrow> has_elements (se_whip env)) \<and> (\<exists>i. sa_pop (se_start env) i = None)"

lemma push_all_ok:
  assumes "whip_owns L w H" "\<forall>x \<in> set ps. pushable x"
  shows "\<exists>bs w'. pushPackets ps w H = Inr (bs, w') \<and> whip_owns L w' H"
  using assms
proof (induction ps arbitrary: w)
  case (Cons x ps)
  obtain a p where x: "x = (a, p)" by fastforce
  with Cons.prems(2) have "pushable (a, p)" by simp
  from pushPacket_ok [OF Cons.prems(1) this] obtain b errs w1 where
    1: "pushPacket a p w H = Inr (b, errs, w1)" "whip_owns L w1 H" by blast
  with Cons.IH [OF 1(2)] Cons.prems(2) x show ?case by (auto simp del: pushable.simps)
qed simp

lemma push_out_ok:
  assumes "whip_owns L w H" "\<forall>p \<in> set out. from_codec (se_av env) p" "packets_ok env"
  shows "\<exists>bs w'. push_out env out w H = Inr (bs, w') \<and> whip_owns L w' H
    \<and> wp_running w' = wp_running w \<and> wp_pipeline w' = wp_pipeline w"
proof -
  have "\<forall>x \<in> set (map (\<lambda>p. (se_push env, Some p)) out). pushable x"
    using assms(2,3) by (auto simp: packets_ok_def simp del: pushable.simps)
  from push_all_ok [OF assms(1) this] obtain bs w' where
    "pushPackets (map (\<lambda>p. (se_push env, Some p)) out) w H = Inr (bs, w')" "whip_owns L w' H" by blast
  with pushPackets_keeps [OF this(1)] show ?thesis by (auto simp: push_out_def)
qed

lemma whip_owns_trans:
  assumes "grows LH [] (gh_ledger H)" "whip_owns (gh_ledger H) w' H'"
  shows "whip_owns LH w' H'"
  using assms grows_trans [OF assms(1)] by (auto simp: whip_owns_def split: option.splits)

section \<open>Starting\<close>

text \<open>
  \<open>grounded\<close>: nothing runs, and everything there is belongs to pipeline or publisher.
  \<open>parked\<close>: also, encoder and publisher hold nothing, as before the first start and after a
  stop. \<open>on_air\<close>: after a successful start.
\<close>

definition grounded :: "ledger \<Rightarrow> ledger \<Rightarrow> 'c session \<Rightarrow> bool" where
  "grounded L LH s \<longleftrightarrow> quiet s \<and> vp_owns L (cs_pipeline s) (cs_ledger s) \<and> whip_owns LH (cs_whip s) (cs_heap s)"

definition parked :: "ledger \<Rightarrow> ledger \<Rightarrow> 'c session \<Rightarrow> bool" where
  "parked L LH s \<longleftrightarrow> grounded L LH s \<and> wp_pipeline (cs_whip s) = None \<and> queue_ok (cs_pipeline s)
     \<and> (\<forall>e. vp_encoder (cs_pipeline s) = Some e \<longrightarrow> enc_ctx e = None \<and> \<not> enc_running e)"

definition on_air :: "ledger \<Rightarrow> ledger \<Rightarrow> 'c session \<Rightarrow> bool" where
  "on_air L LH s \<longleftrightarrow> cs_isRunning s \<and> wp_running (cs_whip s) \<and> vp_owns L (cs_pipeline s) (cs_ledger s)
     \<and> whip_owns LH (cs_whip s) (cs_heap s) \<and> vp_encoder (cs_pipeline s) \<noteq> None \<and> queue_ok (cs_pipeline s)"

text \<open>Initialising a pipeline whose encoder holds nothing, whatever is left of an earlier session.\<close>

lemma replace_capture_owns:
  assumes "vp_owns L vp L1" "vp_enc_handles vp = []" "cam_handles cam = []"
  shows "\<exists>L2. replace_capture cam vp L1 = Inr (vp\<lparr>vp_capture := Some cam\<rparr>, L2) \<and> grows L [] L2"
proof (cases "vp_capture vp")
  case None
  with assms show ?thesis by (simp add: replace_capture_def vp_owns_def vp_cam_handles_def)
next
  case (Some old)
  with assms have "grows L ([] @ cam_handles old) L1" by (simp add: vp_owns_def vp_cam_handles_def)
  from cam_destroy_releases [OF this] obtain cam' L2 where "cam_destroy old L1 = Inr (cam', L2)" "grows L [] L2"
    by blast
  with Some show ?thesis by (simp add: replace_capture_def)
qed

lemma replace_encoder_parked:
  assumes "\<forall>e. vp_encoder vp = Some e \<longrightarrow> enc_ctx e = None \<and> \<not> enc_running e"
  shows "replace_encoder lib new vp L = Inr ([], vp\<lparr>vp_encoder := new\<rparr>, L)"
  using assms by (cases "vp_encoder vp") (simp_all add: replace_encoder_def enc_destroy_eq)

lemma createEncoder_new: "\<exists>k. createEncoder lib cfg = Some (new_encoder k)"
  by (cases "resolve_type lib (ec_type cfg)") (auto simp: createEncoder_def)

lemma vp_initialize_parked:
  assumes own: "vp_owns L vp L1" and q: "queue_ok vp"
    and e: "\<forall>e. vp_encoder vp = Some e \<longrightarrow> enc_ctx e = None \<and> \<not> enc_running e"
    and sinks: "\<forall>c. usable (gst c) \<longrightarrow> gp_sink (gst c)"
  shows "\<exists>r vp' L2. vp_initialize gst pw lib ccfg ecfg vp L1 = Inr (r, [], vp', L2) \<and> vp_owns L vp' L2
    \<and> queue_ok vp' \<and> (\<forall>e. vp_encoder vp' = Some e \<longrightarrow> enc_ctx e = None \<and> \<not> enc_running e)
    \<and> (r = Success \<longrightarrow> vp_encoder vp' \<noteq> None)"
proof -
  let ?vp = "vp\<lparr>vp_encoderConfig := ecfg\<rparr>"
  have eh: "vp_enc_handles vp = []" using e by (auto simp: vp_enc_handles_def enc_owned_def split: option.splits)
  have "vp_owns L ?vp L1" using own by (rule vp_owns_cong) simp_all
  moreover have "vp_enc_handles ?vp = []" using eh by (simp add: vp_enc_handles_def)
  moreover have "cam_handles new_camera = []" by (simp add: cam_handles_def new_camera_def)
  ultimately obtain L2 where rc: "replace_capture new_camera ?vp L1 = Inr (?vp\<lparr>vp_capture := Some new_camera\<rparr>, L2)"
    and g2: "grows L [] L2" using replace_capture_owns by blast
  have "wf_ledger L2" using g2 by (simp add: grows_def)
  with sinks obtain r cam L3 where
    ci: "cam_initialize gst pw ccfg new_camera L2 = Inr (r, cam, L3)" and g3: "grows L2 (cam_handles cam) L3"
    using cam_initialize_grows [of gst L2 pw ccfg] by blast
  let ?vp1 = "?vp\<lparr>vp_capture := Some cam\<rparr>"
  have g: "grows L (cam_handles cam) L3" using grows_trans [OF g2 g3] by simp
  have o1: "vp_owns L ?vp1 L3"
    using g eh own by (simp add: vp_owns_def vp_handles_defs)
  show ?thesis
  proof (cases "r = Success")
    case False
    then have "vp_initialize gst pw lib ccfg ecfg vp L1 = Inr (r, [], ?vp1, L3)"
      using rc ci by (simp add: vp_initialize_def)
    with o1 q e False show ?thesis by (simp add: queue_ok_def)
  next
    case True
    obtain k where k: "createEncoder lib ecfg = Some (new_encoder k)" using createEncoder_new by blast
    let ?vp2 = "?vp1\<lparr>vp_encoder := Some (new_encoder k)\<rparr>"
    have "replace_encoder lib (createEncoder lib ecfg) ?vp1 L3 = Inr ([], ?vp2, L3)"
      using replace_encoder_parked [of ?vp1] e k by simp
    then have "vp_initialize gst pw lib ccfg ecfg vp L1 = Inr (Success, [], ?vp2, L3)"
      using rc ci True by (simp add: vp_initialize_def)
    moreover have "vp_owns L ?vp2 L3"
      using g by (simp add: vp_owns_def vp_handles_defs new_encoder_def enc_owned_def enc_inv_def)
    ultimately show ?thesis using q by (simp add: queue_ok_def new_encoder_def)
  qed
qed

lemma cs_launch_life:
  assumes w: "whip_owns LH (cs_whip s) (cs_heap s)" "\<not> wp_running (cs_whip s)"
    and v: "vp_owns L (cs_pipeline s) (cs_ledger s)" "queue_ok (cs_pipeline s)"
    and e: "vp_encoder (cs_pipeline s) = Some e" "enc_ctx e = None" "\<not> enc_running e"
    and ok: "env_ok env"
  shows "\<exists>b s'. cs_launch env s = Inr (b, s') \<and> vp_owns L (cs_pipeline s') (cs_ledger s')
    \<and> whip_owns LH (cs_whip s') (cs_heap s')
    \<and> (b \<longrightarrow> vp_encoder (cs_pipeline s') \<noteq> None \<and> queue_ok (cs_pipeline s'))"
proof -
  from ok obtain i where i: "sa_pop (se_start env) i = None" and lib: "codec_drains (se_av env)" "allocs_succeed (se_av env)"
    and pk: "packets_ok env" by (auto simp: env_ok_def)
  let ?w = "setKeyframeRequestCallback True (cs_whip s)"
  obtain r lg w3 where
    3: "whip_start (se_start env) ?w = Inr (r, lg, w3)" and k3: "wp_pipeline w3 = wp_pipeline ?w"
      "wp_appsrc w3 = wp_appsrc ?w" "wp_pipeline ?w = None \<longrightarrow> wp_running w3 = wp_running ?w"
    using whip_start_ok [OF i, of ?w] by (elim exE conjE) (rule that)
  have o3: "whip_owns LH w3 (cs_heap s)"
    using whip_owns_cong [OF w(1), of w3] k3 by (simp add: setKeyframeRequestCallback_def)
  show ?thesis
  proof (cases "r = NetSuccess")
    case False
    from vp_stop_owns [OF v(1) lib _ v(2), of "se_left env"] e(1) obtain out vp4 L4 where
      4: "vp_stop (se_av env) (se_left env) (cs_pipeline s) (cs_ledger s) = Inr (Success, out, vp4, L4)"
      and o4: "vp_owns L vp4 L4" by blast
    obtain bs w5 where "push_out env out w3 (cs_heap s) = Inr (bs, w5)" "whip_owns LH w5 (cs_heap s)"
      using push_out_ok [OF o3 _ pk, of out] vp_stop_from [OF 4] by blast
    with 3 4 o4 False show ?thesis by (intro exI [of _ False]) (simp add: cs_launch_def)
  next
    case True
    obtain r5 vp5 L5 where 5: "vp_start (se_av env) (se_play env) (se_now env) True (cs_pipeline s) (cs_ledger s) = (r5, vp5, L5)"
      by (metis prod_cases3)
    from vp_start_owns [OF 5 v(1) e] have o5: "vp_owns L vp5 L5" "vp_encoder vp5 \<noteq> None" "vp_queue vp5 = vp_queue (cs_pipeline s)"
      by auto
    show ?thesis
    proof (cases "r5 = Success")
      case True
      with 3 5 o3 o5 v(2) \<open>r = NetSuccess\<close> show ?thesis
        by (intro exI [of _ True]) (simp add: cs_launch_def queue_ok_def)
    next
      case False
      obtain r6 w6 H6 where "whip_stop (se_eos env) w3 (cs_heap s) = Inr (r6, w6, H6)" "whip_owns LH w6 H6"
        using whip_stop_owns [OF o3] by blast
      with 3 5 o5 False \<open>r = NetSuccess\<close> show ?thesis by (intro exI [of _ False]) (simp add: cs_launch_def)
    qed
  qed
qed

lemma cs_start_life:
  assumes p: "parked L LH s" and ok: "env_ok env"
  shows "\<exists>b s'. cs_start env url key s = Inr (b, s') \<and> (if b then on_air L LH s' else grounded L LH s')"
proof -
  have q: "quiet s" and v: "vp_owns L (cs_pipeline s) (cs_ledger s)" "queue_ok (cs_pipeline s)"
    and e: "\<forall>e. vp_encoder (cs_pipeline s) = Some e \<longrightarrow> enc_ctx e = None \<and> \<not> enc_running e"
    and w: "whip_owns LH (cs_whip s) (cs_heap s)" "wp_pipeline (cs_whip s) = None"
    using p by (simp_all add: parked_def grounded_def)
  have gst: "\<forall>c. usable (se_gst env c) \<longrightarrow> gp_sink (se_gst env c)"
    and el: "wl_pipeline (se_whip env) \<longrightarrow> has_elements (se_whip env)" using ok by (auto simp: env_ok_def)
  from vp_initialize_parked [OF v e gst] obtain r vp1 L1 where
    1: "vp_initialize (se_gst env) (se_pipewire env) (se_av env) session_CaptureConfig session_EncoderConfig
        (cs_pipeline s) (cs_ledger s) = Inr (r, [], vp1, L1)"
    and o1: "vp_owns L vp1 L1" "queue_ok vp1" and e1: "\<forall>e. vp_encoder vp1 = Some e \<longrightarrow> enc_ctx e = None \<and> \<not> enc_running e"
    and s1: "r = Success \<longrightarrow> vp_encoder vp1 \<noteq> None" by blast
  have nr: "\<not> cs_isRunning s" "\<not> wp_running (cs_whip s)" using q by (simp_all add: quiet_def)
  let ?s1 = "s\<lparr>cs_pipeline := vp1, cs_ledger := L1, cs_whip := cs_whip s\<rparr>"
  have start: "cs_start env url key s = (if r \<noteq> Success then Inr (False, ?s1) else cs_publish env url key ?s1)"
    using 1 nr(1) by (simp add: cs_start_def push_out_def)
  have "\<exists>b s'. cs_start env url key s = Inr (b, s') \<and> vp_owns L (cs_pipeline s') (cs_ledger s')
    \<and> whip_owns LH (cs_whip s') (cs_heap s')
    \<and> (b \<longrightarrow> vp_encoder (cs_pipeline s') \<noteq> None \<and> queue_ok (cs_pipeline s'))"
  proof (cases "r = Success")
    case False
    with start o1 w(1) show ?thesis by (intro exI [of _ False]) simp
  next
    case True
    have gl: "grows LH [] (gh_ledger (cs_heap s))" using w by (simp add: whip_owns_def)
    then have wf: "wf_ledger (gh_ledger (cs_heap s))" by (simp add: grows_def)
    from whip_initialize_outcome [OF wf el nr(2)] obtain r2 w2 H2 where
      2: "whip_initialize (se_whip env) url key (ec_framerate session_EncoderConfig) True (cs_whip s) (cs_heap s) = Inr (r2, w2, H2)"
      and o2: "whip_owns (gh_ledger (cs_heap s)) w2 H2" "\<not> wp_running w2" by blast
    note o2' = whip_owns_trans [OF gl o2(1)]
    let ?s2 = "?s1\<lparr>cs_whip := w2, cs_heap := H2\<rparr>"
    have pub: "cs_publish env url key ?s1 = (if r2 \<noteq> NetSuccess then Inr (False, ?s2) else cs_launch env ?s2)"
      using 2 by (simp add: cs_publish_def)
    show ?thesis
    proof (cases "r2 = NetSuccess")
      case False
      with start pub True o1 o2' show ?thesis by (intro exI [of _ False]) simp
    next
      case r2: True
      obtain e where "vp_encoder vp1 = Some e" using s1 True by auto
      with cs_launch_life [of LH ?s2 L e env] o1 o2' o2(2) e1 ok have
        "\<exists>b s'. cs_launch env ?s2 = Inr (b, s') \<and> vp_owns L (cs_pipeline s') (cs_ledger s')
          \<and> whip_owns LH (cs_whip s') (cs_heap s')
          \<and> (b \<longrightarrow> vp_encoder (cs_pipeline s') \<noteq> None \<and> queue_ok (cs_pipeline s'))" by simp
      with start pub True r2 show ?thesis by simp
    qed
  qed
  then obtain b s' where st: "cs_start env url key s = Inr (b, s')" "vp_owns L (cs_pipeline s') (cs_ledger s')"
    "whip_owns LH (cs_whip s') (cs_heap s')" "b \<longrightarrow> vp_encoder (cs_pipeline s') \<noteq> None \<and> queue_ok (cs_pipeline s')" by blast
  from cs_start_outcome [OF st(1) q] st show ?thesis
    by (cases b) (auto simp: on_air_def grounded_def all_running_def)
qed

section \<open>Streaming and stopping\<close>

fun thread_ok :: "'c session_thread \<Rightarrow> bool" where
  "thread_ok (Capture f) \<longleftrightarrow> fr_frame f \<noteq> None"
| "thread_ok CaptureEnds \<longleftrightarrow> True"
| "thread_ok (Encode env) \<longleftrightarrow> env_ok env"

text \<open>Threads take their steps where they can.\<close>

fun run_threads :: "'c session_thread list \<Rightarrow> 'c session \<Rightarrow> 'c session run" where
  "run_threads [] s = Inr s"
| "run_threads (k # ks) s =
     (if thread_enabled k s then andThen (thread_run k s) (run_threads ks) else run_threads ks s)"

lemma thread_run_life:
  assumes "on_air L LH s" "thread_ok k"
  shows "\<exists>s'. thread_run k s = Inr s' \<and> on_air L LH s'"
proof (cases k)
  case (Capture f)
  let ?vp = "snd (frame_callback f (cs_pipeline s))"
  have "vp_encoder ?vp = vp_encoder (cs_pipeline s)" "vp_capture ?vp = vp_capture (cs_pipeline s)"
    "set (vp_queue ?vp) \<subseteq> insert f (set (vp_queue (cs_pipeline s)))"
    using enqueue_frame_keeps [of f "cs_pipeline s"] by (simp_all add: frame_callback_def Let_def)
  then have "vp_owns L ?vp (cs_ledger s)" "vp_encoder ?vp \<noteq> None" "queue_ok ?vp"
    using assms Capture vp_owns_cong [of L "cs_pipeline s" "cs_ledger s" ?vp] by (auto simp: on_air_def queue_ok_def)
  with assms(1) Capture show ?thesis by (simp add: on_air_def)
next
  case CaptureEnds
  have "vp_owns L (capture_ends (cs_pipeline s)) (cs_ledger s)"
    using assms(1) by (cases "vp_capture (cs_pipeline s)")
      (simp_all add: on_air_def vp_owns_def vp_handles_defs capture_ends_def cam_loop_end_def cam_handles_def)
  with assms(1) CaptureEnds show ?thesis by (simp add: on_air_def capture_ends_def queue_ok_def)
next
  case (Encode env)
  with assms have ok: "codec_drains (se_av env)" "allocs_succeed (se_av env)" "packets_ok env"
    by (simp_all add: env_ok_def)
  have a: "vp_owns L (cs_pipeline s) (cs_ledger s)" "vp_encoder (cs_pipeline s) \<noteq> None" "queue_ok (cs_pipeline s)"
    "whip_owns LH (cs_whip s) (cs_heap s)" using assms(1) by (simp_all add: on_air_def)
  from encode_next_returns [OF a(1) ok(1,2) a(2,3)] obtain out vp' where
    n: "encode_next (se_av env) (cs_pipeline s) = Inr (out, vp')" "vp_owns L vp' (cs_ledger s)"
      "vp_encoder vp' \<noteq> None" "queue_ok vp'" by blast
  from push_out_ok [OF a(4) _ ok(3), of out] encode_next_from [OF n(1)] obtain bs w' where
    "push_out env out (cs_whip s) (cs_heap s) = Inr (bs, w')" "whip_owns LH w' (cs_heap s)"
    "wp_running w' = wp_running (cs_whip s)" by blast
  with n Encode assms(1) show ?thesis by (simp add: cs_encode_def on_air_def)
qed

lemma run_threads_life:
  assumes "on_air L LH s" "\<forall>k \<in> set ks. thread_ok k"
  shows "\<exists>s'. run_threads ks s = Inr s' \<and> on_air L LH s'"
  using assms
proof (induction ks arbitrary: s)
  case (Cons k ks)
  from thread_run_life [OF Cons.prems(1), of k] Cons.prems(2) obtain s1 where
    "thread_run k s = Inr s1" "on_air L LH s1" by auto
  with Cons.IH [of s1] Cons.IH [of s] Cons.prems show ?case by auto
qed simp

lemma cs_stop_life:
  assumes "on_air L LH s" "env_ok env"
  shows "\<exists>s'. cs_stop env s = Inr s' \<and> parked L LH s'"
proof -
  have a: "cs_isRunning s" "wp_running (cs_whip s)" "vp_owns L (cs_pipeline s) (cs_ledger s)"
    "whip_owns LH (cs_whip s) (cs_heap s)" "vp_encoder (cs_pipeline s) \<noteq> None" "queue_ok (cs_pipeline s)"
    using assms(1) by (simp_all add: on_air_def)
  have ok: "codec_drains (se_av env)" "allocs_succeed (se_av env)" "packets_ok env"
    using assms(2) by (simp_all add: env_ok_def)
  from vp_stop_owns [OF a(3) ok(1,2) a(5,6), of "se_left env"] obtain out vp L1 e where
    1: "vp_stop (se_av env) (se_left env) (cs_pipeline s) (cs_ledger s) = Inr (Success, out, vp, L1)"
    and o1: "vp_owns L vp L1" "queue_ok vp" "\<not> vp_encodeThread vp" "\<forall>cam. vp_capture vp = Some cam \<longrightarrow> \<not> cam_running cam"
    and e: "vp_encoder vp = Some e" "enc_ctx e = None" "\<not> enc_running e" by blast
  from push_out_ok [OF a(4) _ ok(3), of out] vp_stop_from [OF 1] obtain bs w where
    2: "push_out env out (cs_whip s) (cs_heap s) = Inr (bs, w)" "whip_owns LH w (cs_heap s)" "wp_running w"
    using a(2) by blast
  from whip_stop_owns [OF 2(2), of "se_eos env"] 2(3) obtain r w2 H2 where
    3: "whip_stop (se_eos env) w (cs_heap s) = Inr (r, w2, H2)" "whip_owns LH w2 H2" "\<not> wp_running w2"
      "wp_pipeline w2 = None" by blast
  from a(1) 1 2(1) 3 o1 e show ?thesis
    by (simp add: cs_stop_def parked_def grounded_def quiet_def)
qed

section \<open>One session after another\<close>

record 'c cycle =
  cy_start :: "'c session_env"
  cy_url :: string
  cy_key :: string
  cy_threads :: "'c session_thread list"
  cy_stop :: "'c session_env"

text \<open>Start, stream and stop, again and again; the first start that fails ends the run.\<close>

fun run_cycles :: "'c cycle list \<Rightarrow> 'c session \<Rightarrow> 'c session run" where
  "run_cycles [] s = Inr s"
| "run_cycles (c # cs) s =
     andThen (cs_start (cy_start c) (cy_url c) (cy_key c) s) (\<lambda>(b, s).
       if \<not> b then Inr s
       else andThen (run_threads (cy_threads c) s) (\<lambda>s.
         andThen (cs_stop (cy_stop c) s) (run_cycles cs)))"

definition cycle_ok :: "'c cycle \<Rightarrow> bool" where
  "cycle_ok c \<longleftrightarrow> env_ok (cy_start c) \<and> (\<forall>k \<in> set (cy_threads c). thread_ok k) \<and> env_ok (cy_stop c)"

lemma run_cycles_grounded:
  assumes "parked L LH s" "\<forall>c \<in> set cs. cycle_ok c"
  shows "\<exists>s'. run_cycles cs s = Inr s' \<and> grounded L LH s'"
  using assms
proof (induction cs arbitrary: s)
  case Nil
  then show ?case by (simp add: parked_def)
next
  case (Cons c cs)
  have ok: "env_ok (cy_start c)" "\<forall>k \<in> set (cy_threads c). thread_ok k" "env_ok (cy_stop c)"
    using Cons.prems(2) by (simp_all add: cycle_ok_def)
  obtain b s1 where 1: "cs_start (cy_start c) (cy_url c) (cy_key c) s = Inr (b, s1)"
    and o1: "if b then on_air L LH s1 else grounded L LH s1"
    using cs_start_life [OF Cons.prems(1) ok(1)] by blast
  show ?case
  proof (cases b)
    case False
    with 1 o1 show ?thesis by simp
  next
    case True
    then have "on_air L LH s1" using o1 by simp
    from run_threads_life [OF this ok(2)] obtain s2 where 2: "run_threads (cy_threads c) s1 = Inr s2" "on_air L LH s2"
      by blast
    from cs_stop_life [OF 2(2) ok(3)] obtain s3 where 3: "cs_stop (cy_stop c) s2 = Inr s3" "parked L LH s3" by blast
    from Cons.IH [OF 3(2)] Cons.prems(2) 1 2(1) 3(1) True show ?thesis by simp
  qed
qed

lemma parked_new:
  assumes "wf_ledger L" "wf_ledger (gh_ledger H)"
  shows "parked L (gh_ledger H) (new_session L H)"
  using assms
  by (simp add: parked_def grounded_def new_session_def quiet_def new_publisher_def new_pipeline_def vp_owns_def
      vp_handles_defs whip_owns_def grows_refl queue_ok_def)

section \<open>The property of a session's life\<close>


section \<open>Witness\<close>

text \<open>A codec with one well formed packet per frame.\<close>

definition steady_env :: "av_packet list session_env" where
  "steady_env = (demo_env True CHANGE_SUCCESS)\<lparr>se_left := 1, se_av := queue_lib\<lparr>
     lib_receive_packet := (\<lambda>q. case q of [] \<Rightarrow> (None, []) | p # q' \<Rightarrow> (Some (p\<lparr>ap_pts := 0, ap_dts := 0\<rparr>), q')),
     lib_packet_clone := (\<lambda>p. Some (p\<lparr>ap_size := 0\<rparr>)), lib_rescale := (\<lambda>x a b. x)\<rparr>\<rparr>"

lemma steady_env_ok: "env_ok steady_env"
proof -
  have lib: "codec_drains (se_av steady_env)" "allocs_succeed (se_av steady_env)"
    by (auto simp: codec_drains_def allocs_succeed_def steady_env_def queue_lib_def split: list.splits
        intro!: drains_measure [where m = length])
  have "pushable (se_push steady_env, Some p)" if p: "from_codec (se_av steady_env) p" for p
  proof -
    obtain c q c' tb where "lib_receive_packet (se_av steady_env) c = (Some q, c')"
      and p: "p = wrap_packet (se_av steady_env) tb q" using p by (auto simp: from_codec_def)
    then have "ap_pts q = 0" by (cases c) (auto simp: steady_env_def)
    then have "pk_pts p = 0" "pk_packet p = Some (q\<lparr>ap_size := 0\<rparr>)"
      by (simp_all add: p wrap_packet_def rescaleToNs_def steady_env_def)
    moreover have "se_push steady_env = demo_push" by (simp add: steady_env_def demo_env_def)
    ultimately show ?thesis by (simp add: demo_push_def)
  qed
  then have "packets_ok steady_env" by (simp add: packets_ok_def del: pushable.simps)
  with lib show ?thesis
    by (simp add: env_ok_def steady_env_def demo_env_def usable_def demo_probe_def all_ok_def has_elements_def)
qed

definition steady_cycle :: "av_packet list cycle" where
  "steady_cycle = \<lparr>cy_start = steady_env, cy_url = ''u'', cy_key = ''k'',
     cy_threads = [Capture (demo_Frame 0), Capture (demo_Frame 0), Encode steady_env], cy_stop = steady_env\<rparr>"


text \<open>Both cycles of the witness do start: the run is not cut short.\<close>

lemma steady_cycle_starts:
  "case cs_start steady_env ''u'' ''k'' (new_session no_objects empty_heap) of
     Inr (b, s) \<Rightarrow> b \<and> (case run_threads (cy_threads steady_cycle) s of
        Inr s \<Rightarrow> (case cs_stop steady_env s of
            Inr s \<Rightarrow> (case cs_start steady_env ''u'' ''k'' s of Inr (b, s) \<Rightarrow> b | _ \<Rightarrow> False) | _ \<Rightarrow> False)
      | _ \<Rightarrow> False) | _ \<Rightarrow> False"
  by code_simp

end
