(* ===== verification/Session_Client.thy ===== *)
theory Session_Client
  imports Prelude
begin

text \<open>
  \<open>client/src/network/sessionclient.cpp\<close>: the gRPC client of the signaling service. Each
  call sends one request; when gRPC reports the call finished, a handler turns status and reply
  into Qt signals. The stubs are generated from \<open>shared/protocol/signaling.proto\<close>; what they
  and the server answer (whether a call object exists, the status, the reply if it can be read)
  is an argument.
\<close>

section \<open>Messages\<close>

datatype request =
    CreateSessionRequest string i32
  | JoinRequest string string string
  | CloseSessionRequest string string
  | GetMySessionsRequest string

record grpc_status =
  gs_isOk :: bool
  gs_message :: string

record join_reply =
  jr_token :: string
  jr_livekitUrl :: string
  jr_whipUrl :: string
  jr_streamKey :: string

record session_info =
  si_sessionId :: string
  si_roomCode :: string
  si_status :: string
  si_maxCameras :: i32
  si_createdAt :: string

datatype variant = VString string | VInt i32

datatype client_signal =
    SigSessionCreated string
  | SigDirectorJoined string string
  | SigCameraJoined string string
  | SigSessionClosed bool
  | SigSessionsReceived "(string \<rightharpoonup> variant) list"
  | SigError string

section \<open>Calls\<close>

text \<open>
  \<open>sc_pending\<close>: calls whose \<open>finished\<close> is connected to a handler. A call object that is
  null (\<open>made\<close> is false) gets no handler.
\<close>

record session_client =
  sc_channel :: "string option"
  sc_pending :: "request list"

definition connectToServer :: "string \<Rightarrow> session_client \<Rightarrow> session_client" where
  "connectToServer url c = c\<lparr>sc_channel := Some url\<rparr>"

definition call :: "bool \<Rightarrow> request \<Rightarrow> session_client \<Rightarrow> session_client" where
  "call made req c = (if made then c\<lparr>sc_pending := sc_pending c @ [req]\<rparr> else c)"

definition createSession :: "bool \<Rightarrow> string \<Rightarrow> i32 \<Rightarrow> session_client \<Rightarrow> session_client" where
  "createSession made userId maxCameras c = call made (CreateSessionRequest userId maxCameras) c"

definition joinSession :: "bool \<Rightarrow> string \<Rightarrow> string \<Rightarrow> string \<Rightarrow> session_client \<Rightarrow> session_client" where
  "joinSession made roomCode userId role c = call made (JoinRequest roomCode userId role) c"

definition closeSession :: "bool \<Rightarrow> string \<Rightarrow> string \<Rightarrow> session_client \<Rightarrow> session_client" where
  "closeSession made roomCode userId c = call made (CloseSessionRequest roomCode userId) c"

definition getMySessions :: "bool \<Rightarrow> string \<Rightarrow> session_client \<Rightarrow> session_client" where
  "getMySessions made userId c = call made (GetMySessionsRequest userId) c"

section \<open>Handlers of finished calls\<close>

definition create_finished :: "grpc_status \<Rightarrow> string option \<Rightarrow> client_signal list" where
  "create_finished status resp =
     (if \<not> gs_isOk status then [SigError (gs_message status)]
      else case resp of
          None \<Rightarrow> [SigError ''Could not deserialize CreateSessionReply'']
        | Some room_code \<Rightarrow> [SigSessionCreated room_code])"

definition join_finished :: "grpc_status \<Rightarrow> join_reply option \<Rightarrow> client_signal list" where
  "join_finished status resp =
     (if \<not> gs_isOk status then [SigError (gs_message status)]
      else case resp of
          None \<Rightarrow> [SigError ''Could not deserialize JoinSessionReply'']
        | Some r \<Rightarrow>
            if jr_token r \<noteq> [] then [SigDirectorJoined (jr_token r) (jr_livekitUrl r)]
            else if jr_whipUrl r \<noteq> [] then [SigCameraJoined (jr_whipUrl r) (jr_streamKey r)]
            else [SigError ''Could not join session''])"

definition close_finished :: "grpc_status \<Rightarrow> bool option \<Rightarrow> client_signal list" where
  "close_finished status resp =
     (if \<not> gs_isOk status then [SigSessionClosed False]
      else if resp = Some True then [SigSessionClosed True]
      else [])"

definition session_entry :: "session_info \<Rightarrow> string \<rightharpoonup> variant" where
  "session_entry s = [''roomCode'' \<mapsto> VString (si_roomCode s), ''roomStatus'' \<mapsto> VString (si_status s),
     ''maxCameras'' \<mapsto> VInt (si_maxCameras s), ''createdAt'' \<mapsto> VString (si_createdAt s)]"

fun session_entries :: "session_info list \<Rightarrow> (string \<rightharpoonup> variant) list \<Rightarrow> (string \<rightharpoonup> variant) list" where
  "session_entries [] acc = acc"
| "session_entries (s # ss) acc = session_entries ss (acc @ [session_entry s])"

definition sessions_finished :: "grpc_status \<Rightarrow> session_info list option \<Rightarrow> client_signal list" where
  "sessions_finished status resp =
     (if \<not> gs_isOk status then [SigError (gs_message status)]
      else case resp of
          None \<Rightarrow> [SigError ''Could not deserialize FetchSessionReply'']
        | Some ss \<Rightarrow> [SigSessionsReceived (session_entries ss [])])"

text \<open>What gRPC reports for a call, and the handler it goes to.\<close>

datatype reply =
    CreateReply "string option"
  | JoinReply "join_reply option"
  | CloseReply "bool option"
  | SessionsReply "session_info list option"

fun finished :: "grpc_status \<Rightarrow> reply \<Rightarrow> client_signal list" where
  "finished status (CreateReply resp) = create_finished status resp"
| "finished status (JoinReply resp) = join_finished status resp"
| "finished status (CloseReply resp) = close_finished status resp"
| "finished status (SessionsReply resp) = sessions_finished status resp"

section \<open>Properties\<close>

text \<open>What the user interface can read back from an entry of the session list.\<close>

definition entry_info :: "(string \<rightharpoonup> variant) \<Rightarrow> (string \<times> string \<times> i32 \<times> string) option" where
  "entry_info e =
     (case (e ''roomCode'', e ''roomStatus'', e ''maxCameras'', e ''createdAt'') of
        (Some (VString code), Some (VString st), Some (VInt n), Some (VString at)) \<Rightarrow> Some (code, st, n, at)
      | _ \<Rightarrow> None)"

definition shown_info :: "session_info \<Rightarrow> string \<times> string \<times> i32 \<times> string" where
  "shown_info s = (si_roomCode s, si_status s, si_maxCameras s, si_createdAt s)"

lemma session_entries_map: "session_entries ss acc = acc @ map session_entry ss"
  by (induction ss acc rule: session_entries.induct) simp_all

lemma entry_info_entry: "entry_info (session_entry s) = Some (shown_info s)"
  by (simp add: shown_info_def entry_info_def session_entry_def)

text \<open>Round trip of the session list: reading every entry of the emitted list back gives the
  server's sessions in order, with room code, status, number of cameras and creation time (the
  internal session id is not passed on); an unreadable or failed reply gives an error instead.\<close>

theorem sessions_roundtrip:
  "sessions_finished status resp =
     (if gs_isOk status \<and> resp \<noteq> None
      then [SigSessionsReceived (map session_entry (the resp))]
      else [SigError (if gs_isOk status then ''Could not deserialize FetchSessionReply'' else gs_message status)])
   \<and> map entry_info (map session_entry ss) = map (Some \<circ> shown_info) ss"
  by (auto simp: sessions_finished_def session_entries_map entry_info_entry split: option.splits)

text \<open>Who hears of a finished call. Every finished call emits at most one signal; none is
  emitted exactly for a close call that succeeded at the transport level but whose reply cannot
  be read or says it did not close; and a joined signal says director exactly when the reply has
  a token, whatever role was asked for.\<close>

theorem finished_signals:
  "length (finished status reply) \<le> 1
   \<and> (finished status reply = [] \<longleftrightarrow> gs_isOk status \<and> (\<exists>resp. reply = CloseReply resp \<and> resp \<noteq> Some True))
   \<and> (\<forall>token url. finished status reply = [SigDirectorJoined token url] \<longleftrightarrow>
        gs_isOk status \<and> token \<noteq> [] \<and> (\<exists>r. reply = JoinReply (Some r) \<and> jr_token r = token \<and> jr_livekitUrl r = url))
   \<and> (\<forall>url key. finished status reply = [SigCameraJoined url key] \<longleftrightarrow>
        gs_isOk status \<and> url \<noteq> [] \<and> (\<exists>r. reply = JoinReply (Some r) \<and> jr_token r = [] \<and> jr_whipUrl r = url \<and> jr_streamKey r = key))"
proof (cases reply)
  case (CreateReply resp)
  then show ?thesis by (auto simp: create_finished_def split: option.splits)
next
  case (JoinReply resp)
  then show ?thesis by (auto simp: join_finished_def split: option.splits if_splits)
next
  case (CloseReply resp)
  then show ?thesis by (auto simp: close_finished_def split: if_splits)
next
  case (SessionsReply resp)
  then show ?thesis by (auto simp: sessions_finished_def split: option.splits)
qed

end
