(* ===== verification/Operator.thy ===== *)
theory Operator
  imports Session_Life Session_Client
begin

text \<open>
  The operator's way from the server's reply to the published stream: \<open>joinSession\<close>'s reply
  (\<open>sessionclient.cpp\<close>), the signal the user interface hands on to the controller
  (\<open>session_controller.cpp\<close>), the worker that starts the session (\<open>camera_session.cpp\<close>), and
  what camera, encoder and publisher are then configured with. And the way back: key frame
  requests of the receiving side.
\<close>

section \<open>What a successful start has configured\<close>

lemma whip_initialize_configures:
  assumes "whip_initialize a url key fr cb w H = Inr (NetSuccess, w', H')"
  shows "wp_whipUrl w' = url \<and> wp_streamKey w' = key \<and> wp_framerate w' = fr \<and> wp_onError w' = cb"
proof -
  have link: "whip_link a v p H0 = Inr (NetSuccess, w', H') \<Longrightarrow> w' = v" for v p H0
    by (auto simp: whip_link_def whip_abandon_def transient_eq split: if_splits prod.splits)
  from assms show ?thesis
    by (auto simp: whip_initialize_def Let_def split: prod.splits option.splits if_splits dest!: link)
qed

lemma whip_start_configured:
  assumes "whip_start a w = Inr (r, out, w')"
  shows "wp_whipUrl w' = wp_whipUrl w \<and> wp_streamKey w' = wp_streamKey w \<and> wp_framerate w' = wp_framerate w
    \<and> wp_onError w' = wp_onError w"
  using assms by (auto simp: whip_start_def Let_def split: if_splits)

lemma cam_initialize_configures:
  assumes "cam_initialize gst pw cfg cam L = Inr (Success, cam', L')"
  shows "cam_config cam' = apply_defaults cfg \<and> cam_width cam' = cc_width (apply_defaults cfg)
    \<and> cam_height cam' = cc_height (apply_defaults cfg) \<and> cam_framerate cam' = cc_framerate (apply_defaults cfg)"
  using assms by (auto simp: cam_initialize_def buildPipeline_eq split: option.splits)

lemma cam_start_configured:
  "cam_start a cb cam = (r, cam') \<Longrightarrow> cam_config cam' = cam_config cam \<and> cam_width cam' = cam_width cam
     \<and> cam_height cam' = cam_height cam \<and> cam_framerate cam' = cam_framerate cam"
  by (auto simp: cam_start_def Let_def split: if_splits)

text \<open>The encoder class the installation offers, and the parameters its context is opened with.\<close>

definition offered_kind :: "'c av_lib \<Rightarrow> encoder_kind" where
  "offered_kind lib = (if lib_has_encoder lib ''h264_nvenc'' then NVENCEncoder else SoftwareEncoder)"

definition kind_params :: "encoder_kind \<Rightarrow> EncoderConfig \<Rightarrow> codec_params" where
  "kind_params k cfg = (case k of SoftwareEncoder \<Rightarrow> sw_params cfg | NVENCEncoder \<Rightarrow> nvenc_params cfg)"

lemma createEncoder_kind: "createEncoder lib cfg = Some (new_encoder (offered_kind lib))"
  by (cases "ec_type cfg") (simp_all add: createEncoder_def resolve_type_def offered_kind_def)

lemma enc_initialize_configures:
  assumes "enc_initialize lib cfg cb e L = (Success, e', L')"
  shows "enc_kind e' = enc_kind e \<and> enc_running e' \<and> enc_callback e' = cb \<and> enc_forceKeyframe e' = enc_forceKeyframe e
    \<and> (\<exists>ctx. enc_ctx e' = Some ctx \<and> ctx_params ctx = kind_params (enc_kind e) cfg)"
proof (cases "enc_kind e")
  case SoftwareEncoder
  with assms show ?thesis
    by (auto simp: enc_initialize_def sw_initialize_def base_initialize_def open_context_def kind_params_def
        split: if_splits option.splits prod.splits)
next
  case NVENCEncoder
  with assms show ?thesis
    by (auto simp: enc_initialize_def nvenc_initialize_def base_initialize_def open_context_def kind_params_def
        split: if_splits option.splits prod.splits)
qed

lemma deliver_config: "vp_encoderConfig (snd (deliver ps vp)) = vp_encoderConfig vp"
  by (induction ps arbitrary: vp) (simp_all add: packet_callback_def case_prod_beta Let_def)

lemma vp_initialize_configures:
  assumes "vp_initialize gst pw lib ccfg ecfg vp L = Inr (Success, out, vp', L')"
  shows "vp_encoderConfig vp' = ecfg \<and> vp_encoder vp' = Some (new_encoder (offered_kind lib))
    \<and> (\<exists>cam. vp_capture vp' = Some cam \<and> cam_config cam = apply_defaults ccfg \<and> cam_width cam = cc_width (apply_defaults ccfg)
        \<and> cam_height cam = cc_height (apply_defaults ccfg) \<and> cam_framerate cam = cc_framerate (apply_defaults ccfg))"
proof -
  obtain vp1 L1 cr cam L2 where 1: "replace_capture new_camera (vp\<lparr>vp_encoderConfig := ecfg\<rparr>) L = Inr (vp1, L1)"
    and 2: "cam_initialize gst pw ccfg new_camera L1 = Inr (cr, cam, L2)"
    and 3: "(if cr \<noteq> Success then Inr (cr, [], vp1\<lparr>vp_capture := Some cam\<rparr>, L2)
        else andThen (replace_encoder lib (createEncoder lib ecfg) (vp1\<lparr>vp_capture := Some cam\<rparr>) L2)
          (\<lambda>(out, vp, L). if vp_encoder vp = None then Inr (ErrorInitFailed, out, vp, L)
             else Inr (Success, out, vp, L))) = Inr (Success, out, vp', L')"
    using assms by (auto simp: vp_initialize_def Let_def)
  have cfg: "vp_encoderConfig vp1 = ecfg" using 1 by (auto simp: replace_capture_def)
  from 3 have cr: "cr = Success" by (auto split: if_splits)
  with 3 obtain out2 L3 where r: "replace_encoder lib (createEncoder lib ecfg) (vp1\<lparr>vp_capture := Some cam\<rparr>) L2 = Inr (out2, vp', L3)"
    by (auto split: if_splits)
  have "vp_encoderConfig vp' = vp_encoderConfig vp1"
  proof (cases "vp_encoder vp1")
    case None
    with r show ?thesis by (auto simp: replace_encoder_def)
  next
    case (Some old)
    with r obtain ps e0 where "deliver ps (vp1\<lparr>vp_capture := Some cam, vp_encoder := createEncoder lib ecfg\<rparr>) = (out2, vp')"
      by (auto simp: replace_encoder_def case_prod_beta)
    with deliver_config [of ps "vp1\<lparr>vp_capture := Some cam, vp_encoder := createEncoder lib ecfg\<rparr>"] show ?thesis by simp
  qed
  with cfg replace_encoder_keeps [OF r] cam_initialize_configures [OF 2 [unfolded cr]] show ?thesis
    by (simp add: createEncoder_kind)
qed

lemma vp_start_configures:
  assumes "vp_start lib play now cb vp L = (Success, vp', L')"
    and "vp_encoder vp = Some e" "vp_capture vp = Some cam"
  shows "\<exists>e' ctx cam'. vp_encoder vp' = Some e' \<and> enc_kind e' = enc_kind e \<and> enc_running e' \<and> enc_callback e'
    \<and> enc_ctx e' = Some ctx \<and> ctx_params ctx = kind_params (enc_kind e) (vp_encoderConfig vp)
    \<and> vp_capture vp' = Some cam' \<and> cam_config cam' = cam_config cam \<and> cam_width cam' = cam_width cam
    \<and> cam_height cam' = cam_height cam \<and> cam_framerate cam' = cam_framerate cam"
proof -
  obtain er e1 L1 where i: "enc_initialize lib (vp_encoderConfig vp) True e L = (er, e1, L1)" by (metis prod_cases3)
  obtain cr cam1 where c: "cam_start play True cam = (cr, cam1)" by fastforce
  have "er = Success" "vp_encoder vp' = Some e1" "vp_capture vp' = Some cam1"
    using assms i c by (auto simp: vp_start_def Let_def split: if_splits)
  with enc_initialize_configures [of lib "vp_encoderConfig vp" True e L e1 L1] i cam_start_configured [OF c]
  show ?thesis by auto
qed

text \<open>The parameters of the operator's stream.\<close>

definition operator_params :: "encoder_kind \<Rightarrow> codec_params" where
  "operator_params k = \<lparr>cp_width = 1280, cp_height = 720, cp_bit_rate = 4000000, cp_time_base = fps_tb 30,
     cp_framerate = \<lparr>num = 30, den = 1\<rparr>, cp_gop_size = ec_gopSize default_EncoderConfig, cp_max_b_frames = 0,
     cp_pix_fmt = PIX_FMT_YUV420P,
     cp_color_range = (if k = SoftwareEncoder then RANGE_MPEG else RANGE_UNSPECIFIED),
     cp_constrained_baseline = (k = SoftwareEncoder)\<rparr>"

lemma session_params: "kind_params k session_EncoderConfig = operator_params k"
  by (cases k) (simp_all add: kind_params_def operator_params_def sw_params_def nvenc_params_def
      session_EncoderConfig_def session_CaptureConfig_def default_EncoderConfig_def)

lemma session_defaults: "apply_defaults session_CaptureConfig = session_CaptureConfig"
  "cc_width session_CaptureConfig = 1280" "cc_height session_CaptureConfig = 720" "cc_framerate session_CaptureConfig = 30"
  by (simp_all add: apply_defaults_def session_CaptureConfig_def Let_def)

lemma cs_start_configures:
  assumes "cs_start env url key s = Inr (True, s')"
  shows "wp_whipUrl (cs_whip s') = url \<and> wp_streamKey (cs_whip s') = key \<and> wp_framerate (cs_whip s') = 30
    \<and> wp_onError (cs_whip s')
    \<and> (\<exists>cam. vp_capture (cs_pipeline s') = Some cam \<and> cam_config cam = session_CaptureConfig
         \<and> cam_width cam = 1280 \<and> cam_height cam = 720 \<and> cam_framerate cam = 30)
    \<and> (\<exists>e ctx. vp_encoder (cs_pipeline s') = Some e \<and> enc_kind e = offered_kind (se_av env) \<and> enc_running e
         \<and> enc_callback e \<and> enc_ctx e = Some ctx \<and> ctx_params ctx = operator_params (offered_kind (se_av env)))"
proof -
  from assms have nr: "\<not> cs_isRunning s" by (auto simp: cs_start_def)
  with assms obtain r1 out vp1 L1 bs w1 where
    1: "vp_initialize (se_gst env) (se_pipewire env) (se_av env) session_CaptureConfig session_EncoderConfig
       (cs_pipeline s) (cs_ledger s) = Inr (r1, out, vp1, L1)"
    and p: "push_out env out (cs_whip s) (cs_heap s) = Inr (bs, w1)"
    by (auto simp: cs_start_def)
  let ?s1 = "s\<lparr>cs_pipeline := vp1, cs_ledger := L1, cs_whip := w1\<rparr>"
  have r1: "r1 = Success" and pub: "cs_publish env url key ?s1 = Inr (True, s')"
    using assms nr 1 p by (auto simp: cs_start_def Let_def split: if_splits)
  obtain r2 w2 H2 where 2: "whip_initialize (se_whip env) url key (ec_framerate session_EncoderConfig) True
      w1 (cs_heap s) = Inr (r2, w2, H2)" using pub by (auto simp: cs_publish_def Let_def)
  let ?s2 = "?s1\<lparr>cs_whip := w2, cs_heap := H2\<rparr>"
  have r2: "r2 = NetSuccess" and l: "cs_launch env ?s2 = Inr (True, s')"
    using pub 2 by (auto simp: cs_publish_def Let_def split: if_splits)
  obtain r3 lg w3 where 3: "whip_start (se_start env) (setKeyframeRequestCallback True w2) = Inr (r3, lg, w3)"
    using l by (auto simp: cs_launch_def)
  have r3: "r3 = NetSuccess"
  proof (rule ccontr)
    assume "r3 \<noteq> NetSuccess"
    with l 3 show False by (auto simp: cs_launch_def Let_def)
  qed
  obtain r5 vp5 L5 where 5: "vp_start (se_av env) (se_play env) (se_now env) True vp1 L1 = (r5, vp5, L5)"
    by (metis prod_cases3)
  have r5: "r5 = Success"
  proof (rule ccontr)
    assume "r5 \<noteq> Success"
    with l 3 r3 5 show False by (auto simp: cs_launch_def Let_def)
  qed
  have s': "cs_whip s' = w3" "cs_pipeline s' = vp5" using l 3 r3 5 r5 by (auto simp: cs_launch_def Let_def)
  have w: "wp_whipUrl w3 = url \<and> wp_streamKey w3 = key \<and> wp_framerate w3 = 30 \<and> wp_onError w3"
    using whip_initialize_configures [OF 2 [unfolded r2]] whip_start_configured [OF 3]
    by (simp add: setKeyframeRequestCallback_def session_EncoderConfig_def session_defaults)
  obtain cam where v1: "vp_encoderConfig vp1 = session_EncoderConfig" "vp_encoder vp1 = Some (new_encoder (offered_kind (se_av env)))"
    "vp_capture vp1 = Some cam" "cam_config cam = session_CaptureConfig" "cam_width cam = 1280" "cam_height cam = 720" "cam_framerate cam = 30"
    using vp_initialize_configures [OF 1 [unfolded r1]] by (auto simp: session_defaults)
  have k: "enc_kind (new_encoder kd) = kd" for kd by (simp add: new_encoder_def)
  obtain e' ctx cam' where z: "vp_encoder vp5 = Some e'" "enc_kind e' = offered_kind (se_av env)" "enc_running e'"
    "enc_callback e'" "enc_ctx e' = Some ctx" "ctx_params ctx = operator_params (offered_kind (se_av env))"
    "vp_capture vp5 = Some cam'" "cam_config cam' = cam_config cam" "cam_width cam' = cam_width cam"
    "cam_height cam' = cam_height cam" "cam_framerate cam' = cam_framerate cam"
    using vp_start_configures [OF 5 [unfolded r5] v1(2,3)] unfolding k v1(1) session_params by (elim exE conjE) (rule that)
  have "\<exists>e ctx. vp_encoder vp5 = Some e \<and> enc_kind e = offered_kind (se_av env) \<and> enc_running e
      \<and> enc_callback e \<and> enc_ctx e = Some ctx \<and> ctx_params ctx = operator_params (offered_kind (se_av env))"
    by (intro exI [of _ e'] exI [of _ ctx]) (simp add: z)
  moreover have "\<exists>cam. vp_capture vp5 = Some cam \<and> cam_config cam = session_CaptureConfig
      \<and> cam_width cam = 1280 \<and> cam_height cam = 720 \<and> cam_framerate cam = 30"
    by (intro exI [of _ cam']) (simp add: z v1)
  ultimately show ?thesis using w unfolding s' by simp
qed

section \<open>From the reply to the stream\<close>

text \<open>C7: 
  Joining as an operator publishes to the endpoint the server named. When the reply to
  \<open>joinSession\<close> makes the client announce a camera, and the controller's \<open>start\<close> with the
  announced arguments ends in success, then the publisher is set up with the reply's WHIP
  endpoint and stream key, the default camera runs at 1280 by 720 and 30 frames a second, and the
  encoder of the class the installation offers is open with exactly that size and rate, 4 Mbit/s
  and no B-frames.
\<close>

theorem joined_operator_publishes:
  assumes "join_finished status resp = [SigCameraJoined url key]" "\<not> ws_busy (sk_slot k)"
    and "sk_worker env (length (ws_jobs (sk_slot k))) (sk_start url key k) = Inr k'"
    and "ws_jobs (sk_slot k') ! length (ws_jobs (sk_slot k)) = Finished True"
  shows "\<exists>r cam e ctx. resp = Some r \<and> gs_isOk status
    \<and> wp_whipUrl (cs_whip (sk_session k')) = jr_whipUrl r \<and> wp_streamKey (cs_whip (sk_session k')) = jr_streamKey r
    \<and> wp_framerate (cs_whip (sk_session k')) = 30
    \<and> vp_capture (cs_pipeline (sk_session k')) = Some cam \<and> cam_config cam = session_CaptureConfig
    \<and> cam_width cam = 1280 \<and> cam_height cam = 720 \<and> cam_framerate cam = 30
    \<and> vp_encoder (cs_pipeline (sk_session k')) = Some e \<and> enc_running e \<and> enc_kind e = offered_kind (se_av env)
    \<and> enc_ctx e = Some ctx \<and> ctx_params ctx = operator_params (enc_kind e)"
proof -
  obtain r where r: "resp = Some r" "gs_isOk status" "jr_whipUrl r = url" "jr_streamKey r = key"
    using assms(1) by (auto simp: join_finished_def split: if_splits option.splits)
  let ?n = "length (ws_jobs (sk_slot k))" and ?k1 = "sk_start url key k"
  have k1: "ws_jobs (sk_slot ?k1) = ws_jobs (sk_slot k) @ [Running (url, key)]"
    using assms(2) by (simp add: sk_start_def Let_def ws_launch_def keeps)
  obtain ok s where st: "cs_start env url key (sk_session ?k1) = Inr (ok, s)"
    and k': "k' = ?k1\<lparr>sk_session := s, sk_slot := ws_set ?n (Finished ok) (sk_slot ?k1), sk_events := sk_events ?k1 @ [?n]\<rparr>"
    using assms(3) k1 by (auto simp: sk_worker_def nth_append)
  have "ok" using assms(4) k1 by (simp add: k' ws_set_def nth_append)
  with st have st': "cs_start env url key (sk_session ?k1) = Inr (True, s)" by simp
  have s: "sk_session k' = s" by (simp add: k')
  note c = cs_start_configures [OF st', folded s]
  obtain cam where cam: "vp_capture (cs_pipeline (sk_session k')) = Some cam" "cam_config cam = session_CaptureConfig"
    "cam_width cam = 1280" "cam_height cam = 720" "cam_framerate cam = 30"
    using c by (elim conjE exE) (rule that)
  obtain e ctx where e: "vp_encoder (cs_pipeline (sk_session k')) = Some e" "enc_kind e = offered_kind (se_av env)"
    "enc_running e" "enc_ctx e = Some ctx" "ctx_params ctx = operator_params (offered_kind (se_av env))"
    using c by (elim conjE exE) (rule that)
  show ?thesis
    by (intro exI [of _ r] exI [of _ cam] exI [of _ e] exI [of _ ctx]) (use r c cam e in simp)
qed

section \<open>Key frame requests\<close>

text \<open>C40: 
  A key frame request of the receiving side reaches a software encoder: in a session that has
  just started, the event on the publisher's pad arms the encoder's flag, so that the next frame
  is forced. On an installation with NVENC, which \<open>createEncoder\<close> then always chooses, the same
  event changes nothing at all: \<open>NVENCEncoder\<close> inherits the empty \<open>requestKeyframe\<close>.
\<close>

theorem keyframe_request_needs_software:
  assumes "cs_start env url key s = Inr (True, s')" "quiet s"
  shows "(lib_has_encoder (se_av env) ''h264_nvenc'' \<longrightarrow> cs_force_key_unit s' = s')
    \<and> (\<not> lib_has_encoder (se_av env) ''h264_nvenc'' \<longrightarrow>
        (\<exists>e. vp_encoder (cs_pipeline s') = Some e
           \<and> vp_encoder (cs_pipeline (cs_force_key_unit s')) = Some (e\<lparr>enc_forceKeyframe := True\<rparr>)
           \<and> (\<forall>lib p f inp. enc_kind e = SoftwareEncoder
               \<and> af_pict_type (stamp_frame lib p (enc_forceKeyframe (e\<lparr>enc_forceKeyframe := True\<rparr>)) f inp) = PICTURE_TYPE_I)))"
proof -
  obtain e where e: "vp_encoder (cs_pipeline s') = Some e" "enc_kind e = offered_kind (se_av env)"
    using cs_start_configures [OF assms(1)] by blast
  have "wp_forceKeyframe (cs_whip s')"
    using cs_start_outcome [OF assms] by (simp add: all_running_def)
  then have f: "cs_force_key_unit s' = s'\<lparr>cs_pipeline := vp_requestKeyframe (cs_pipeline s')\<rparr>"
    by (simp add: cs_force_key_unit_def whip_upstream_probe_def)
  show ?thesis
  proof (cases "lib_has_encoder (se_av env) ''h264_nvenc''")
    case True
    with e have "vp_requestKeyframe (cs_pipeline s') = cs_pipeline s'"
      by (simp add: vp_requestKeyframe_def enc_requestKeyframe_def offered_kind_def)
    with f True show ?thesis by simp
  next
    case False
    with e f show ?thesis
      by (simp add: vp_requestKeyframe_def enc_requestKeyframe_def offered_kind_def stamp_frame_def Let_def)
  qed
qed

section \<open>Operator witnesses\<close>

lemma demo_join: "join_finished \<lparr>gs_isOk = True, gs_message = []\<rparr>
    (Some \<lparr>jr_token = [], jr_livekitUrl = [], jr_whipUrl = ''u'', jr_streamKey = ''k''\<rparr>) = [SigCameraJoined ''u'' ''k'']"
  by (simp add: join_finished_def)

theorem joined_operator_publishes_witness:
  "\<exists>k'. sk_worker (demo_env True CHANGE_SUCCESS) 0 (sk_start ''u'' ''k'' demo_controller) = Inr k'
     \<and> wp_whipUrl (cs_whip (sk_session k')) = ''u'' \<and> wp_streamKey (cs_whip (sk_session k')) = ''k''"
proof -
  obtain s where "demo_first CHANGE_SUCCESS = Inr (True, s)"
    using demo_first_succeeds by (auto split: sum.splits prod.splits)
  then have st: "cs_start (demo_env True CHANGE_SUCCESS) ''u'' ''k'' (sk_session (sk_start ''u'' ''k'' demo_controller)) = Inr (True, s)"
    by (simp add: demo_start_session demo_first_def)
  have z: "length (ws_jobs (sk_slot demo_controller)) = 0" and nb: "\<not> ws_busy (sk_slot demo_controller)"
    by (simp_all add: new_controller_def new_slot_def ws_busy_def)
  have j: "ws_jobs (sk_slot (sk_start ''u'' ''k'' demo_controller)) = [Running (''u'', ''k'')]"
    by (simp add: sk_start_def Let_def ws_launch_def wire_preview_def new_controller_def new_slot_def ws_busy_def)
  then obtain k' where w: "sk_worker (demo_env True CHANGE_SUCCESS) 0 (sk_start ''u'' ''k'' demo_controller) = Inr k'"
    "ws_jobs (sk_slot k') ! 0 = Finished True"
    using st by (simp add: sk_worker_def ws_set_def)
  from joined_operator_publishes [OF demo_join nb, of "demo_env True CHANGE_SUCCESS" k'] w z show ?thesis by auto
qed

theorem keyframe_request_needs_software_witness:
  "\<exists>s'. demo_first CHANGE_SUCCESS = Inr (True, s') \<and> cs_force_key_unit s' = s'"
proof -
  obtain s where s: "demo_first CHANGE_SUCCESS = Inr (True, s)"
    using demo_first_succeeds by (auto split: sum.splits prod.splits)
  have "quiet (new_session no_objects empty_heap :: av_packet list session)"
    by (simp add: quiet_def new_session_def new_publisher_def new_pipeline_def)
  from keyframe_request_needs_software [OF s [unfolded demo_first_def] this] s show ?thesis
    by (simp add: demo_env_def queue_lib_def)
qed

end
