(* ===== verification/Video_Track.thy ===== *)
theory Video_Track
  imports Frame_Reader Complex_Main
begin

text \<open>
  \<open>client/src/videotrack.cpp\<close>: one subscribed camera. The track owns a frame reader and a
  LiveKit stream; a worker thread reads the stream frame by frame into the reader while the
  user interface sets sinks and tracks. An iteration of the worker's loop is one definition,
  the whole loop another, and \<open>vt_reach\<close> interleaves iterations with the calls of the user
  interface.
\<close>

section \<open>State\<close>

datatype track_signal = VideoSinkChanged | AspectRatioChanged

text \<open>
  LiveKit's streams: creating one from a track (\<open>None\<close> is the null pointer), \<open>read\<close> (no
  frame is the result \<open>false\<close>) and \<open>close\<close>.
\<close>

record ('t, 's) stream_lib =
  sl_media :: media_lib
  sl_fromTrack :: "'t \<Rightarrow> 's option"
  sl_read :: "'s \<Rightarrow> video_frame option \<times> 's"
  sl_close :: "'s \<Rightarrow> 's"

text \<open>\<open>vt_reading\<close> is \<open>m_readFuture.isRunning()\<close>, \<open>vt_has_ratio\<close> the loop's local variable.\<close>

record 's track =
  vt_frameReader :: reader
  vt_stream :: "'s option"
  vt_reading :: bool
  vt_has_ratio :: bool
  vt_aspectRatio :: rat
  vt_signals :: "track_signal list"

definition new_track :: "q_image option \<Rightarrow> 's track" where
  "new_track img = \<lparr>vt_frameReader = new_reader img, vt_stream = None, vt_reading = False,
     vt_has_ratio = False, vt_aspectRatio = 16 / 9, vt_signals = []\<rparr>"

abbreviation vt_videoSink :: "'s track \<Rightarrow> handle option" where
  "vt_videoSink t \<equiv> rd_videoSink (vt_frameReader t)"

section \<open>The read loop\<close>

definition startRead :: "'s track \<Rightarrow> 's track" where
  "startRead t = (if vt_reading t then t else t\<lparr>vt_reading := True, vt_has_ratio := False\<rparr>)"

definition note_ratio :: "video_frame \<Rightarrow> 's track \<Rightarrow> 's track" where
  "note_ratio f t =
     (if \<not> vt_has_ratio t \<and> 0 < vf_height f
      then t\<lparr>vt_aspectRatio := of_int (vf_width f) / of_int (vf_height f), vt_has_ratio := True,
             vt_signals := vt_signals t @ [AspectRatioChanged]\<rparr>
      else t)"

text \<open>One evaluation of the loop condition and, when it holds, of the body.\<close>

definition read_iter :: "('t, 's) stream_lib \<Rightarrow> 's track \<Rightarrow> 's track run" where
  "read_iter lib t =
     (case vt_stream t of
        None \<Rightarrow> Inr (t\<lparr>vt_reading := False\<rparr>)
      | Some s \<Rightarrow> (case sl_read lib s of
            (None, s') \<Rightarrow> Inr (t\<lparr>vt_stream := Some s', vt_reading := False\<rparr>)
          | (Some f, s') \<Rightarrow> let t = note_ratio f (t\<lparr>vt_stream := Some s'\<rparr>) in
              andThen (pushFrame (sl_media lib) f (vt_frameReader t))
                (\<lambda>r. Inr (t\<lparr>vt_frameReader := r\<rparr>))))"

partial_function (option) readLoop :: "('t, 's) stream_lib \<Rightarrow> 's track \<Rightarrow> 's track run option" where
  "readLoop lib t =
     (if vt_reading t
      then (case read_iter lib t of Inl e \<Rightarrow> Some (Inl e) | Inr t' \<Rightarrow> readLoop lib t')
      else Some (Inr t))"

declare readLoop.simps [code]

section \<open>Operations of the user interface\<close>

text \<open>\<open>waitForFinished\<close> runs the loop to its end.\<close>

definition wait_read :: "('t, 's) stream_lib \<Rightarrow> 's track \<Rightarrow> 's track run" where
  "wait_read lib t = (case readLoop lib t of None \<Rightarrow> Inl NonTermination | Some r \<Rightarrow> r)"

definition unsetTrack :: "('t, 's) stream_lib \<Rightarrow> 's track \<Rightarrow> 's track run" where
  "unsetTrack lib t =
     (let t = t\<lparr>vt_stream := map_option (sl_close lib) (vt_stream t)\<rparr> in
      andThen (if vt_reading t then wait_read lib t else Inr t) (\<lambda>t. Inr (t\<lparr>vt_stream := None\<rparr>)))"

definition setTrack :: "('t, 's) stream_lib \<Rightarrow> 't \<Rightarrow> 's track \<Rightarrow> (bool \<times> 's track) run" where
  "setTrack lib trk t =
     andThen (unsetTrack lib t) (\<lambda>t.
       (case sl_fromTrack lib trk of
          None \<Rightarrow> Inr (False, t)
        | Some s \<Rightarrow> let t = t\<lparr>vt_stream := Some s\<rparr> in
            Inr (True, if vt_videoSink t \<noteq> None then startRead t else t)))"

definition onVideoSinkChanged :: "'s track \<Rightarrow> 's track" where
  "onVideoSinkChanged t =
     (if vt_stream t \<noteq> None \<and> vt_videoSink t \<noteq> None \<and> \<not> vt_reading t then startRead t else t)"

text \<open>The reader's \<open>videoSinkChanged\<close> is connected to \<open>onVideoSinkChanged\<close>.\<close>

definition vt_setVideoSink :: "('t, 's) stream_lib \<Rightarrow> handle option \<Rightarrow> 's track \<Rightarrow> 's track run" where
  "vt_setVideoSink lib sink t =
     (if vt_videoSink t \<noteq> sink
      then andThen (rd_setVideoSink (sl_media lib) sink (vt_frameReader t))
        (\<lambda>r. let t = onVideoSinkChanged (t\<lparr>vt_frameReader := r\<rparr>) in
           Inr (t\<lparr>vt_signals := vt_signals t @ [VideoSinkChanged]\<rparr>))
      else Inr t)"

definition vt_destroy :: "('t, 's) stream_lib \<Rightarrow> 's track \<Rightarrow> 's track run" where
  "vt_destroy lib t = unsetTrack lib t"

section \<open>The loop against its specification\<close>

text \<open>All frames of a stream, pushed one after the other.\<close>

primrec push_all :: "media_lib \<Rightarrow> video_frame list \<Rightarrow> reader \<Rightarrow> reader run" where
  "push_all lib [] r = Inr r"
| "push_all lib (f # fs) r = andThen (pushFrame lib f r) (push_all lib fs)"

primrec note_ratios :: "video_frame list \<Rightarrow> 's track \<Rightarrow> 's track" where
  "note_ratios [] t = t"
| "note_ratios (f # fs) t = note_ratios fs (note_ratio f t)"

lemma note_ratio_keeps [simp, keeps]:
  "vt_frameReader (note_ratio f t) = vt_frameReader t" "vt_stream (note_ratio f t) = vt_stream t"
  "vt_reading (note_ratio f t) = vt_reading t"
  by (simp_all add: note_ratio_def)

lemma note_ratio_update:
  "note_ratio f (t\<lparr>vt_stream := s\<rparr>) = (note_ratio f t)\<lparr>vt_stream := s\<rparr>"
  "note_ratio f (t\<lparr>vt_frameReader := r\<rparr>) = (note_ratio f t)\<lparr>vt_frameReader := r\<rparr>"
  by (simp_all add: note_ratio_def)

lemma note_ratios_update:
  "note_ratios fs (t\<lparr>vt_stream := s\<rparr>) = (note_ratios fs t)\<lparr>vt_stream := s\<rparr>"
  "note_ratios fs (t\<lparr>vt_frameReader := r\<rparr>) = (note_ratios fs t)\<lparr>vt_frameReader := r\<rparr>"
  by (induction fs arbitrary: t) (simp_all add: note_ratio_update)

lemma note_ratios_known: "vt_has_ratio t \<Longrightarrow> note_ratios fs t = t"
  by (induction fs) (simp_all add: note_ratio_def)

lemma note_ratios_keeps [simp]:
  "vt_frameReader (note_ratios fs t) = vt_frameReader t" "vt_stream (note_ratios fs t) = vt_stream t"
  "vt_reading (note_ratios fs t) = vt_reading t"
  by (induction fs arbitrary: t) simp_all

text \<open>The ratio is that of the first frame with a height, and it is announced once.\<close>

lemma note_ratios_first:
  "\<not> vt_has_ratio t \<Longrightarrow> note_ratios fs t =
    (case find (\<lambda>f. 0 < vf_height f) fs of
       None \<Rightarrow> t
     | Some f \<Rightarrow> t\<lparr>vt_aspectRatio := of_int (vf_width f) / of_int (vf_height f), vt_has_ratio := True,
         vt_signals := vt_signals t @ [AspectRatioChanged]\<rparr>)"
proof (induction fs)
  case (Cons f fs)
  then show ?case by (cases "0 < vf_height f") (simp_all add: note_ratio_def note_ratios_known)
qed simp

lemma readLoop_end: "\<not> vt_reading t \<Longrightarrow> readLoop lib t = Some (Inr t)"
  by (simp add: readLoop.simps [of lib t])

lemma readLoop_step:
  "vt_reading t \<Longrightarrow> readLoop lib t = (case read_iter lib t of Inl e \<Rightarrow> Some (Inl e) | Inr t' \<Rightarrow> readLoop lib t')"
  by (simp add: readLoop.simps [of lib t])

lemma readLoop_spec:
  assumes "receive_loop (sl_read lib) s = Some (fs, s')" and "vt_stream t = Some s" "vt_reading t"
  shows "readLoop lib t = Some (andThen (push_all (sl_media lib) fs (vt_frameReader t))
      (\<lambda>r. Inr ((note_ratios fs t)\<lparr>vt_frameReader := r, vt_stream := Some s', vt_reading := False\<rparr>)))"
proof -
  have "drains (sl_read lib) s" using assms(1) by (rule receive_loop_Some_drains)
  then show ?thesis using assms
  proof (induction arbitrary: fs t rule: drains.induct)
    case (drains_stop s s1)
    then have "fs = []" "s' = s1" by (simp_all add: receive_loop.simps [of _ s])
    moreover have "read_iter lib t = Inr (t\<lparr>vt_stream := Some s1, vt_reading := False\<rparr>)"
      using drains_stop by (simp add: read_iter_def)
    ultimately show ?case using drains_stop.prems by (simp add: readLoop_step readLoop_end)
  next
    case (drains_more s f s1)
    then obtain fs1 where fs: "fs = f # fs1" and r1: "receive_loop (sl_read lib) s1 = Some (fs1, s')"
      by (auto simp: receive_loop.simps [of _ s] split: bind_splits)
    let ?t = "note_ratio f (t\<lparr>vt_stream := Some s1\<rparr>)"
    have it: "read_iter lib t = andThen (pushFrame (sl_media lib) f (vt_frameReader t)) (\<lambda>r. Inr (?t\<lparr>vt_frameReader := r\<rparr>))"
      using drains_more by (simp add: read_iter_def Let_def)
    show ?case
    proof (cases "pushFrame (sl_media lib) f (vt_frameReader t)")
      case (Inl e)
      then show ?thesis using it fs drains_more.prems by (simp add: readLoop_step)
    next
      case (Inr r)
      have "readLoop lib t = readLoop lib (?t\<lparr>vt_frameReader := r\<rparr>)"
        using it Inr drains_more.prems by (simp add: readLoop_step)
      also have "\<dots> = Some (andThen (push_all (sl_media lib) fs1 r)
        (\<lambda>r'. Inr ((note_ratios fs1 (?t\<lparr>vt_frameReader := r\<rparr>))\<lparr>vt_frameReader := r', vt_stream := Some s', vt_reading := False\<rparr>)))"
        using drains_more.IH [OF r1, of "?t\<lparr>vt_frameReader := r\<rparr>"] drains_more.prems by simp
      finally show ?thesis using fs Inr by (simp add: note_ratio_update note_ratios_update)
    qed
  qed
qed

section \<open>What the stream shows\<close>

lemma room_for_cong: "rd_placeholder r' = rd_placeholder r \<Longrightarrow> room_for lib r' f = room_for lib r f"
  by (simp add: room_for_def split: plan.splits)

lemma shows_plan_cong: "rd_placeholder r' = rd_placeholder r \<Longrightarrow> shows_plan lib r' f = shows_plan lib r f"
  by (simp add: shows_plan_def fun_eq_iff split: plan.splits)

lemma rd_emit_keeps [simp]:
  "rd_videoSink (rd_emit ev r) = rd_videoSink r" "rd_placeholder (rd_emit ev r) = rd_placeholder r"
  "rd_events (rd_emit ev r) = rd_events r @ [ev]"
  by (simp_all add: rd_emit_def)

lemma push_all_shows:
  assumes "rd_videoSink r = Some sink" and "\<forall>f \<in> set fs. room_for lib r f"
  shows "\<exists>qs r'. push_all lib fs r = Inr r' \<and> rd_videoSink r' = Some sink \<and> rd_placeholder r' = rd_placeholder r
     \<and> rd_events r' = rd_events r @ map (SetVideoFrame sink) qs \<and> list_all2 (shows_plan lib r) fs qs"
  using assms
proof (induction fs arbitrary: r)
  case (Cons f fs)
  have "room_for lib r f" using Cons.prems(2) by simp
  from pushFrame_shows [OF Cons.prems(1) this] obtain q where
    q: "pushFrame lib f r = Inr (rd_emit (SetVideoFrame sink q) r)" "shows_plan lib r f q" by blast
  let ?r = "rd_emit (SetVideoFrame sink q) r"
  have "\<forall>g \<in> set fs. room_for lib ?r g" using Cons.prems(2) room_for_cong [of ?r r] by simp
  with Cons.IH [of ?r] Cons.prems(1) obtain qs r' where
    "push_all lib fs ?r = Inr r'" "rd_videoSink r' = Some sink" "rd_placeholder r' = rd_placeholder r"
    "rd_events r' = rd_events r @ SetVideoFrame sink q # map (SetVideoFrame sink) qs"
    "list_all2 (shows_plan lib ?r) fs qs" by auto
  moreover have "shows_plan lib ?r = shows_plan lib r" by (intro ext) (simp add: shows_plan_cong [of ?r r])
  ultimately show ?case using q by (intro exI [of _ "q # qs"] exI [of _ r']) auto
qed auto


text \<open>Streams to evaluate with: \<open>n\<close> frames of one size, of which closing leaves at most one.\<close>

definition stream_ref :: "(nat, nat) stream_lib" where
  "stream_ref = \<lparr>sl_media = qt_ref, sl_fromTrack = (\<lambda>n. if n = 0 then None else Some n),
     sl_read = (\<lambda>n. if n = 0 then (None, 0) else (Some (sample_i420 4 2), n - 1)), sl_close = (\<lambda>n. min n 1)\<rparr>"

definition sample_track :: "nat track" where
  "sample_track = (new_track None)\<lparr>vt_frameReader := sample_reader, vt_stream := Some 2, vt_reading := True\<rparr>"

lemma sample_room: "room_for qt_ref sample_reader (sample_i420 4 2)"
  by code_simp


section \<open>Taking the track away\<close>

lemma readLoop_Inr_drains:
  fixes lib :: "('t, 's) stream_lib"
  assumes "readLoop lib t = Some (Inr t')" "vt_reading t" "vt_stream t = Some s"
  shows "drains (sl_read lib) s"
proof -
  have "\<forall>s t'. r = Inr t' \<longrightarrow> vt_reading t \<longrightarrow> vt_stream t = Some s \<longrightarrow> drains (sl_read lib) s"
    if "readLoop lib t = Some r" for r
  proof (rule readLoop.raw_induct [where P = "\<lambda>lib t r. \<forall>s t'. r = Inr t' \<longrightarrow> vt_reading t \<longrightarrow> vt_stream t = Some s
      \<longrightarrow> drains (sl_read lib) s", OF _ that])
    fix f :: "('t, 's) stream_lib \<Rightarrow> 's track \<Rightarrow> 's track run option" and lib t r
    assume IH: "\<And>lib t r. f lib t = Some r \<Longrightarrow>
        \<forall>s t'. r = Inr t' \<longrightarrow> vt_reading t \<longrightarrow> vt_stream t = Some s \<longrightarrow> drains (sl_read lib) s"
      and eq: "(if vt_reading t then (case read_iter lib t of Inl e \<Rightarrow> Some (Inl e) | Inr t' \<Rightarrow> f lib t')
        else Some (Inr t)) = Some r"
    show "\<forall>s t'. r = Inr t' \<longrightarrow> vt_reading t \<longrightarrow> vt_stream t = Some s \<longrightarrow> drains (sl_read lib) s"
    proof (intro allI impI)
      fix s t'
      assume t: "r = Inr t'" "vt_reading t" "vt_stream t = Some s"
      obtain a s1 where rd: "sl_read lib s = (a, s1)" by fastforce
      show "drains (sl_read lib) s"
      proof (cases a)
        case None
        with rd show ?thesis by (auto intro: drains_stop)
      next
        case (Some g)
        then obtain r1 where "f lib ((note_ratio g (t\<lparr>vt_stream := Some s1\<rparr>))\<lparr>vt_frameReader := r1\<rparr>) = Some (Inr t')"
          using eq t rd by (cases "pushFrame (sl_media lib) g (vt_frameReader t)")
            (auto simp: read_iter_def Let_def)
        from IH [OF this] t(2) have "drains (sl_read lib) s1" by simp
        with rd Some show ?thesis by (auto intro: drains_more)
      qed
    qed
  qed
  with assms show ?thesis by blast
qed



section \<open>Interleavings\<close>

text \<open>
  The states a track can be in, whatever the user interface calls between the iterations of
  the worker's loop.
\<close>

inductive vt_reach :: "('t, 's) stream_lib \<Rightarrow> q_image option \<Rightarrow> 's track \<Rightarrow> bool" for lib img where
  reach_new: "vt_reach lib img (new_track img)"
| reach_sink: "vt_reach lib img t \<Longrightarrow> vt_setVideoSink lib sink t = Inr t' \<Longrightarrow> vt_reach lib img t'"
| reach_set: "vt_reach lib img t \<Longrightarrow> setTrack lib trk t = Inr (b, t') \<Longrightarrow> vt_reach lib img t'"
| reach_unset: "vt_reach lib img t \<Longrightarrow> unsetTrack lib t = Inr t' \<Longrightarrow> vt_reach lib img t'"
| reach_iter: "vt_reach lib img t \<Longrightarrow> vt_reading t \<Longrightarrow> read_iter lib t = Inr t' \<Longrightarrow> vt_reach lib img t'"

text \<open>
  A reading thread has a stream, and a stream with a sink is read unless the last \<open>read\<close>
  reported its end.
\<close>

definition attended :: "('t, 's) stream_lib \<Rightarrow> 's track \<Rightarrow> bool" where
  "attended lib t \<longleftrightarrow> (vt_reading t \<longrightarrow> vt_stream t \<noteq> None)
     \<and> (\<forall>s. vt_stream t = Some s \<and> vt_videoSink t \<noteq> None \<and> \<not> vt_reading t \<longrightarrow> (\<exists>s0. sl_read lib s0 = (None, s)))"

lemma read_iter_attended:
  assumes "attended lib t" "vt_reading t" "read_iter lib t = Inr t'"
  shows "attended lib t'"
proof -
  from assms(1,2) obtain s where s: "vt_stream t = Some s" by (auto simp: attended_def)
  obtain a s1 where "sl_read lib s = (a, s1)" by fastforce
  with s assms show ?thesis by (cases a) (auto simp: attended_def read_iter_def Let_def)
qed

lemma readLoop_keeps:
  fixes lib :: "('t, 's) stream_lib"
  assumes "readLoop lib t = Some (Inr t')" and "I t" and "\<And>t t'. I t \<Longrightarrow> vt_reading t \<Longrightarrow> read_iter lib t = Inr t' \<Longrightarrow> I t'"
  shows "I t' \<and> \<not> vt_reading t'"
proof -
  have "\<forall>t'. r = Inr t' \<longrightarrow> (\<forall>t t'. I t \<longrightarrow> vt_reading t \<longrightarrow> read_iter lib t = Inr t' \<longrightarrow> I t') \<longrightarrow> I t \<longrightarrow> I t' \<and> \<not> vt_reading t'"
    if "readLoop lib t = Some r" for r
  proof (rule readLoop.raw_induct [where P = "\<lambda>lib t r. \<forall>t'. r = Inr t' \<longrightarrow>
        (\<forall>t t'. I t \<longrightarrow> vt_reading t \<longrightarrow> read_iter lib t = Inr t' \<longrightarrow> I t') \<longrightarrow> I t \<longrightarrow> I t' \<and> \<not> vt_reading t'", OF _ that],
      intro allI impI)
    fix f :: "('t, 's) stream_lib \<Rightarrow> 's track \<Rightarrow> 's track run option" and lib t r t'
    assume IH: "\<And>lib t r. f lib t = Some r \<Longrightarrow> \<forall>t'. r = Inr t' \<longrightarrow>
        (\<forall>t t'. I t \<longrightarrow> vt_reading t \<longrightarrow> read_iter lib t = Inr t' \<longrightarrow> I t') \<longrightarrow> I t \<longrightarrow> I t' \<and> \<not> vt_reading t'"
      and eq: "(if vt_reading t then (case read_iter lib t of Inl e \<Rightarrow> Some (Inl e) | Inr t' \<Rightarrow> f lib t')
        else Some (Inr t)) = Some r" "r = Inr t'"
      and I: "\<forall>t t'. I t \<longrightarrow> vt_reading t \<longrightarrow> read_iter lib t = Inr t' \<longrightarrow> I t'" "I t"
    show "I t' \<and> \<not> vt_reading t'"
    proof (cases "vt_reading t")
      case True
      with eq obtain t1 where "read_iter lib t = Inr t1" "f lib t1 = Some (Inr t')"
        by (cases "read_iter lib t") auto
      with IH I True show ?thesis by blast
    qed (use eq I in simp)
  qed
  with assms show ?thesis by blast
qed

lemma unsetTrack_idle:
  assumes "attended lib t" "unsetTrack lib t = Inr t'"
  shows "vt_stream t' = None \<and> \<not> vt_reading t'"
proof -
  let ?t = "t\<lparr>vt_stream := map_option (sl_close lib) (vt_stream t)\<rparr>"
  obtain t1 where 1: "(if vt_reading ?t then wait_read lib ?t else Inr ?t) = Inr t1" and t': "t' = t1\<lparr>vt_stream := None\<rparr>"
    using assms(2) by (auto simp: unsetTrack_def Let_def)
  have "\<not> vt_reading t1"
    using 1 readLoop_keeps [of lib ?t t1 "\<lambda>_. True"] by (auto simp: wait_read_def split: if_splits option.splits)
  with t' show ?thesis by simp
qed

lemma startRead_reading [simp]: "vt_reading (startRead t)" "vt_stream (startRead t) = vt_stream t"
  "vt_frameReader (startRead t) = vt_frameReader t"
  by (simp_all add: startRead_def)

lemma attended_setVideoSink:
  assumes "attended lib t" "vt_setVideoSink lib sink t = Inr t'"
  shows "attended lib t'"
proof (cases "vt_videoSink t = sink")
  case True
  with assms show ?thesis by (simp add: vt_setVideoSink_def)
next
  case False
  with assms(2) obtain r where
    t': "t' = (let t = onVideoSinkChanged (t\<lparr>vt_frameReader := r\<rparr>) in t\<lparr>vt_signals := vt_signals t @ [VideoSinkChanged]\<rparr>)"
    by (auto simp: vt_setVideoSink_def Let_def)
  show ?thesis
  proof (cases "vt_stream t \<noteq> None \<and> rd_videoSink r \<noteq> None \<and> \<not> vt_reading t")
    case True
    then show ?thesis using t' by (simp add: attended_def onVideoSinkChanged_def Let_def)
  next
    case False
    then show ?thesis using t' assms(1) by (auto simp: attended_def onVideoSinkChanged_def Let_def)
  qed
qed

lemma attended_setTrack:
  assumes "attended lib t" "setTrack lib trk t = Inr (b, t')"
  shows "attended lib t'"
proof -
  obtain t1 where 1: "unsetTrack lib t = Inr t1" using assms(2) by (auto simp: setTrack_def)
  have "vt_stream t1 = None" "\<not> vt_reading t1" using unsetTrack_idle [OF assms(1) 1] by simp_all
  then show ?thesis
    using assms(2) 1 by (cases "sl_fromTrack lib trk") (auto simp: attended_def setTrack_def Let_def split: if_splits)
qed

text \<open>C22: Invariant of the interplay of user interface and worker. In every reachable state, a
  reading thread has a stream to read, and a track that has both a stream and a video sink is
  being read, whichever came first, unless LiveKit has reported the end of that stream.\<close>

theorem track_attended: "vt_reach lib img t \<Longrightarrow> attended lib t"
proof (induction rule: vt_reach.induct)
  case reach_new
  then show ?case by (simp add: attended_def new_track_def)
next
  case (reach_sink t sink t')
  show ?case by (rule attended_setVideoSink [OF reach_sink.IH reach_sink.hyps(2)])
next
  case (reach_set t trk b t')
  show ?case by (rule attended_setTrack [OF reach_set.IH reach_set.hyps(2)])
next
  case (reach_unset t t')
  show ?case using unsetTrack_idle [OF reach_unset.IH reach_unset.hyps(2)] by (simp add: attended_def)
next
  case (reach_iter t t')
  show ?case by (rule read_iter_attended [OF reach_iter.IH reach_iter.hyps(2,3)])
qed

theorem track_attended_witness:
  "\<exists>t. vt_reach stream_ref None t \<and> attended stream_ref t \<and> vt_stream t = Some 2 \<and> vt_reading t"
proof -
  obtain t1 where 1: "setTrack stream_ref 2 (new_track None) = Inr (True, t1)" "vt_stream t1 = Some 2" "\<not> vt_reading t1"
      "vt_videoSink t1 = None" "rd_placeholder (vt_frameReader t1) = None"
    by (auto simp: setTrack_def unsetTrack_def new_track_def new_reader_def stream_ref_def Let_def)
  then obtain t2 where 2: "vt_setVideoSink stream_ref (Some 5) t1 = Inr t2" "vt_stream t2 = Some 2" "vt_reading t2"
    by (auto simp: vt_setVideoSink_def rd_setVideoSink_def push_placeholder_def onVideoSinkChanged_def rd_emit_def Let_def)
  have "vt_reach stream_ref None t2"
    using reach_sink [OF reach_set [OF reach_new 1(1)] 2(1)] .
  from track_attended [OF this] this 2 show ?thesis by blast
qed

end
