(* ===== verification/Director_Session.thy ===== *)
theory Director_Session
  imports Video_Track "HOL-Library.List_Lexorder" "HOL-Library.Char_ord"
begin

text \<open>
  \<open>client/src/directorsession.cpp\<close>: the director's tracks in a \<open>std::map\<close> by track sid.
  The map is an association list in key order behind the interface \<open>indexed_map\<close>; the
  session announces changes by position, and a view that follows the announcements is shown to
  equal the list \<open>tracks()\<close> returns.
\<close>

section \<open>An ordered map with positions\<close>

text \<open>
  What the session uses of \<open>std::map\<close>: \<open>find\<close>, insertion of a new key, \<open>erase\<close> and the
  distance from \<open>begin()\<close>. The laws say where in the iteration order a key goes.
\<close>

locale indexed_map =
  fixes find :: "'k \<Rightarrow> 'm \<Rightarrow> 'v option"
    and put :: "'k \<Rightarrow> 'v \<Rightarrow> 'm \<Rightarrow> 'm"
    and del :: "'k \<Rightarrow> 'm \<Rightarrow> 'm"
    and idx :: "'k \<Rightarrow> 'm \<Rightarrow> nat"
    and elems :: "'m \<Rightarrow> ('k \<times> 'v) list"
    and ok :: "'m \<Rightarrow> bool"
  assumes find_elems: "ok m \<Longrightarrow> find k m = map_of (elems m) k"
    and keys_distinct: "ok m \<Longrightarrow> distinct (map fst (elems m))"
    and put_ok: "ok m \<Longrightarrow> ok (put k v m)"
    and del_ok: "ok m \<Longrightarrow> ok (del k m)"
    and put_elems: "ok m \<Longrightarrow> find k m = None \<Longrightarrow> idx k (put k v m) \<le> length (elems m) \<and>
      elems (put k v m) = take (idx k (put k v m)) (elems m) @ (k, v) # drop (idx k (put k v m)) (elems m)"
    and del_elems: "ok m \<Longrightarrow> find k m = Some v \<Longrightarrow> idx k m < length (elems m) \<and> elems m ! idx k m = (k, v) \<and>
      elems (del k m) = take (idx k m) (elems m) @ drop (Suc (idx k m)) (elems m)"
begin

lemma put_position:
  assumes "ok m" "find k m = None"
  shows "map f (elems (put k v m)) ! idx k (put k v m) = f (k, v)
    \<and> map f (elems (put k v m)) = take (idx k (put k v m)) (map f (elems m)) @ f (k, v) # drop (idx k (put k v m)) (map f (elems m))"
proof -
  let ?i = "idx k (put k v m)"
  have l: "?i \<le> length (elems m)" and e: "elems (put k v m) = take ?i (elems m) @ (k, v) # drop ?i (elems m)"
    using put_elems [OF assms, of v] by simp_all
  show ?thesis unfolding e using l by (simp add: nth_append take_map drop_map)
qed

lemma del_position:
  assumes "ok m" "find k m = Some v"
  shows "map f (elems (del k m)) = take (idx k m) (map f (elems m)) @ drop (Suc (idx k m)) (map f (elems m))"
  using del_elems [OF assms] by (simp add: take_map drop_map)

lemma find_put:
  assumes "ok m" "find k m = None"
  shows "find k' (put k v m) = (if k' = k then Some v else find k' m)"
proof -
  let ?i = "idx k (put k v m)"
  have "set (elems (put k v m)) = insert (k, v) (set (elems m))"
    using put_elems [OF assms, of v] set_append [of "take ?i (elems m)" "drop ?i (elems m)"] by simp
  moreover have "distinct (map fst (elems (put k v m)))" "distinct (map fst (elems m))"
    using assms put_ok keys_distinct by blast+
  ultimately have "map_of (elems (put k v m)) k' = Some x \<longleftrightarrow> (if k' = k then Some v else map_of (elems m) k') = Some x" for x
    using assms by (auto simp: find_elems map_of_eq_Some_iff map_of_eq_None_iff image_iff)
  then have "map_of (elems (put k v m)) k' = (if k' = k then Some v else map_of (elems m) k')"
    by (metis not_Some_eq)
  with assms put_ok show ?thesis by (simp add: find_elems)
qed

lemma find_del:
  assumes "ok m" "find k m = Some v"
  shows "find k' (del k m) = (if k' = k then None else find k' m)"
proof -
  let ?i = "idx k m" and ?es = "elems m"
  have i: "?i < length ?es" "?es ! ?i = (k, v)" and d: "elems (del k m) = take ?i ?es @ drop (Suc ?i) ?es"
    using del_elems [OF assms] by simp_all
  have split: "?es = take ?i ?es @ (k, v) # drop (Suc ?i) ?es"
    using i id_take_nth_drop [OF i(1)] by simp
  have "distinct (map fst ?es)" using assms keys_distinct by blast
  then have "k \<notin> fst ` set (take ?i ?es)" "k \<notin> fst ` set (drop (Suc ?i) ?es)"
    by (subst (asm) split, force)+
  then have "map_of (take ?i ?es) k = None" "map_of (drop (Suc ?i) ?es) k = None"
    by (simp_all add: map_of_eq_None_iff)
  then have "map_of (take ?i ?es @ drop (Suc ?i) ?es) k' = (if k' = k then None else map_of (take ?i ?es @ (k, v) # drop (Suc ?i) ?es) k')"
    by (simp add: map_add_def split: option.split)
  then show ?thesis using assms del_ok d split by (simp add: find_elems)
qed

end

section \<open>The map of the session\<close>

type_synonym 'v sid_map = "(string \<times> 'v) list"

fun tm_find :: "string \<Rightarrow> 'v sid_map \<Rightarrow> 'v option" where
  "tm_find k [] = None"
| "tm_find k ((k', v) # m) = (if k = k' then Some v else tm_find k m)"

fun tm_put :: "string \<Rightarrow> 'v \<Rightarrow> 'v sid_map \<Rightarrow> 'v sid_map" where
  "tm_put k v [] = [(k, v)]"
| "tm_put k v ((k', v') # m) =
     (if k < k' then (k, v) # (k', v') # m else if k = k' then (k, v) # m else (k', v') # tm_put k v m)"

fun tm_del :: "string \<Rightarrow> 'v sid_map \<Rightarrow> 'v sid_map" where
  "tm_del k [] = []"
| "tm_del k ((k', v) # m) = (if k = k' then m else (k', v) # tm_del k m)"

fun tm_index :: "string \<Rightarrow> 'v sid_map \<Rightarrow> nat" where
  "tm_index k [] = 0"
| "tm_index k ((k', v) # m) = (if k = k' then 0 else Suc (tm_index k m))"

definition tm_sorted :: "'v sid_map \<Rightarrow> bool" where
  "tm_sorted m \<longleftrightarrow> sorted_wrt (<) (map fst m)"

lemma tm_find_map_of: "tm_find k m = map_of m k"
  by (induction k m rule: tm_find.induct) auto

lemma tm_sorted_distinct: "tm_sorted m \<Longrightarrow> distinct (map fst m)"
  by (auto simp: tm_sorted_def strict_sorted_iff)

lemma tm_put_keys: "set (map fst (tm_put k v m)) = insert k (set (map fst m))"
  by (induction k v m rule: tm_put.induct) auto

lemma tm_del_keys: "set (map fst (tm_del k m)) \<subseteq> set (map fst m)"
  by (induction k m rule: tm_del.induct) auto

lemma tm_put_sorted: "tm_sorted m \<Longrightarrow> tm_sorted (tm_put k v m)"
proof (induction k v m rule: tm_put.induct)
  case (2 k v k' v' m)
  then have "tm_sorted m" "\<forall>x \<in> set (map fst m). k' < x" by (auto simp: tm_sorted_def)
  with 2 tm_put_keys [of k v m] show ?case by (fastforce simp: tm_sorted_def)
qed (simp add: tm_sorted_def)

lemma tm_del_sorted: "tm_sorted m \<Longrightarrow> tm_sorted (tm_del k m)"
proof (induction k m rule: tm_del.induct)
  case (2 k k' v m)
  then have "tm_sorted m" "\<forall>x \<in> set (map fst m). k' < x" by (auto simp: tm_sorted_def)
  with 2 tm_del_keys [of k m] show ?case by (fastforce simp: tm_sorted_def)
qed (simp add: tm_sorted_def)

lemma tm_put_index:
  "tm_find k m = None \<Longrightarrow> tm_index k (tm_put k v m) \<le> length m \<and>
   tm_put k v m = take (tm_index k (tm_put k v m)) m @ (k, v) # drop (tm_index k (tm_put k v m)) m"
  by (induction k v m rule: tm_put.induct) (auto split: if_splits)

lemma tm_del_index:
  "tm_find k m = Some v \<Longrightarrow> tm_index k m < length m \<and> m ! tm_index k m = (k, v)
   \<and> tm_del k m = take (tm_index k m) m @ drop (Suc (tm_index k m)) m"
  by (induction k m rule: tm_del.induct) (auto split: if_splits)

interpretation sid_map: indexed_map tm_find tm_put tm_del tm_index id tm_sorted
proof unfold_locales
  fix k :: string and m :: "'v sid_map" and v :: 'v
  assume ok: "tm_sorted m"
  show "tm_find k m = map_of (id m) k" by (simp add: tm_find_map_of)
  show "distinct (map fst (id m))" using tm_sorted_distinct [OF ok] by simp
  show "tm_sorted (tm_put k v m)" using ok by (rule tm_put_sorted)
  show "tm_sorted (tm_del k m)" using ok by (rule tm_del_sorted)
  show "tm_index k (tm_put k v m) \<le> length (id m) \<and> id (tm_put k v m) =
      take (tm_index k (tm_put k v m)) (id m) @ (k, v) # drop (tm_index k (tm_put k v m)) (id m)"
    if "tm_find k m = None" using tm_put_index [OF that, of v] by simp
  show "tm_index k m < length (id m) \<and> id m ! tm_index k m = (k, v)
      \<and> id (tm_del k m) = take (tm_index k m) (id m) @ drop (Suc (tm_index k m)) (id m)"
    if "tm_find k m = Some v" using tm_del_index [OF that] by simp
qed

section \<open>State and operations\<close>

datatype session_signal = TrackAdded nat | TrackRemoved nat | TracksChanged

text \<open>Every \<open>VideoTrack\<close> the session makes is an object of its own, named by a handle.\<close>

record 's director_session =
  ds_trackMap :: "(handle \<times> 's track) sid_map"
  ds_nextTrack :: handle

definition new_director_session :: "'s director_session" where
  "new_director_session = \<lparr>ds_trackMap = [], ds_nextTrack = 0\<rparr>"

definition tracks :: "'s director_session \<Rightarrow> handle list" where
  "tracks s = map (fst \<circ> snd) (ds_trackMap s)"

text \<open>The operations return the signals they emit, in order.\<close>

definition attachTrack :: "('t, 's) stream_lib \<Rightarrow> q_image option \<Rightarrow> 't \<Rightarrow> string \<Rightarrow> 's director_session \<Rightarrow>
    (session_signal list \<times> 's director_session) run" where
  "attachTrack lib img trk trackSid s =
     (if tm_find trackSid (ds_trackMap s) \<noteq> None then Inr ([], s)
      else andThen (setTrack lib trk (new_track img)) (\<lambda>(ok, t).
        if \<not> ok then andThen (vt_destroy lib t) (\<lambda>_. Inr ([], s))
        else let m = tm_put trackSid (ds_nextTrack s, t) (ds_trackMap s) in
          Inr ([TrackAdded (tm_index trackSid m), TracksChanged],
               s\<lparr>ds_trackMap := m, ds_nextTrack := Suc (ds_nextTrack s)\<rparr>)))"

definition detachTrack :: "('t, 's) stream_lib \<Rightarrow> string \<Rightarrow> 's director_session \<Rightarrow>
    (session_signal list \<times> 's director_session) run" where
  "detachTrack lib trackSid s =
     (case tm_find trackSid (ds_trackMap s) of
        None \<Rightarrow> Inr ([], s)
      | Some (_, t) \<Rightarrow> andThen (vt_destroy lib t) (\<lambda>_.
          Inr ([TrackRemoved (tm_index trackSid (ds_trackMap s)), TracksChanged],
               s\<lparr>ds_trackMap := tm_del trackSid (ds_trackMap s)\<rparr>)))"

fun destroy_tracks :: "('t, 's) stream_lib \<Rightarrow> (handle \<times> 's track) sid_map \<Rightarrow> unit run" where
  "destroy_tracks lib [] = Inr ()"
| "destroy_tracks lib ((_, _, t) # m) = andThen (vt_destroy lib t) (\<lambda>_. destroy_tracks lib m)"

definition detachAllTracks :: "('t, 's) stream_lib \<Rightarrow> 's director_session \<Rightarrow>
    (session_signal list \<times> 's director_session) run" where
  "detachAllTracks lib s =
     andThen (destroy_tracks lib (ds_trackMap s)) (\<lambda>_. Inr ([TracksChanged], s\<lparr>ds_trackMap := []\<rparr>))"

definition ds_destroy :: "('t, 's) stream_lib \<Rightarrow> 's director_session \<Rightarrow> (session_signal list \<times> 's director_session) run" where
  "ds_destroy lib s = detachAllTracks lib s"

section \<open>Invariant\<close>

text \<open>Keys in order, objects distinct, every attached track with its stream.\<close>

definition ds_inv :: "'s director_session \<Rightarrow> bool" where
  "ds_inv s \<longleftrightarrow> tm_sorted (ds_trackMap s) \<and> distinct (tracks s) \<and> (\<forall>h \<in> set (tracks s). h < ds_nextTrack s)
     \<and> (\<forall>(sid, h, t) \<in> set (ds_trackMap s). vt_stream t \<noteq> None)"

lemmas sid_put_position = sid_map.put_position [unfolded id_apply]
lemmas sid_del_position = sid_map.del_position [unfolded id_apply]

lemma unset_new_track: "unsetTrack lib (new_track img) = Inr (new_track img)"
  by (simp add: unsetTrack_def new_track_def)

lemma setTrack_new:
  fixes lib :: "('t, 's) stream_lib"
  shows "setTrack lib trk (new_track img) = Inr (sl_fromTrack lib trk \<noteq> None, (new_track img)\<lparr>vt_stream := sl_fromTrack lib trk\<rparr>)"
proof -
  have "vt_videoSink (new_track img :: 's track) = None" "(new_track img)\<lparr>vt_stream := None\<rparr> = (new_track img :: 's track)"
    by (simp_all add: new_track_def new_reader_def)
  then show ?thesis
    by (cases "sl_fromTrack lib trk") (simp_all add: setTrack_def unset_new_track Let_def)
qed

lemma unread_new_track: "\<not> vt_reading ((new_track img)\<lparr>vt_stream := x\<rparr>)"
  by (simp add: new_track_def)

lemma destroy_unread: "\<not> vt_reading t \<Longrightarrow> \<exists>t'. vt_destroy lib t = Inr t'"
  by (simp add: vt_destroy_def unsetTrack_def Let_def)

text \<open>What attaching does, on its three branches; it always returns.\<close>

lemma attachTrack_cases:
  assumes "attachTrack lib img trk sid s = Inr (sigs, s')"
  obtains (again) "tm_find sid (ds_trackMap s) \<noteq> None" "sigs = []" "s' = s"
    | (failed) "tm_find sid (ds_trackMap s) = None" "sl_fromTrack lib trk = None" "sigs = []" "s' = s"
    | (added) t where "tm_find sid (ds_trackMap s) = None" "sl_fromTrack lib trk \<noteq> None"
        "vt_stream t = sl_fromTrack lib trk" "\<not> vt_reading t"
        "sigs = [TrackAdded (tm_index sid (tm_put sid (ds_nextTrack s, t) (ds_trackMap s))), TracksChanged]"
        "s' = s\<lparr>ds_trackMap := tm_put sid (ds_nextTrack s, t) (ds_trackMap s), ds_nextTrack := Suc (ds_nextTrack s)\<rparr>"
proof (cases "tm_find sid (ds_trackMap s)")
  case None
  show thesis
  proof (cases "sl_fromTrack lib trk")
    assume no: "sl_fromTrack lib trk = None"
    have "sigs = [] \<and> s' = s" using assms None no by (auto simp: attachTrack_def setTrack_new)
    with None no failed show thesis by blast
  next
    fix st
    assume Some: "sl_fromTrack lib trk = Some st"
    let ?t = "(new_track img)\<lparr>vt_stream := Some st\<rparr>"
    have out: "sigs = [TrackAdded (tm_index sid (tm_put sid (ds_nextTrack s, ?t) (ds_trackMap s))), TracksChanged]"
      "s' = s\<lparr>ds_trackMap := tm_put sid (ds_nextTrack s, ?t) (ds_trackMap s), ds_nextTrack := Suc (ds_nextTrack s)\<rparr>"
      using assms None Some by (simp_all add: attachTrack_def setTrack_new Let_def)
    show thesis
    proof (rule added [OF None _ _ _ out])
      show "sl_fromTrack lib trk \<noteq> None" using Some by simp
      show "vt_stream ?t = sl_fromTrack lib trk" using Some by simp
    qed (rule unread_new_track)
  qed
next
  case (Some x)
  have "sigs = [] \<and> s' = s" using assms Some by (simp add: attachTrack_def)
  with Some again show thesis by simp
qed

lemma attachTrack_returns: "\<exists>sigs s'. attachTrack lib img trk sid s = Inr (sigs, s')"
proof -
  obtain t' where "vt_destroy lib ((new_track img)\<lparr>vt_stream := None\<rparr>) = Inr t'"
    using destroy_unread [OF unread_new_track] by blast
  then show ?thesis by (auto simp: attachTrack_def setTrack_new Let_def)
qed

lemma detachTrack_cases:
  assumes "detachTrack lib sid s = Inr (sigs, s')"
  obtains (absent) "tm_find sid (ds_trackMap s) = None" "sigs = []" "s' = s"
    | (removed) h t where "tm_find sid (ds_trackMap s) = Some (h, t)"
        "sigs = [TrackRemoved (tm_index sid (ds_trackMap s)), TracksChanged]"
        "s' = s\<lparr>ds_trackMap := tm_del sid (ds_trackMap s)\<rparr>"
  using assms by (cases "tm_find sid (ds_trackMap s)") (auto simp: detachTrack_def)

lemma keys_put: "ds_inv s \<Longrightarrow> set (map fst (tm_put sid v (ds_trackMap s))) = insert sid (set (map fst (ds_trackMap s)))"
  by (rule tm_put_keys)

lemma set_tm_put: "tm_find k m = None \<Longrightarrow> set (tm_put k v m) = insert (k, v) (set m)"
  by (induction k v m rule: tm_put.induct) (auto split: if_splits)

lemma set_tm_del: "set (tm_del k m) \<subseteq> set m"
  by (induction k m rule: tm_del.induct) auto

lemma keys_del: "tm_sorted m \<Longrightarrow> set (map fst (tm_del k m)) = set (map fst m) - {k}"
proof (induction k m rule: tm_del.induct)
  case (2 k k' v m)
  then have "tm_sorted m" "\<forall>x \<in> set (map fst m). k' < x" by (auto simp: tm_sorted_def)
  with 2 show ?case by auto
qed simp

lemma distinct_at:
  "distinct xs \<Longrightarrow> x \<notin> set xs \<Longrightarrow> distinct (take i xs @ x # drop i xs)"
  "distinct xs \<Longrightarrow> distinct (take i xs @ drop (Suc i) xs)"
  by (auto dest: in_set_takeD in_set_dropD simp: set_take_disj_set_drop_if_distinct)

lemma attachTrack_inv:
  assumes "ds_inv s" "attachTrack lib img trk sid s = Inr (sigs, s')"
  shows "ds_inv s'"
  using assms(2)
proof (cases rule: attachTrack_cases)
  case (added t)
  let ?m = "tm_put sid (ds_nextTrack s, t) (ds_trackMap s)" and ?v = "(ds_nextTrack s, t)"
  have "tm_sorted (ds_trackMap s)" using assms(1) by (simp add: ds_inv_def)
  then have ts: "tracks s' = take (tm_index sid ?m) (tracks s) @ ds_nextTrack s # drop (tm_index sid ?m) (tracks s)"
    using sid_put_position [OF _ added(1), of "fst \<circ> snd" ?v] added(6) by (simp add: tracks_def)
  have "ds_nextTrack s \<notin> set (tracks s)" using assms(1) by (auto simp: ds_inv_def)
  then have "distinct (tracks s')" unfolding ts by (intro distinct_at(1)) (use assms(1) in \<open>simp_all add: ds_inv_def\<close>)
  moreover have "\<forall>h \<in> set (tracks s'). h < ds_nextTrack s'"
    using ts added(6) assms(1) by (auto simp: ds_inv_def less_Suc_eq dest: in_set_takeD in_set_dropD)
  moreover have "\<forall>(sid, h, t) \<in> set (ds_trackMap s'). vt_stream t \<noteq> None"
    using assms(1) added set_tm_put [OF added(1), of ?v] by (auto simp: ds_inv_def)
  moreover have "tm_sorted (ds_trackMap s')" using added(6) assms(1) by (simp add: ds_inv_def tm_put_sorted)
  ultimately show ?thesis by (simp only: ds_inv_def)
qed (use assms(1) in simp_all)

lemma detachTrack_inv:
  assumes "ds_inv s" "detachTrack lib sid s = Inr (sigs, s')"
  shows "ds_inv s'"
  using assms(2)
proof (cases rule: detachTrack_cases)
  case (removed h t)
  have "tm_sorted (ds_trackMap s)" using assms(1) by (simp add: ds_inv_def)
  then have ts: "tracks s' = take (tm_index sid (ds_trackMap s)) (tracks s) @ drop (Suc (tm_index sid (ds_trackMap s))) (tracks s)"
    using sid_del_position [OF _ removed(1), of "fst \<circ> snd"] removed(3) by (simp add: tracks_def)
  have "distinct (tracks s')" unfolding ts by (intro distinct_at(2)) (use assms(1) in \<open>simp add: ds_inv_def\<close>)
  moreover have "\<forall>h \<in> set (tracks s'). h < ds_nextTrack s'"
    using ts removed(3) assms(1) by (auto simp: ds_inv_def dest: in_set_takeD in_set_dropD)
  moreover have "\<forall>(sid, h, t) \<in> set (ds_trackMap s'). vt_stream t \<noteq> None"
    using assms(1) removed(3) set_tm_del [of sid "ds_trackMap s"] by (auto simp: ds_inv_def)
  moreover have "tm_sorted (ds_trackMap s')" using removed(3) assms(1) by (simp add: ds_inv_def tm_del_sorted)
  ultimately show ?thesis by (simp only: ds_inv_def)
qed (use assms(1) in simp_all)

section \<open>Histories, and a view that follows the signals\<close>

datatype 't session_op = Attach 't string | Detach string

primrec ds_step :: "('t, 's) stream_lib \<Rightarrow> q_image option \<Rightarrow> 't session_op \<Rightarrow> 's director_session \<Rightarrow>
    (session_signal list \<times> 's director_session) run" where
  "ds_step lib img (Attach trk sid) s = attachTrack lib img trk sid s"
| "ds_step lib img (Detach sid) s = detachTrack lib sid s"

text \<open>
  A list kept by the receiver of the signals: an announced track is looked up in \<open>tracks()\<close>
  and put at the announced position, a removed one is taken out there.
\<close>

fun view_signal :: "handle list \<Rightarrow> session_signal \<Rightarrow> handle list \<Rightarrow> handle list" where
  "view_signal ts (TrackAdded i) v = take i v @ ts ! i # drop i v"
| "view_signal ts (TrackRemoved i) v = take i v @ drop (Suc i) v"
| "view_signal ts TracksChanged v = v"

primrec ds_view :: "('t, 's) stream_lib \<Rightarrow> q_image option \<Rightarrow> 't session_op list \<Rightarrow> handle list \<Rightarrow> 's director_session \<Rightarrow>
    (handle list \<times> 's director_session) run" where
  "ds_view lib img [] v s = Inr (v, s)"
| "ds_view lib img (op # ops) v s = andThen (ds_step lib img op s)
     (\<lambda>(sigs, s'). ds_view lib img ops (fold (view_signal (tracks s')) sigs v) s')"

text \<open>Which sids are attached after a history.\<close>

primrec attached_sids :: "('t, 's) stream_lib \<Rightarrow> 't session_op list \<Rightarrow> string set \<Rightarrow> string set" where
  "attached_sids lib [] A = A"
| "attached_sids lib (op # ops) A = attached_sids lib ops
     (case op of Attach trk sid \<Rightarrow> (if sl_fromTrack lib trk \<noteq> None then insert sid A else A) | Detach sid \<Rightarrow> A - {sid})"

definition sids :: "'s director_session \<Rightarrow> string list" where
  "sids s = map fst (ds_trackMap s)"

lemma ds_step_inv: "ds_inv s \<Longrightarrow> ds_step lib img op s = Inr (sigs, s') \<Longrightarrow> ds_inv s'"
  by (cases op) (auto intro: attachTrack_inv detachTrack_inv)

lemma ds_step_view:
  assumes "ds_inv s" "ds_step lib img op s = Inr (sigs, s')"
  shows "fold (view_signal (tracks s')) sigs (tracks s) = tracks s'"
proof (cases op)
  case (Attach trk sid)
  with assms have "attachTrack lib img trk sid s = Inr (sigs, s')" by simp
  then show ?thesis
  proof (cases rule: attachTrack_cases)
    case (added t)
    let ?i = "tm_index sid (tm_put sid (ds_nextTrack s, t) (ds_trackMap s))"
    have "tm_sorted (ds_trackMap s)" using assms(1) by (simp add: ds_inv_def)
    from sid_put_position [OF this added(1), of "fst \<circ> snd" "(ds_nextTrack s, t)"]
    have "tracks s' ! ?i = ds_nextTrack s" "tracks s' = take ?i (tracks s) @ ds_nextTrack s # drop ?i (tracks s)"
      unfolding added(6) by (auto simp: tracks_def)
    moreover have "fold (view_signal (tracks s')) sigs (tracks s) = take ?i (tracks s) @ tracks s' ! ?i # drop ?i (tracks s)"
      unfolding added(5) by simp
    ultimately show ?thesis by metis
  qed simp_all
next
  case (Detach sid)
  with assms have "detachTrack lib sid s = Inr (sigs, s')" by simp
  then show ?thesis
  proof (cases rule: detachTrack_cases)
    case (removed h t)
    then show ?thesis
      using sid_del_position [OF _ removed(1), of "fst \<circ> snd"] assms(1) by (simp add: tracks_def ds_inv_def)
  qed simp_all
qed

lemma ds_step_sids:
  assumes "ds_inv s" "ds_step lib img op s = Inr (sigs, s')"
  shows "set (sids s') = attached_sids lib [op] (set (sids s))"
proof (cases op)
  case (Attach trk sid)
  with assms have "attachTrack lib img trk sid s = Inr (sigs, s')" by simp
  then show ?thesis
  proof (cases rule: attachTrack_cases)
    case again
    then have "sid \<in> set (sids s)" by (auto simp: tm_find_map_of sids_def dest: map_of_SomeD simp: rev_image_eqI)
    with again Attach show ?thesis by auto
  next
    case (added t)
    with Attach keys_put [OF assms(1), of sid] show ?thesis by (simp add: sids_def)
  qed (use Attach in simp_all)
next
  case (Detach sid)
  with assms have "detachTrack lib sid s = Inr (sigs, s')" by simp
  then show ?thesis
  proof (cases rule: detachTrack_cases)
    case absent
    then have "sid \<notin> set (sids s)" by (simp add: tm_find_map_of sids_def map_of_eq_None_iff)
    with absent Detach show ?thesis by simp
  next
    case (removed h t)
    with Detach keys_del [of "ds_trackMap s" sid] assms(1) show ?thesis by (simp add: sids_def ds_inv_def)
  qed
qed

lemma attached_sids_Cons: "attached_sids lib (op # ops) A = attached_sids lib ops (attached_sids lib [op] A)"
  by simp

lemma ds_view_follows:
  "ds_inv s \<Longrightarrow> ds_view lib img ops (tracks s) s = Inr (v, s') \<Longrightarrow>
   v = tracks s' \<and> ds_inv s' \<and> set (sids s') = attached_sids lib ops (set (sids s))"
proof (induction ops arbitrary: s)
  case (Cons op ops)
  then obtain sigs s1 where 1: "ds_step lib img op s = Inr (sigs, s1)"
    and 2: "ds_view lib img ops (fold (view_signal (tracks s1)) sigs (tracks s)) s1 = Inr (v, s')" by auto
  from 2 have "ds_view lib img ops (tracks s1) s1 = Inr (v, s')" using ds_step_view [OF Cons.prems(1) 1] by simp
  from Cons.IH [OF ds_step_inv [OF Cons.prems(1) 1] this] ds_step_sids [OF Cons.prems(1) 1] show ?case
    by simp
qed simp

lemma sids_sorted:
  assumes "ds_inv s"
  shows "sids s = sorted_list_of_set (set (sids s))"
proof -
  have "sorted_wrt (<) (sids s)" using assms by (simp only: ds_inv_def tm_sorted_def sids_def)
  then have "sorted (sids s)" "distinct (sids s)" by (simp_all only: strict_sorted_iff)
  then show ?thesis by (simp only: sorted_list_of_set.idem_if_sorted_distinct)
qed

text \<open>
  Detaching waits for the track's read loop, so it returns when that loop ends: see
  \<open>unsetTrack_returns_iff\<close> of the track.
\<close>

definition removable :: "('t, 's) stream_lib \<Rightarrow> 's director_session \<Rightarrow> bool" where
  "removable lib s \<longleftrightarrow> (\<forall>(sid, h, t) \<in> set (ds_trackMap s). succeeds (vt_destroy lib t))"

lemma tm_find_mem: "tm_find k m = Some v \<Longrightarrow> (k, v) \<in> set m"
  by (auto simp: tm_find_map_of dest: map_of_SomeD)

lemma detachTrack_returns:
  assumes "removable lib s"
  shows "\<exists>sigs s'. detachTrack lib sid s = Inr (sigs, s')"
proof (cases "tm_find sid (ds_trackMap s)")
  case None
  then show ?thesis by (simp add: detachTrack_def)
next
  case (Some v)
  obtain h t where v: "v = (h, t)" by fastforce
  with assms tm_find_mem [OF Some] have "succeeds (vt_destroy lib t)" by (auto simp: removable_def)
  with Some v show ?thesis by (auto simp: detachTrack_def succeeds_iff)
qed

lemma removable_attach:
  assumes "removable lib s" "attachTrack lib img trk sid s = Inr (sigs, s')"
  shows "removable lib s'"
  using assms(2)
proof (cases rule: attachTrack_cases)
  case (added t)
  with destroy_unread [OF added(4), of lib] assms(1) set_tm_put [OF added(1), of "(ds_nextTrack s, t)"]
  show ?thesis by (auto simp: removable_def succeeds_iff)
qed (use assms(1) in simp_all)

lemma removable_detach:
  assumes "removable lib s" "detachTrack lib sid s = Inr (sigs, s')"
  shows "removable lib s'"
  using assms(2)
proof (cases rule: detachTrack_cases)
  case (removed h t)
  with assms(1) set_tm_del [of sid "ds_trackMap s"] show ?thesis by (auto simp: removable_def)
qed (use assms(1) in simp)

lemma ds_step_returns:
  assumes "removable lib s"
  shows "\<exists>sigs s'. ds_step lib img op s = Inr (sigs, s') \<and> removable lib s'"
proof (cases op)
  case (Attach trk sid)
  with attachTrack_returns removable_attach [OF assms] show ?thesis by (metis ds_step.simps(1))
next
  case (Detach sid)
  with detachTrack_returns [OF assms] removable_detach [OF assms] show ?thesis by (metis ds_step.simps(2))
qed

lemma ds_view_returns: "removable lib s \<Longrightarrow> \<exists>v s'. ds_view lib img ops w s = Inr (v, s')"
proof (induction ops arbitrary: s w)
  case (Cons op ops)
  from ds_step_returns [OF Cons.prems] obtain sigs s1 where
    "ds_step lib img op s = Inr (sigs, s1)" "removable lib s1" by blast
  with Cons.IH show ?case by simp
qed simp

section \<open>Property\<close>

text \<open>C20: Refinement. Any history of attaching and detaching returns when the tracks' read loops
  end; a list that only follows the \<open>trackAdded\<close> and \<open>trackRemoved\<close> positions equals
  \<open>tracks()\<close> at its end; and the session is exactly the set of sids that were attached (with a
  stream) and not detached since, in the order of the map.\<close>

theorem session_view_mirrors:
  assumes "ds_inv s" and "removable lib s"
  shows "\<exists>v s'. ds_view lib img ops (tracks s) s = Inr (v, s') \<and> v = tracks s' \<and> ds_inv s'
    \<and> sids s' = sorted_list_of_set (attached_sids lib ops (set (sids s)))"
proof -
  obtain v s' where r: "ds_view lib img ops (tracks s) s = Inr (v, s')"
    using ds_view_returns [OF assms(2)] by blast
  with ds_view_follows [OF assms(1) r] sids_sorted [of s'] show ?thesis by auto
qed

theorem session_view_mirrors_witness:
  "\<exists>v s'. ds_view stream_ref None [Attach 2 ''cam-b'', Attach 1 ''cam-a'', Attach 0 ''cam-c'', Detach ''cam-b'']
       [] new_director_session = Inr (v, s') \<and> v = tracks s' \<and> ds_inv s' \<and> sids s' = sorted_list_of_set {''cam-a''}"
proof -
  let ?s = "new_director_session :: nat director_session"
    and ?ops = "[Attach 2 ''cam-b'', Attach 1 ''cam-a'', Attach 0 ''cam-c'', Detach ''cam-b'']"
  have "ds_inv ?s" "removable stream_ref ?s"
    by (simp_all add: ds_inv_def removable_def new_director_session_def tm_sorted_def tracks_def)
  note * = session_view_mirrors [OF this, of None ?ops]
  have "attached_sids stream_ref ?ops (set (sids ?s)) = {''cam-a''}" "tracks ?s = []"
    by (auto simp: stream_ref_def sids_def tracks_def new_director_session_def)
  with * show ?thesis by (simp only:)
qed

end
