(* ===== verification/Director_Transport.thy ===== *)
theory Director_Transport
  imports Director_Session Future_Watcher
begin

text \<open>
  \<open>client/src/directortransport.cpp\<close>: the director's connection. LiveKit's threads call the
  delegate methods, which queue work for the user interface's thread; \<open>connectToRoom\<close> runs
  LiveKit's blocking \<open>Connect\<close> in a worker and learns its result from a queued event. The
  queue, the worker and the calls of the user interface are steps of the relation
  \<open>tp_step\<close>.
\<close>

section \<open>Events and state\<close>

datatype track_kind = KIND_VIDEO | KIND_OTHER int

text \<open>\<open>livekit::ConnectionState\<close>: the three states the switch names, and any other value.\<close>

datatype connection_state = Connected | Reconnecting | Disconnected | OtherState int

datatype disconnect_reason =
    ClientInitiated | ConnectionTimeout | DuplicateIdentity | JoinFailure | MediaFailure | Migration
  | ParticipantRemoved | RoomClosed | RoomDeleted | ServerShutdown | SignalClose | SipTrunkFailure
  | StateMismatch | UnknownReason | UserRejected | UserUnavailable | OtherReason int

fun disconnectReasonToString :: "disconnect_reason \<Rightarrow> string" where
  "disconnectReasonToString ClientInitiated = ''ClientInitiated''"
| "disconnectReasonToString ConnectionTimeout = ''ConnectionTimeout''"
| "disconnectReasonToString DuplicateIdentity = ''DuplicateIdentity''"
| "disconnectReasonToString JoinFailure = ''JoinFailure''"
| "disconnectReasonToString MediaFailure = ''MediaFailure''"
| "disconnectReasonToString Migration = ''Migration''"
| "disconnectReasonToString ParticipantRemoved = ''ParticipantRemoved''"
| "disconnectReasonToString RoomClosed = ''RoomClosed''"
| "disconnectReasonToString RoomDeleted = ''RoomDeleted''"
| "disconnectReasonToString ServerShutdown = ''ServerShutdown''"
| "disconnectReasonToString SignalClose = ''SignalClose''"
| "disconnectReasonToString SipTrunkFailure = ''SipTrunkFailure''"
| "disconnectReasonToString StateMismatch = ''StateMismatch''"
| "disconnectReasonToString UnknownReason = ''Unknown''"
| "disconnectReasonToString UserRejected = ''UserRejected''"
| "disconnectReasonToString UserUnavailable = ''UserUnavailable''"
| "disconnectReasonToString (OtherReason n) = ''<unrecognised>''"

text \<open>A subscription event: the publication's sid and name, the track with its kind; either may be null.\<close>

record 't track_event =
  te_publication :: "(string \<times> string) option"
  te_track :: "('t \<times> track_kind) option"

text \<open>Work queued for the user interface's thread, and what it emits.\<close>

datatype 't ui_event =
    UiAttach 't string
  | UiDetach string
  | UiState connection_state
  | UiDisconnected
  | UiConnectFinished nat

datatype transport_signal =
    SigConnected
  | SigDisconnected
  | SigConnectionState string
  | SigSessionChanged
  | SigSession session_signal

text \<open>The worker: queued with its arguments, or inside \<open>Connect\<close> of a room.\<close>

datatype connect_job = Launched string string | InConnect handle

record ('t, 's) transport =
  tp_room :: "handle option"
  tp_nextRoom :: handle
  tp_connection_state :: string
  tp_session :: "'s director_session option"
  tp_slot :: "connect_job watcher_slot"
  tp_queue :: "'t ui_event list"
  tp_signals :: "transport_signal list"

definition new_transport :: "('t, 's) transport" where
  "new_transport = \<lparr>tp_room = None, tp_nextRoom = 0, tp_connection_state = ''disconnected'', tp_session = None,
     tp_slot = new_slot, tp_queue = [], tp_signals = []\<rparr>"

definition tp_emit :: "transport_signal list \<Rightarrow> ('t, 's) transport \<Rightarrow> ('t, 's) transport" where
  "tp_emit sigs tp = tp\<lparr>tp_signals := tp_signals tp @ sigs\<rparr>"

definition invokeMethod :: "'t ui_event \<Rightarrow> ('t, 's) transport \<Rightarrow> ('t, 's) transport" where
  "invokeMethod ev tp = tp\<lparr>tp_queue := tp_queue tp @ [ev]\<rparr>"

section \<open>The room's delegate\<close>

definition event_sid :: "'t track_event \<Rightarrow> string" where
  "event_sid ev = (case te_publication ev of None \<Rightarrow> ''<unknown>'' | Some (sid, name) \<Rightarrow> sid)"

text \<open>\<open>onParticipantConnected\<close> only logs, through a pointer it does not check.\<close>

definition onParticipantConnected :: "string option \<Rightarrow> ('t, 's) transport \<Rightarrow> ('t, 's) transport run" where
  "onParticipantConnected participant tp = (if participant = None then Inl NullDeref else Inr tp)"

definition onTrackSubscribed :: "'t track_event \<Rightarrow> ('t, 's) transport \<Rightarrow> ('t, 's) transport" where
  "onTrackSubscribed ev tp =
     (case te_track ev of
        Some (trk, KIND_VIDEO) \<Rightarrow> invokeMethod (UiAttach trk (event_sid ev)) tp
      | _ \<Rightarrow> tp)"

definition onTrackSubscriptionFailed :: "string \<Rightarrow> ('t, 's) transport \<Rightarrow> ('t, 's) transport" where
  "onTrackSubscriptionFailed track_sid tp = invokeMethod (UiDetach track_sid) tp"

definition onTrackUnsubscribed :: "'t track_event \<Rightarrow> ('t, 's) transport \<Rightarrow> ('t, 's) transport" where
  "onTrackUnsubscribed ev tp = invokeMethod (UiDetach (event_sid ev)) tp"

definition onConnectionStateChanged :: "connection_state \<Rightarrow> ('t, 's) transport \<Rightarrow> ('t, 's) transport" where
  "onConnectionStateChanged st tp = invokeMethod (UiState st) tp"

definition onDisconnected :: "disconnect_reason \<Rightarrow> ('t, 's) transport \<Rightarrow> ('t, 's) transport" where
  "onDisconnected reason tp = invokeMethod UiDisconnected tp"

section \<open>Calls of the user interface\<close>

definition connectToRoom :: "string \<Rightarrow> string \<Rightarrow> ('t, 's) transport \<Rightarrow> ('t, 's) transport" where
  "connectToRoom token url tp =
     (if ws_busy (tp_slot tp) then tp
      else if token = [] \<or> url = [] then tp
      else let tp = tp_emit [SigConnectionState ''connecting''] (tp\<lparr>tp_connection_state := ''connecting''\<rparr>);
               tp = (if tp_room tp = None
                     then tp\<lparr>tp_room := Some (tp_nextRoom tp), tp_nextRoom := Suc (tp_nextRoom tp)\<rparr> else tp)
           in tp\<lparr>tp_slot := ws_launch (Launched url token) (tp_slot tp)\<rparr>)"

definition shutdown :: "('t, 's) stream_lib \<Rightarrow> ('t, 's) transport \<Rightarrow> ('t, 's) transport run" where
  "shutdown lib tp =
     andThen (case tp_session tp of None \<Rightarrow> Inr ([] :: session_signal list)
                | Some s \<Rightarrow> andThen (ds_destroy lib s) (\<lambda>(sigs, _). Inr sigs))
       (\<lambda>sigs. Inr ((tp_emit (map SigSession sigs) tp)\<lparr>tp_session := None, tp_room := None\<rparr>))"

definition disconnectFromRoom :: "('t, 's) stream_lib \<Rightarrow> ('t, 's) transport \<Rightarrow> ('t, 's) transport run" where
  "disconnectFromRoom lib tp =
     (if tp_connection_state tp = ''disconnected'' then Inr tp
      else andThen (shutdown lib tp) (\<lambda>tp.
        Inr (tp_emit [SigConnectionState ''disconnected'', SigSessionChanged, SigDisconnected]
               (tp\<lparr>tp_connection_state := ''disconnected''\<rparr>))))"

definition tp_destroy :: "('t, 's) stream_lib \<Rightarrow> ('t, 's) transport \<Rightarrow> ('t, 's) transport run" where
  "tp_destroy lib tp = shutdown lib tp"

section \<open>The worker\<close>

text \<open>
  \<open>m_room->Connect(\<dots>)\<close>: the worker reads the member when it starts to run, and the room has
  to exist until the call returns.
\<close>

definition connect_begin :: "nat \<Rightarrow> ('t, 's) transport \<Rightarrow> ('t, 's) transport run" where
  "connect_begin i tp =
     (case tp_room tp of None \<Rightarrow> Inl NullDeref
      | Some r \<Rightarrow> Inr (tp\<lparr>tp_slot := ws_set i (Running (InConnect r)) (tp_slot tp)\<rparr>))"

definition connect_end :: "nat \<Rightarrow> handle \<Rightarrow> bool \<Rightarrow> ('t, 's) transport \<Rightarrow> ('t, 's) transport run" where
  "connect_end i r success tp =
     (if tp_room tp \<noteq> Some r then Inl UseAfterFree
      else Inr (invokeMethod (UiConnectFinished i) (tp\<lparr>tp_slot := ws_set i (Finished success) (tp_slot tp)\<rparr>)))"

section \<open>The queued work\<close>

definition state_string :: "connection_state \<Rightarrow> string" where
  "state_string st = (case st of Connected \<Rightarrow> ''connected'' | Reconnecting \<Rightarrow> ''connecting''
     | Disconnected \<Rightarrow> ''disconnected'' | OtherState n \<Rightarrow> [])"

definition run_state :: "connection_state \<Rightarrow> ('t, 's) transport \<Rightarrow> ('t, 's) transport" where
  "run_state st tp =
     (if tp_connection_state tp = state_string st then tp
      else tp_emit [SigConnectionState (state_string st)] (tp\<lparr>tp_connection_state := state_string st\<rparr>))"

definition on_session :: "('s director_session \<Rightarrow> (session_signal list \<times> 's director_session) run) \<Rightarrow>
    ('t, 's) transport \<Rightarrow> ('t, 's) transport run" where
  "on_session f tp =
     (case tp_session tp of None \<Rightarrow> Inr tp
      | Some s \<Rightarrow> andThen (f s) (\<lambda>(sigs, s'). Inr (tp_emit (map SigSession sigs) (tp\<lparr>tp_session := Some s'\<rparr>))))"

text \<open>Assigning a new session destroys the one before it.\<close>

definition replace_session :: "('t, 's) stream_lib \<Rightarrow> ('t, 's) transport \<Rightarrow> ('t, 's) transport run" where
  "replace_session lib tp =
     andThen (case tp_session tp of None \<Rightarrow> Inr ([] :: session_signal list)
                | Some s \<Rightarrow> andThen (ds_destroy lib s) (\<lambda>(sigs, _). Inr sigs))
       (\<lambda>sigs. Inr ((tp_emit (map SigSession sigs) tp)\<lparr>tp_session := Some new_director_session\<rparr>))"

definition connect_finished :: "('t, 's) stream_lib \<Rightarrow> ('t, 's) transport \<Rightarrow> ('t, 's) transport run option" where
  "connect_finished lib tp =
     map_option (\<lambda>res. andThen res (\<lambda>(success, slot). let tp = tp\<lparr>tp_slot := slot\<rparr> in
        if tp_connection_state tp = ''disconnected'' then Inr tp
        else if success then andThen (replace_session lib tp) (\<lambda>tp. Inr (tp_emit [SigSessionChanged, SigConnected] tp))
        else Inr tp)) (ws_result (tp_slot tp))"

text \<open>\<open>None\<close>: the event waits for a worker that still runs.\<close>

primrec run_event :: "('t, 's) stream_lib \<Rightarrow> q_image option \<Rightarrow> 't ui_event \<Rightarrow> ('t, 's) transport \<Rightarrow>
    ('t, 's) transport run option" where
  "run_event lib img (UiAttach trk sid) tp = Some (on_session (attachTrack lib img trk sid) tp)"
| "run_event lib img (UiDetach sid) tp = Some (on_session (detachTrack lib sid) tp)"
| "run_event lib img (UiState st) tp = Some (Inr (run_state st tp))"
| "run_event lib img UiDisconnected tp = Some (Inr (tp_emit [SigDisconnected] tp))"
| "run_event lib img (UiConnectFinished i) tp = connect_finished lib tp"

section \<open>Steps\<close>

datatype 't room_call =
    TrackSubscribed "'t track_event"
  | TrackSubscriptionFailed string
  | TrackUnsubscribed "'t track_event"
  | ConnectionStateChanged connection_state
  | RoomDisconnected disconnect_reason

primrec delegate :: "'t room_call \<Rightarrow> ('t, 's) transport \<Rightarrow> ('t, 's) transport" where
  "delegate (TrackSubscribed ev) tp = onTrackSubscribed ev tp"
| "delegate (TrackSubscriptionFailed sid) tp = onTrackSubscriptionFailed sid tp"
| "delegate (TrackUnsubscribed ev) tp = onTrackUnsubscribed ev tp"
| "delegate (ConnectionStateChanged st) tp = onConnectionStateChanged st tp"
| "delegate (RoomDisconnected reason) tp = onDisconnected reason tp"

datatype 't tp_action =
    CallConnect string string
  | CallDisconnect
  | CallShutdown
  | RoomCalls "'t room_call"
  | WorkerBegin nat
  | WorkerEnd nat bool
  | Dispatch

text \<open>One step of some thread, and the states reached by steps a condition allows.\<close>

inductive tp_step :: "('t, 's) stream_lib \<Rightarrow> q_image option \<Rightarrow> ('t, 's) transport \<Rightarrow> 't tp_action \<Rightarrow>
    ('t, 's) transport run \<Rightarrow> bool" for lib img where
  step_connect: "tp_step lib img tp (CallConnect token url) (Inr (connectToRoom token url tp))"
| step_disconnect: "tp_step lib img tp CallDisconnect (disconnectFromRoom lib tp)"
| step_shutdown: "tp_step lib img tp CallShutdown (shutdown lib tp)"
| step_room: "tp_step lib img tp (RoomCalls c) (Inr (delegate c tp))"
| step_begin: "i < length (ws_jobs (tp_slot tp)) \<Longrightarrow> ws_jobs (tp_slot tp) ! i = Running (Launched url token) \<Longrightarrow>
    tp_step lib img tp (WorkerBegin i) (connect_begin i tp)"
| step_end: "i < length (ws_jobs (tp_slot tp)) \<Longrightarrow> ws_jobs (tp_slot tp) ! i = Running (InConnect r) \<Longrightarrow>
    tp_step lib img tp (WorkerEnd i b) (connect_end i r b tp)"
| step_dispatch: "tp_queue tp = ev # evs \<Longrightarrow> run_event lib img ev (tp\<lparr>tp_queue := evs\<rparr>) = Some res \<Longrightarrow>
    tp_step lib img tp Dispatch res"

inductive tp_reach :: "('t, 's) stream_lib \<Rightarrow> q_image option \<Rightarrow> (('t, 's) transport \<Rightarrow> 't tp_action \<Rightarrow> bool) \<Rightarrow>
    ('t, 's) transport \<Rightarrow> bool" for lib img allowed where
  tp_init: "tp_reach lib img allowed new_transport"
| tp_next: "tp_reach lib img allowed tp \<Longrightarrow> allowed tp a \<Longrightarrow> tp_step lib img tp a (Inr tp') \<Longrightarrow> tp_reach lib img allowed tp'"

inductive_cases step_beginE: "tp_step lib img tp (WorkerBegin i) res"
inductive_cases step_endE: "tp_step lib img tp (WorkerEnd i b) res"

abbreviation any_step :: "('t, 's) transport \<Rightarrow> 't tp_action \<Rightarrow> bool" where
  "any_step tp a \<equiv> True"

section \<open>Well-formed transports\<close>

definition state_strings :: "string set" where
  "state_strings = {[], ''connecting'', ''connected'', ''disconnected''}"

definition tp_wf :: "('t, 's) transport \<Rightarrow> bool" where
  "tp_wf tp \<longleftrightarrow> tp_connection_state tp \<in> state_strings \<and> ws_inv (tp_slot tp)
     \<and> (\<forall>s. tp_session tp = Some s \<longrightarrow> ds_inv s)"

lemma tp_emit_simps [simp]:
  "tp_room (tp_emit sigs tp) = tp_room tp" "tp_nextRoom (tp_emit sigs tp) = tp_nextRoom tp"
  "tp_connection_state (tp_emit sigs tp) = tp_connection_state tp" "tp_session (tp_emit sigs tp) = tp_session tp"
  "tp_slot (tp_emit sigs tp) = tp_slot tp" "tp_queue (tp_emit sigs tp) = tp_queue tp"
  "tp_signals (tp_emit sigs tp) = tp_signals tp @ sigs"
  by (simp_all add: tp_emit_def)

lemma invokeMethod_simps [simp]:
  "tp_room (invokeMethod ev tp) = tp_room tp" "tp_nextRoom (invokeMethod ev tp) = tp_nextRoom tp"
  "tp_connection_state (invokeMethod ev tp) = tp_connection_state tp" "tp_session (invokeMethod ev tp) = tp_session tp"
  "tp_slot (invokeMethod ev tp) = tp_slot tp" "tp_queue (invokeMethod ev tp) = tp_queue tp @ [ev]"
  "tp_signals (invokeMethod ev tp) = tp_signals tp"
  by (simp_all add: invokeMethod_def)

lemma delegate_keeps:
  "tp_room (delegate c tp) = tp_room tp \<and> tp_slot (delegate c tp) = tp_slot tp
   \<and> tp_connection_state (delegate c tp) = tp_connection_state tp \<and> tp_session (delegate c tp) = tp_session tp"
  by (cases c) (simp_all add: onTrackSubscribed_def onTrackSubscriptionFailed_def onTrackUnsubscribed_def
      onConnectionStateChanged_def onDisconnected_def split: option.split prod.split track_kind.split)

lemma shutdown_fields:
  assumes "shutdown lib tp = Inr tp'"
  shows "tp_session tp' = None \<and> tp_room tp' = None \<and> tp_slot tp' = tp_slot tp
    \<and> tp_connection_state tp' = tp_connection_state tp"
  using assms by (auto simp: shutdown_def)

lemma disconnect_fields:
  assumes "disconnectFromRoom lib tp = Inr tp'"
  shows "tp_slot tp' = tp_slot tp" "tp_connection_state tp' = ''disconnected''"
    "tp_connection_state tp \<noteq> ''disconnected'' \<Longrightarrow> tp_session tp' = None \<and> tp_room tp' = None"
    "tp_connection_state tp = ''disconnected'' \<Longrightarrow> tp' = tp"
  using assms by (auto simp: disconnectFromRoom_def split: if_splits dest!: shutdown_fields)

lemma on_session_fields:
  assumes "on_session f tp = Inr tp'"
  shows "tp_slot tp' = tp_slot tp \<and> tp_connection_state tp' = tp_connection_state tp \<and> tp_room tp' = tp_room tp
    \<and> (case tp_session tp of None \<Rightarrow> tp_session tp' = None
       | Some s \<Rightarrow> \<exists>sigs s'. f s = Inr (sigs, s') \<and> tp_session tp' = Some s')"
  using assms by (auto simp: on_session_def split: option.splits)

lemma replace_session_fields:
  assumes "replace_session lib tp = Inr tp'"
  shows "tp_slot tp' = tp_slot tp \<and> tp_connection_state tp' = tp_connection_state tp \<and> tp_room tp' = tp_room tp
    \<and> tp_session tp' = Some new_director_session \<and> tp_queue tp' = tp_queue tp"
  using assms by (auto simp: replace_session_def)

lemma connect_finished_fields:
  assumes "connect_finished lib tp = Some (Inr tp')"
  shows "\<exists>b. ws_result (tp_slot tp) = Some (Inr (b, tp_slot tp')) \<and> tp_connection_state tp' = tp_connection_state tp
    \<and> tp_room tp' = tp_room tp \<and> (tp_session tp' = tp_session tp \<or> tp_session tp' = Some new_director_session)"
proof -
  obtain b slot where r: "ws_result (tp_slot tp) = Some (Inr (b, slot))" and
    e: "(if tp_connection_state tp = ''disconnected'' then Inr (tp\<lparr>tp_slot := slot\<rparr>)
        else if b then andThen (replace_session lib (tp\<lparr>tp_slot := slot\<rparr>)) (\<lambda>tp. Inr (tp_emit [SigSessionChanged, SigConnected] tp))
        else Inr (tp\<lparr>tp_slot := slot\<rparr>)) = Inr tp'"
    using assms by (auto simp: connect_finished_def Let_def)
  have "tp_slot tp' = slot \<and> tp_connection_state tp' = tp_connection_state tp \<and> tp_room tp' = tp_room tp
      \<and> (tp_session tp' = tp_session tp \<or> tp_session tp' = Some new_director_session)"
  proof (cases "tp_connection_state tp \<noteq> ''disconnected'' \<and> b")
    case True
    with e obtain tp1 where "replace_session lib (tp\<lparr>tp_slot := slot\<rparr>) = Inr tp1"
      "tp' = tp_emit [SigSessionChanged, SigConnected] tp1" by auto
    with replace_session_fields [OF this(1)] show ?thesis by simp
  next
    case False
    with e have "tp' = tp\<lparr>tp_slot := slot\<rparr>" by (auto split: if_splits)
    then show ?thesis by simp
  qed
  with r show ?thesis by blast
qed

lemma ds_inv_new: "ds_inv new_director_session"
  by (simp add: ds_inv_def new_director_session_def tm_sorted_def tracks_def)

lemma connectToRoom_fields:
  "tp_session (connectToRoom token url tp) = tp_session tp"
  "tp_connection_state (connectToRoom token url tp) \<in> {tp_connection_state tp, ''connecting''}"
  "tp_slot (connectToRoom token url tp) = tp_slot tp \<or>
   \<not> ws_busy (tp_slot tp) \<and> tp_slot (connectToRoom token url tp) = ws_launch (Launched url token) (tp_slot tp)
     \<and> tp_room (connectToRoom token url tp) \<noteq> None"
  "tp_room tp \<noteq> None \<Longrightarrow> tp_room (connectToRoom token url tp) = tp_room tp"
  by (auto simp: connectToRoom_def Let_def)

lemma tp_wf_cong:
  "tp_wf tp \<Longrightarrow> tp_connection_state tp' = tp_connection_state tp \<Longrightarrow> tp_slot tp' = tp_slot tp \<Longrightarrow> tp_session tp' = tp_session tp \<Longrightarrow> tp_wf tp'"
  by (simp add: tp_wf_def)

lemma run_event_wf:
  assumes "tp_wf tp" "run_event lib img ev tp = Some (Inr tp')"
  shows "tp_wf tp'"
proof (cases ev)
  case (UiAttach trk sid)
  with assms(2) have "on_session (attachTrack lib img trk sid) tp = Inr tp'" by simp
  from on_session_fields [OF this] assms(1) attachTrack_inv show ?thesis
    by (auto simp: tp_wf_def split: option.splits)
next
  case (UiDetach sid)
  with assms(2) have "on_session (detachTrack lib sid) tp = Inr tp'" by simp
  from on_session_fields [OF this] assms(1) detachTrack_inv show ?thesis
    by (auto simp: tp_wf_def split: option.splits)
next
  case (UiState st)
  with assms show ?thesis by (auto simp: tp_wf_def run_state_def state_string_def state_strings_def split: connection_state.splits)
next
  case UiDisconnected
  with assms show ?thesis by (auto intro: tp_wf_cong)
next
  case (UiConnectFinished i)
  with assms(2) have c: "connect_finished lib tp = Some (Inr tp')" by simp
  from connect_finished_fields [OF this] obtain b where
    r: "ws_result (tp_slot tp) = Some (Inr (b, tp_slot tp'))" and rest: "tp_connection_state tp' = tp_connection_state tp"
      "tp_session tp' = tp_session tp \<or> tp_session tp' = Some new_director_session" by blast
  from assms(1) have "ws_inv (tp_slot tp)" by (simp add: tp_wf_def)
  from ws_inv_result [OF this r] rest assms(1) ds_inv_new show ?thesis by (auto simp: tp_wf_def)
qed

lemma tp_step_wf:
  assumes "tp_step lib img tp a (Inr tp')" "tp_wf tp"
  shows "tp_wf tp'"
  using assms(1)
proof (cases rule: tp_step.cases)
  case (step_connect token url)
  then have "ws_inv (tp_slot tp')"
    using connectToRoom_fields(3) [of token url tp] ws_inv_launch assms(2) by (auto simp: tp_wf_def)
  with step_connect connectToRoom_fields(1,2) [of token url tp] assms(2) show ?thesis
    by (auto simp: tp_wf_def state_strings_def)
next
  case step_disconnect
  then have d: "disconnectFromRoom lib tp = Inr tp'" by simp
  show ?thesis
    using disconnect_fields [OF d] assms(2) by (cases "tp_connection_state tp = ''disconnected''")
      (auto simp: tp_wf_def state_strings_def)
next
  case step_shutdown
  then have "shutdown lib tp = Inr tp'" by simp
  from shutdown_fields [OF this] assms(2) show ?thesis by (simp add: tp_wf_def)
next
  case (step_room c)
  with delegate_keeps [of c tp] assms(2) show ?thesis by (auto intro: tp_wf_cong)
next
  case (step_begin i url token)
  then have "tp_slot tp' = ws_set i (Running (InConnect (the (tp_room tp)))) (tp_slot tp)"
    "tp_connection_state tp' = tp_connection_state tp" "tp_session tp' = tp_session tp"
    by (auto simp: connect_begin_def split: option.splits)
  with assms(2) ws_inv_set [of "tp_slot tp" i] step_begin show ?thesis by (simp add: tp_wf_def)
next
  case (step_end i r b)
  then have "tp_slot tp' = ws_set i (Finished b) (tp_slot tp)"
    "tp_connection_state tp' = tp_connection_state tp" "tp_session tp' = tp_session tp"
    by (auto simp: connect_end_def split: if_splits)
  with assms(2) ws_inv_set [of "tp_slot tp" i] step_end show ?thesis by (simp add: tp_wf_def)
next
  case (step_dispatch ev evs)
  have "tp_wf (tp\<lparr>tp_queue := evs\<rparr>)" using assms(2) by (simp add: tp_wf_def)
  from run_event_wf [OF this step_dispatch(3)] show ?thesis .
qed

lemma tp_reach_wf: "tp_reach lib img allowed tp \<Longrightarrow> tp_wf tp"
proof (induction rule: tp_reach.induct)
  case tp_init
  then show ?case by (simp add: tp_wf_def new_transport_def state_strings_def ws_inv_new)
next
  case (tp_next tp a tp')
  show ?case by (rule tp_step_wf [OF tp_next.hyps(3) tp_next.IH])
qed

section \<open>The connecting worker and its room\<close>

text \<open>A worker that has not run yet will find a room, one inside \<open>Connect\<close> still has its room.\<close>

fun job_ok :: "handle option \<Rightarrow> connect_job job \<Rightarrow> bool" where
  "job_ok room (Running (Launched url token)) = (room \<noteq> None)"
| "job_ok room (Running (InConnect r)) = (room = Some r)"
| "job_ok room (Finished b) = True"

definition worker_ok :: "('t, 's) transport \<Rightarrow> bool" where
  "worker_ok tp \<longleftrightarrow> (\<forall>j \<in> set (ws_jobs (tp_slot tp)). job_ok (tp_room tp) j)"

text \<open>Schedules in which nobody disconnects while a worker runs.\<close>

definition calm :: "('t, 's) transport \<Rightarrow> 't tp_action \<Rightarrow> bool" where
  "calm tp a \<longleftrightarrow> (a = CallDisconnect \<or> a = CallShutdown \<longrightarrow> \<not> ws_busy (tp_slot tp))"

lemma idle_jobs:
  assumes "ws_inv s" "\<not> ws_busy s" "j \<in> set (ws_jobs s)"
  shows "\<not> is_running j"
proof
  assume r: "is_running j"
  from assms(3) obtain i where i: "i < length (ws_jobs s)" "ws_jobs s ! i = j" by (auto simp: in_set_conv_nth)
  with ws_invD(1) [OF assms(1) i(1)] r assms(2) show False by (simp add: ws_busy_def)
qed

lemma job_ok_idle: "\<not> is_running j \<Longrightarrow> job_ok room j"
  by (cases j) simp_all

lemma worker_ok_idle: "ws_inv (tp_slot tp) \<Longrightarrow> \<not> ws_busy (tp_slot tp) \<Longrightarrow> tp_slot tp' = tp_slot tp \<Longrightarrow> worker_ok tp'"
  using idle_jobs [of "tp_slot tp"] by (auto simp: worker_ok_def intro: job_ok_idle)

lemma worker_ok_cong: "worker_ok tp \<Longrightarrow> tp_room tp' = tp_room tp \<Longrightarrow> ws_jobs (tp_slot tp') = ws_jobs (tp_slot tp) \<Longrightarrow> worker_ok tp'"
  by (simp add: worker_ok_def)

lemma worker_ok_set:
  assumes "worker_ok tp" "tp_room tp' = tp_room tp" "tp_slot tp' = ws_set i j (tp_slot tp)" "job_ok (tp_room tp) j"
  shows "worker_ok tp'"
  using assms set_update_subset_insert [of "ws_jobs (tp_slot tp)" i j] by (auto simp: worker_ok_def ws_set_def)

lemma worker_ok_connect:
  assumes "worker_ok tp" "tp_wf tp"
  shows "worker_ok (connectToRoom token url tp)"
proof (cases "tp_slot (connectToRoom token url tp) = tp_slot tp")
  case True
  then have "tp_room (connectToRoom token url tp) = tp_room tp"
    by (auto simp: connectToRoom_def Let_def ws_launch_def dest: arg_cong [where f = ws_jobs] split: if_splits)
  with assms(1) True show ?thesis by (simp add: worker_ok_def)
next
  case False
  with connectToRoom_fields(3) [of token url tp] have b: "\<not> ws_busy (tp_slot tp)"
    and l: "tp_slot (connectToRoom token url tp) = ws_launch (Launched url token) (tp_slot tp)"
    and r: "tp_room (connectToRoom token url tp) \<noteq> None" by auto
  have "ws_inv (tp_slot tp)" using assms(2) by (simp add: tp_wf_def)
  with b idle_jobs have "\<forall>j \<in> set (ws_jobs (tp_slot tp)). \<not> is_running j" by blast
  with l r show ?thesis by (auto simp: worker_ok_def ws_launch_def intro: job_ok_idle)
qed

lemma run_event_room:
  assumes "run_event lib img ev tp = Some (Inr tp')"
  shows "tp_room tp' = tp_room tp \<and> ws_jobs (tp_slot tp') = ws_jobs (tp_slot tp)"
proof (cases ev)
  case (UiConnectFinished i)
  with assms have "connect_finished lib tp = Some (Inr tp')" by simp
  from connect_finished_fields [OF this] obtain b where
    "ws_result (tp_slot tp) = Some (Inr (b, tp_slot tp'))" "tp_room tp' = tp_room tp" by blast
  with ws_result_Inr(2) [OF this(1)] show ?thesis by simp
qed (use assms in \<open>auto simp: run_state_def dest!: on_session_fields\<close>)

lemma worker_ok_step:
  assumes "tp_step lib img tp a (Inr tp')" "calm tp a" "tp_wf tp" "worker_ok tp"
  shows "worker_ok tp'"
  using assms(1)
proof (cases rule: tp_step.cases)
  case (step_connect token url)
  with worker_ok_connect [OF assms(4,3)] show ?thesis by simp
next
  case step_disconnect
  then have "tp_slot tp' = tp_slot tp" "\<not> ws_busy (tp_slot tp)"
    using disconnect_fields(1) [of lib tp tp'] assms(2) by (simp_all add: calm_def)
  with worker_ok_idle assms(3) show ?thesis by (auto simp: tp_wf_def)
next
  case step_shutdown
  then have "tp_slot tp' = tp_slot tp" "\<not> ws_busy (tp_slot tp)"
    using shutdown_fields [of lib tp tp'] assms(2) by (simp_all add: calm_def)
  with worker_ok_idle assms(3) show ?thesis by (auto simp: tp_wf_def)
next
  case (step_room c)
  with delegate_keeps [of c tp] assms(4) show ?thesis by (auto intro: worker_ok_cong)
next
  case (step_begin i url token)
  then obtain r where "tp_room tp = Some r" "tp' = tp\<lparr>tp_slot := ws_set i (Running (InConnect r)) (tp_slot tp)\<rparr>"
    by (auto simp: connect_begin_def split: option.splits)
  then show ?thesis by (intro worker_ok_set [OF assms(4), of _ i "Running (InConnect r)"]) simp_all
next
  case (step_end i r b)
  then have "tp' = invokeMethod (UiConnectFinished i) (tp\<lparr>tp_slot := ws_set i (Finished b) (tp_slot tp)\<rparr>)"
    by (simp add: connect_end_def split: if_splits)
  then show ?thesis by (intro worker_ok_set [OF assms(4), of _ i "Finished b"]) simp_all
next
  case (step_dispatch ev evs)
  from run_event_room [OF step_dispatch(3)] assms(4) show ?thesis by (simp add: worker_ok_def)
qed

lemma calm_worker_ok: "tp_reach lib img calm tp \<Longrightarrow> worker_ok tp"
proof (induction rule: tp_reach.induct)
  case tp_init
  then show ?case by (simp add: worker_ok_def new_transport_def new_slot_def)
next
  case (tp_next tp a tp')
  show ?case by (rule worker_ok_step [OF tp_next.hyps(3,2) tp_reach_wf [OF tp_next.hyps(1)] tp_next.IH])
qed

section \<open>Properties of the connection\<close>

text \<open>C24: Well-formed transports. In every reachable state, under every schedule of user interface,
  worker and room, the connection state is one of the four strings the code can store, at most
  one connection attempt is unfinished and it is the one the member watcher watches, and the
  session, when there is one, keeps its invariant.\<close>

theorem transport_well_formed:
  assumes "tp_reach lib img any_step tp"
  shows "tp_connection_state tp \<in> state_strings
    \<and> (\<forall>i k. i < length (ws_jobs (tp_slot tp)) \<and> k < length (ws_jobs (tp_slot tp))
         \<and> is_running (ws_jobs (tp_slot tp) ! i) \<and> is_running (ws_jobs (tp_slot tp) ! k) \<longrightarrow> i = k)
    \<and> (\<forall>i < length (ws_jobs (tp_slot tp)). is_running (ws_jobs (tp_slot tp) ! i) \<longrightarrow> ws_current (tp_slot tp) = Some i)
    \<and> (\<forall>s. tp_session tp = Some s \<longrightarrow> ds_inv s)"
proof -
  from tp_reach_wf [OF assms] have "tp_connection_state tp \<in> state_strings" "ws_inv (tp_slot tp)"
    "\<forall>s. tp_session tp = Some s \<longrightarrow> ds_inv s" by (simp_all add: tp_wf_def)
  with ws_unique ws_invD(1) show ?thesis by blast
qed

theorem transport_well_formed_witness:
  "tp_connection_state (connectToRoom ''t'' ''u'' (new_transport :: (nat, nat) transport)) \<in> state_strings"
proof -
  have "tp_reach stream_ref None any_step (connectToRoom ''t'' ''u'' new_transport)"
    by (rule tp_next [OF tp_init _ step_connect]) simp
  from transport_well_formed [OF this] show ?thesis by blast
qed

text \<open>C26: Disconnecting while a connection attempt runs is undefined behaviour: the room goes away
  under the worker. From every reachable state with an unfinished attempt that is not yet
  "disconnected", after \<open>disconnectFromRoom\<close> the worker still has a step to make, and every
  step it can make reads a null or freed room.\<close>

theorem disconnect_during_connect_faults:
  assumes "tp_reach lib img any_step tp" "i < length (ws_jobs (tp_slot tp))" "is_running (ws_jobs (tp_slot tp) ! i)"
    and "tp_connection_state tp \<noteq> ''disconnected''" "disconnectFromRoom lib tp = Inr tp'"
  shows "(\<exists>a res. (a = WorkerBegin i \<or> (\<exists>b. a = WorkerEnd i b)) \<and> tp_step lib img tp' a res)
    \<and> (\<forall>a res. (a = WorkerBegin i \<or> (\<exists>b. a = WorkerEnd i b)) \<and> tp_step lib img tp' a res
         \<longrightarrow> res = Inl NullDeref \<or> res = Inl UseAfterFree)"
proof -
  have slot: "tp_slot tp' = tp_slot tp" and room: "tp_room tp' = None"
    using disconnect_fields(1,3) [OF assms(5)] assms(4) by simp_all
  obtain j where j: "ws_jobs (tp_slot tp') ! i = Running j" using assms(3) slot by (cases "ws_jobs (tp_slot tp) ! i") auto
  have "\<exists>a res. (a = WorkerBegin i \<or> (\<exists>b. a = WorkerEnd i b)) \<and> tp_step lib img tp' a res"
  proof (cases j)
    case (Launched url token)
    with step_begin [of i tp' url token lib img] j assms(2) slot show ?thesis by auto
  next
    case (InConnect r)
    with step_end [of i tp' r lib img True] j assms(2) slot show ?thesis by auto
  qed
  moreover have "res = Inl NullDeref \<or> res = Inl UseAfterFree"
    if "a = WorkerBegin i \<or> (\<exists>b. a = WorkerEnd i b)" "tp_step lib img tp' a res" for a res
    using that room by (auto elim!: step_beginE step_endE simp: connect_begin_def connect_end_def)
  ultimately show ?thesis by blast
qed

theorem disconnect_during_connect_faults_witness:
  "\<exists>tp'. disconnectFromRoom stream_ref (connectToRoom ''t'' ''u'' new_transport) = Inr tp'
     \<and> tp_step stream_ref None tp' (WorkerBegin 0) (Inl NullDeref)"
proof -
  let ?tp = "connectToRoom ''t'' ''u'' (new_transport :: (nat, nat) transport)"
  have tp: "tp_reach stream_ref None any_step ?tp"
    by (rule tp_next [OF tp_init _ step_connect]) simp
  have j: "ws_jobs (tp_slot ?tp) = [Running (Launched ''u'' ''t'')]" "tp_connection_state ?tp \<noteq> ''disconnected''"
    by (simp_all add: connectToRoom_def new_transport_def new_slot_def ws_busy_def ws_launch_def Let_def)
  obtain tp' where d: "disconnectFromRoom stream_ref ?tp = Inr tp'"
    using j(2) by (simp add: disconnectFromRoom_def shutdown_def connectToRoom_fields(1) new_transport_def)
  have "tp_step stream_ref None tp' (WorkerBegin 0) (connect_begin 0 tp')"
    using j(1) disconnect_fields(1) [OF d] by (intro step_begin [where url = "''u''" and token = "''t''"]) simp_all
  moreover have "0 < length (ws_jobs (tp_slot ?tp))" "is_running (ws_jobs (tp_slot ?tp) ! 0)" using j(1) by simp_all
  ultimately have "connect_begin 0 tp' = Inl NullDeref \<or> connect_begin 0 tp' = Inl UseAfterFree"
    using disconnect_during_connect_faults [OF tp _ _ j(2) d, of 0] by blast
  then have "connect_begin 0 tp' = Inl NullDeref" by (simp add: connect_begin_def split: option.splits)
  with \<open>tp_step stream_ref None tp' (WorkerBegin 0) (connect_begin 0 tp')\<close> d show ?thesis by auto
qed

text \<open>C25: In a schedule where nobody disconnects or shuts down while an attempt is unfinished, the
  worker never touches a missing room: all its steps succeed.\<close>

theorem connect_worker_safe:
  assumes "tp_reach lib img calm tp" "tp_step lib img tp a res" "a = WorkerBegin i \<or> a = WorkerEnd i b"
  shows "\<exists>tp'. res = Inr tp'"
  using assms(2)
proof (cases rule: tp_step.cases)
  case (step_begin k url token)
  with calm_worker_ok [OF assms(1)] have "job_ok (tp_room tp) (Running (Launched url token))"
    by (metis nth_mem worker_ok_def)
  with step_begin show ?thesis by (auto simp: connect_begin_def)
next
  case (step_end k r c)
  with calm_worker_ok [OF assms(1)] have "job_ok (tp_room tp) (Running (InConnect r))"
    by (metis nth_mem worker_ok_def)
  with step_end show ?thesis by (simp add: connect_end_def)
qed (use assms(3) in auto)

theorem connect_worker_safe_witness:
  "\<exists>tp'. connect_begin 0 (connectToRoom ''t'' ''u'' (new_transport :: (nat, nat) transport)) = Inr tp'"
proof -
  let ?tp = "connectToRoom ''t'' ''u'' (new_transport :: (nat, nat) transport)"
  have r: "tp_reach stream_ref None calm ?tp"
    by (rule tp_next [OF tp_init _ step_connect]) (simp add: calm_def)
  have "ws_jobs (tp_slot ?tp) = [Running (Launched ''u'' ''t'')]"
    by (simp add: connectToRoom_def new_transport_def new_slot_def ws_busy_def ws_launch_def Let_def)
  then have "tp_step stream_ref None ?tp (WorkerBegin 0) (connect_begin 0 ?tp)"
    by (intro step_begin [where url = "''u''" and token = "''t''"]) simp_all
  from connect_worker_safe [OF r this] show ?thesis by blast
qed

text \<open>A failed connection attempt is silent: when its event is handled, no signal is emitted,
  no session appears and the connection state stays what it was, "connecting".\<close>

theorem failed_connect_silent:
  assumes "tp_connection_state tp = ''connecting''" "tp_queue tp = UiConnectFinished i # evs"
    and "ws_current (tp_slot tp) = Some c" "ws_jobs (tp_slot tp) ! c = Finished False"
  shows "\<exists>tp'. tp_step lib img tp Dispatch (Inr tp') \<and> tp_signals tp' = tp_signals tp
    \<and> tp_connection_state tp' = ''connecting'' \<and> tp_session tp' = tp_session tp \<and> \<not> ws_busy (tp_slot tp')"
proof -
  let ?tp = "tp\<lparr>tp_queue := evs, tp_slot := (tp_slot tp)\<lparr>ws_current := None\<rparr>\<rparr>"
  have "run_event lib img (UiConnectFinished i) (tp\<lparr>tp_queue := evs\<rparr>) = Some (Inr ?tp)"
    using assms by (simp add: connect_finished_def ws_result_def)
  from step_dispatch [OF assms(2) this] assms(1) show ?thesis
    by (intro exI [of _ ?tp]) (simp add: ws_busy_def)
qed

theorem failed_connect_silent_witness:
  "\<exists>tp tp' :: (nat, nat) transport. tp_step stream_ref None tp Dispatch (Inr tp') \<and> tp_connection_state tp' = ''connecting''"
  using failed_connect_silent [of "new_transport\<lparr>tp_connection_state := ''connecting'', tp_queue := [UiConnectFinished 0],
      tp_slot := \<lparr>ws_current = Some 0, ws_jobs = [Finished False]\<rparr>\<rparr>" 0 "[]" 0 stream_ref None] by auto

text \<open>When LiveKit reports the disconnection first, leaving the room does nothing: the state is
  already "disconnected", so \<open>disconnectFromRoom\<close> returns at once and session and room stay.\<close>

theorem remote_disconnect_keeps_session:
  "disconnectFromRoom lib (run_state Disconnected tp) = Inr (run_state Disconnected tp)
   \<and> tp_session (run_state Disconnected tp) = tp_session tp \<and> tp_room (run_state Disconnected tp) = tp_room tp"
  by (simp add: disconnectFromRoom_def run_state_def state_string_def)

section \<open>From subscriptions to tracks\<close>

text \<open>Queued work run in order.\<close>

primrec run_events :: "('t, 's) stream_lib \<Rightarrow> q_image option \<Rightarrow> 't ui_event list \<Rightarrow> ('t, 's) transport \<Rightarrow>
    ('t, 's) transport run option" where
  "run_events lib img [] tp = Some (Inr tp)"
| "run_events lib img (ev # evs) tp =
     (case run_event lib img ev tp of
        None \<Rightarrow> None
      | Some (Inl e) \<Rightarrow> Some (Inl e)
      | Some (Inr tp') \<Rightarrow> run_events lib img evs tp')"

lemma run_events_append:
  "run_events lib img (xs @ ys) tp =
     (case run_events lib img xs tp of None \<Rightarrow> None | Some (Inl e) \<Rightarrow> Some (Inl e) | Some (Inr tp') \<Rightarrow> run_events lib img ys tp')"
  by (induction xs arbitrary: tp) (auto split: option.splits sum.splits)

text \<open>The part of the queue that is about tracks.\<close>

fun track_op :: "'t ui_event \<Rightarrow> 't session_op option" where
  "track_op (UiAttach trk sid) = Some (Attach trk sid)"
| "track_op (UiDetach sid) = Some (Detach sid)"
| "track_op _ = None"

lemma run_event_track:
  assumes "track_op ev = Some op"
  shows "run_event lib img ev tp = Some (on_session (ds_step lib img op) tp)"
  using assms by (cases ev) (auto simp: on_session_def split: option.splits)

lemma run_events_no_session:
  assumes "tp_session tp = None" "\<forall>ev \<in> set evs. track_op ev \<noteq> None"
  shows "run_events lib img evs tp = Some (Inr tp)"
  using assms(2)
proof (induction evs)
  case (Cons ev evs)
  then obtain op where "track_op ev = Some op" by auto
  with Cons assms(1) show ?case by (simp add: run_event_track on_session_def)
qed simp

lemma run_events_session:
  assumes "tp_session tp = Some s" "ds_inv s" "removable lib s" "\<forall>ev \<in> set evs. track_op ev \<noteq> None"
  shows "\<exists>tp' s'. run_events lib img evs tp = Some (Inr tp') \<and> tp_session tp' = Some s' \<and> ds_inv s'
    \<and> set (sids s') = attached_sids lib (map (\<lambda>ev. the (track_op ev)) evs) (set (sids s))"
  using assms
proof (induction evs arbitrary: tp s)
  case (Cons ev evs)
  then obtain op where op: "track_op ev = Some op" by auto
  obtain sigs s1 where s1: "ds_step lib img op s = Inr (sigs, s1)" "removable lib s1"
    using ds_step_returns [OF Cons.prems(3)] by blast
  let ?tp = "tp_emit (map SigSession sigs) (tp\<lparr>tp_session := Some s1\<rparr>)"
  have e: "run_event lib img ev tp = Some (Inr ?tp)"
    using op s1(1) Cons.prems(1) by (simp add: run_event_track on_session_def)
  have "tp_session ?tp = Some s1" "\<forall>ev \<in> set evs. track_op ev \<noteq> None" using Cons.prems(4) by simp_all
  from Cons.IH [OF this(1) ds_step_inv [OF Cons.prems(2) s1(1)] s1(2) this(2)] obtain tp' s' where
    "run_events lib img evs ?tp = Some (Inr tp')" "tp_session tp' = Some s'" "ds_inv s'"
    "set (sids s') = attached_sids lib (map (\<lambda>ev. the (track_op ev)) evs) (set (sids s1))" by blast
  with e op ds_step_sids [OF Cons.prems(2) s1(1)] show ?case by simp
qed simp

lemma removable_new: "removable lib new_director_session"
  by (simp add: removable_def new_director_session_def)

text \<open>C19: From subscriptions to the director's view. When the queue holds track events, then the
  event of a successful connection, then more track events, running it ends with a session that
  shows exactly the video tracks subscribed (and not unsubscribed) after the connection event:
  what LiveKit announced before it is dropped.\<close>

theorem only_late_tracks_shown:
  fixes lib :: "('t, 's) stream_lib"
  assumes "tp_session tp = None" "tp_connection_state tp \<noteq> ''disconnected''"
    and "ws_current (tp_slot tp) = Some c" "ws_jobs (tp_slot tp) ! c = Finished True"
    and "\<forall>ev \<in> set early. track_op ev \<noteq> None" "\<forall>ev \<in> set late. track_op ev \<noteq> None"
  shows "\<exists>tp' s. run_events lib img (early @ UiConnectFinished i # late) tp = Some (Inr tp') \<and> tp_session tp' = Some s
    \<and> ds_inv s \<and> sids s = sorted_list_of_set (attached_sids lib (map (\<lambda>ev. the (track_op ev)) late) {})"
proof -
  let ?tp = "tp_emit [SigSessionChanged, SigConnected]
    ((tp_emit [] (tp\<lparr>tp_slot := (tp_slot tp)\<lparr>ws_current := None\<rparr>\<rparr>))\<lparr>tp_session := Some new_director_session\<rparr>)"
  have "run_event lib img (UiConnectFinished i) tp = Some (Inr ?tp)"
    using assms(1-4) by (simp add: connect_finished_def ws_result_def replace_session_def Let_def)
  then have r: "run_events lib img (early @ UiConnectFinished i # late) tp = run_events lib img late ?tp"
    using run_events_no_session [OF assms(1,5)] by (simp add: run_events_append)
  have "tp_session ?tp = Some new_director_session" by simp
  from run_events_session [OF this ds_inv_new removable_new assms(6)] obtain tp' s' where
    "run_events lib img late ?tp = Some (Inr tp')" "tp_session tp' = Some s'" "ds_inv s'"
    "set (sids s') = attached_sids lib (map (\<lambda>ev. the (track_op ev)) late) (set (sids (new_director_session :: 's director_session)))"
    by blast
  with r sids_sorted [of s'] show ?thesis by (auto simp: sids_def new_director_session_def)
qed

theorem only_late_tracks_shown_witness:
  "\<exists>tp' s. run_events stream_ref None [UiAttach 2 ''cam-a'', UiConnectFinished 0, UiAttach 1 ''cam-b'']
     (new_transport\<lparr>tp_connection_state := ''connecting'', tp_slot := \<lparr>ws_current = Some 0, ws_jobs = [Finished True]\<rparr>\<rparr>)
       = Some (Inr tp') \<and> tp_session tp' = Some s \<and> sids s = [''cam-b'']"
proof -
  let ?tp = "new_transport\<lparr>tp_connection_state := ''connecting'', tp_slot := \<lparr>ws_current = Some 0, ws_jobs = [Finished True]\<rparr>\<rparr>
    :: (nat, nat) transport"
  have "tp_session ?tp = None" "tp_connection_state ?tp \<noteq> ''disconnected''" "ws_current (tp_slot ?tp) = Some 0"
    "ws_jobs (tp_slot ?tp) ! 0 = Finished True"
    "\<forall>ev \<in> set [UiAttach (2 :: nat) ''cam-a'']. track_op ev \<noteq> None" "\<forall>ev \<in> set [UiAttach (1 :: nat) ''cam-b'']. track_op ev \<noteq> None"
    by (simp_all add: new_transport_def)
  note * = only_late_tracks_shown [OF this, of stream_ref None 0]
  have "sorted_list_of_set (attached_sids stream_ref (map (\<lambda>ev. the (track_op ev)) [UiAttach 1 ''cam-b'']) {}) = [''cam-b'']"
    by (simp add: stream_ref_def)
  with * show ?thesis by (auto simp only: append.simps)
qed

end
