(* ===== verification/Application.thy ===== *)
theory Application
  imports Operator Director_Transport
begin

text \<open>
  \<open>client/src/main.cpp\<close>: the libraries are initialised, the QML engine runs the event loop in a
  scope of its own, and the libraries are shut down after it. The engine owns the singletons;
  which of them the user interface has created, their states when the loop ends and the page
  that is open are what the event loop hands over, a parameter. The open page takes leave
  (\<open>SessionPage.qml\<close>) before the singletons go.
\<close>

section \<open>The program\<close>

datatype page = NoPage | OperatorPage | DirectorPage

record ('t, 's, 'c) application =
  app_livekit :: bool
  app_gstreamer :: bool
  app_page :: page
  app_transport :: "('t, 's) transport option"
  app_controller :: "'c controller option"
  app_objects :: "(ledger \<times> gst_heap) option"
  app_orphans :: "connect_job job list"

definition initialised :: "('t, 's, 'c) application" where
  "initialised = \<lparr>app_livekit = True, app_gstreamer = True, app_page = NoPage, app_transport = None,
     app_controller = None, app_objects = None, app_orphans = []\<rparr>"

text \<open>What \<open>app.exec()\<close> returns and leaves behind.\<close>

record ('t, 's, 'c) event_loop =
  el_result :: int
  el_page :: page
  el_transport :: "('t, 's) transport option"
  el_controller :: "'c controller option"

definition exec :: "('t, 's, 'c) event_loop \<Rightarrow> ('t, 's, 'c) application \<Rightarrow> int \<times> ('t, 's, 'c) application" where
  "exec el app = (el_result el,
     app\<lparr>app_page := el_page el, app_transport := el_transport el, app_controller := el_controller el\<rparr>)"

text \<open>\<open>Component.onDestruction\<close> of the session page.\<close>

definition page_closed :: "('t, 's) stream_lib \<Rightarrow> 'c session_env \<Rightarrow> ('t, 's, 'c) application \<Rightarrow>
    ('t, 's, 'c) application run" where
  "page_closed lib env app =
     (case app_page app of
        NoPage \<Rightarrow> Inr app
      | OperatorPage \<Rightarrow>
          (case app_controller app of None \<Rightarrow> Inr app
           | Some k \<Rightarrow> andThen (sk_stop env k) (\<lambda>k. Inr (app\<lparr>app_page := NoPage, app_controller := Some k\<rparr>)))
      | DirectorPage \<Rightarrow>
          (case app_transport app of None \<Rightarrow> Inr app
           | Some tp \<Rightarrow> andThen (disconnectFromRoom lib tp) (\<lambda>tp.
               Inr (app\<lparr>app_page := NoPage, app_transport := Some tp\<rparr>))))"

text \<open>
  The engine deletes its singletons, in an order that is its own. Connection attempts still
  running are left without their transport.
\<close>

datatype singleton = Transport | Controller

primrec delete_singleton :: "('t, 's) stream_lib \<Rightarrow> 'c session_env \<Rightarrow> bool \<Rightarrow> singleton \<Rightarrow>
    ('t, 's, 'c) application \<Rightarrow> ('t, 's, 'c) application run" where
  "delete_singleton lib env late Transport app =
     (case app_transport app of None \<Rightarrow> Inr app
      | Some tp \<Rightarrow>
          if \<not> app_livekit app then Inl UseAfterFree
          else andThen (tp_destroy lib tp) (\<lambda>tp. Inr (app\<lparr>app_transport := None,
            app_orphans := app_orphans app @ filter is_running (ws_jobs (tp_slot tp))\<rparr>)))"
| "delete_singleton lib env late Controller app =
     (case app_controller app of None \<Rightarrow> Inr app
      | Some k \<Rightarrow>
          if \<not> app_gstreamer app then Inl UseAfterFree
          else andThen (sk_destroy env late k) (\<lambda>objects.
            Inr (app\<lparr>app_controller := None, app_objects := Some objects\<rparr>)))"

fun delete_singletons :: "('t, 's) stream_lib \<Rightarrow> 'c session_env \<Rightarrow> bool \<Rightarrow> singleton list \<Rightarrow>
    ('t, 's, 'c) application \<Rightarrow> ('t, 's, 'c) application run" where
  "delete_singletons lib env late [] app = Inr app"
| "delete_singletons lib env late (x # xs) app =
     andThen (delete_singleton lib env late x app) (delete_singletons lib env late xs)"

definition main_program :: "('t, 's) stream_lib \<Rightarrow> 'c session_env \<Rightarrow> bool \<Rightarrow> singleton list \<Rightarrow>
    ('t, 's, 'c) event_loop \<Rightarrow> (int \<times> ('t, 's, 'c) application) run" where
  "main_program lib env late order el =
     (case exec el initialised of (result, app) \<Rightarrow>
        andThen (page_closed lib env app) (\<lambda>app.
        andThen (delete_singletons lib env late order app) (\<lambda>app.
          Inr (result, app\<lparr>app_livekit := False, app_gstreamer := False\<rparr>))))"

section \<open>Leaving the program\<close>

text \<open>A controller that can be left: on air with its page open, or with nothing running.\<close>

definition leavable :: "ledger \<Rightarrow> ledger \<Rightarrow> page \<Rightarrow> 'c controller \<Rightarrow> bool" where
  "leavable L LH pg k \<longleftrightarrow> no_start_pending k
     \<and> (grounded L LH (sk_session k) \<or> pg = OperatorPage \<and> on_air L LH (sk_session k))"

definition transport_idle :: "('t, 's) stream_lib \<Rightarrow> ('t, 's) transport \<Rightarrow> bool" where
  "transport_idle lib tp \<longleftrightarrow> ws_inv (tp_slot tp) \<and> \<not> ws_busy (tp_slot tp)
     \<and> (\<forall>s. tp_session tp = Some s \<longrightarrow> removable lib s)"

lemma destroy_tracks_removable:
  "\<forall>(sid, h, t) \<in> set m. succeeds (vt_destroy lib t) \<Longrightarrow> destroy_tracks lib m = Inr ()"
  by (induction m rule: destroy_tracks.induct) (auto simp: succeeds_iff)

lemma shutdown_idle:
  assumes "transport_idle lib tp"
  shows "\<exists>tp'. shutdown lib tp = Inr tp' \<and> transport_idle lib tp' \<and> filter is_running (ws_jobs (tp_slot tp')) = []"
proof -
  have "\<exists>tp'. shutdown lib tp = Inr tp'"
    using assms destroy_tracks_removable [where lib = lib]
    by (cases "tp_session tp") (auto simp: shutdown_def ds_destroy_def detachAllTracks_def transport_idle_def removable_def)
  then obtain tp' where s: "shutdown lib tp = Inr tp'" by blast
  from shutdown_fields [OF s] assms have "transport_idle lib tp'" by (simp add: transport_idle_def)
  moreover from this have "filter is_running (ws_jobs (tp_slot tp')) = []"
    using idle_jobs [of "tp_slot tp'"] by (auto simp: transport_idle_def filter_empty_conv)
  ultimately show ?thesis using s by blast
qed

lemma disconnect_idle:
  assumes "transport_idle lib tp"
  shows "\<exists>tp'. disconnectFromRoom lib tp = Inr tp' \<and> transport_idle lib tp'"
proof -
  obtain tp' where s: "shutdown lib tp = Inr tp'" "transport_idle lib tp'" using shutdown_idle [OF assms] by blast
  have "transport_idle lib (tp_emit sigs (tp'\<lparr>tp_connection_state := x\<rparr>))" for sigs x
    using s(2) by (simp add: transport_idle_def)
  with s(1) assms show ?thesis by (simp add: disconnectFromRoom_def)
qed

lemma sk_stop_leaves:
  assumes "leavable L LH OperatorPage k" "env_ok env"
  shows "\<exists>k'. sk_stop env k = Inr k' \<and> leavable L LH NoPage k'"
proof (cases "on_air L LH (sk_session k)")
  case True
  from cs_stop_life [OF this assms(2)] obtain s where "cs_stop env (sk_session k) = Inr s" "parked L LH s" by blast
  with assms(1) show ?thesis
    by (simp add: sk_stop_def leavable_def sk_emit_def no_start_pending_def parked_def)
next
  case False
  with assms(1) have "grounded L LH (sk_session k)" by (simp add: leavable_def)
  with assms(1) show ?thesis
    by (simp add: sk_stop_def cs_stop_def grounded_def quiet_def leavable_def sk_emit_def no_start_pending_def)
qed

lemma page_closed_leaves:
  assumes "\<forall>k. app_controller app = Some k \<longrightarrow> leavable L LH (app_page app) k"
    and "\<forall>tp. app_transport app = Some tp \<longrightarrow> transport_idle lib tp" "env_ok env"
  shows "\<exists>app'. page_closed lib env app = Inr app' \<and> (\<forall>k. app_controller app' = Some k \<longrightarrow> leavable L LH NoPage k)
    \<and> (\<forall>tp. app_transport app' = Some tp \<longrightarrow> transport_idle lib tp)
    \<and> (app_controller app' = None) = (app_controller app = None)
    \<and> app_livekit app' = app_livekit app \<and> app_gstreamer app' = app_gstreamer app
    \<and> app_objects app' = app_objects app \<and> app_orphans app' = app_orphans app"
proof (cases "app_page app")
  case NoPage
  with assms(1,2) show ?thesis by (simp add: page_closed_def)
next
  case OperatorPage
  show ?thesis
  proof (cases "app_controller app")
    case None
    with OperatorPage assms(2) show ?thesis by (simp add: page_closed_def)
  next
    case (Some k)
    with assms(1) OperatorPage sk_stop_leaves [OF _ assms(3), of L LH k] obtain k' where
      "sk_stop env k = Inr k'" "leavable L LH NoPage k'" by auto
    with Some OperatorPage assms(2) show ?thesis by (simp add: page_closed_def)
  qed
next
  case DirectorPage
  have c: "\<forall>k. app_controller app = Some k \<longrightarrow> leavable L LH NoPage k"
    using assms(1) DirectorPage by (simp add: leavable_def)
  show ?thesis
  proof (cases "app_transport app")
    case None
    with DirectorPage c show ?thesis by (simp add: page_closed_def)
  next
    case (Some tp)
    with assms(2) disconnect_idle [of lib tp] obtain tp' where
      "disconnectFromRoom lib tp = Inr tp'" "transport_idle lib tp'" by auto
    with Some DirectorPage c show ?thesis by (simp add: page_closed_def)
  qed
qed

text \<open>What holds while the singletons go, and what each of them leaves.\<close>

definition leaving :: "('t, 's) stream_lib \<Rightarrow> ledger \<Rightarrow> ledger \<Rightarrow> ('t, 's, 'c) application \<Rightarrow> bool" where
  "leaving lib L LH app \<longleftrightarrow> app_livekit app \<and> app_gstreamer app \<and> app_orphans app = []
     \<and> (\<forall>k. app_controller app = Some k \<longrightarrow> leavable L LH NoPage k)
     \<and> (\<forall>tp. app_transport app = Some tp \<longrightarrow> transport_idle lib tp)
     \<and> (\<forall>L' H'. app_objects app = Some (L', H') \<longrightarrow> set (live L') = set (live L)
          \<and> set (live (gh_ledger H')) = set (live LH))"

lemma delete_singleton_leaves:
  assumes "leaving lib L LH app" "codec_drains (se_av env)" "allocs_succeed (se_av env)"
  shows "\<exists>app'. delete_singleton lib env late x app = Inr app' \<and> leaving lib L LH app'
    \<and> (app_controller app' = None) = (x = Controller \<or> app_controller app = None)
    \<and> (app_transport app' = None) = (x = Transport \<or> app_transport app = None)
    \<and> (app_controller app \<noteq> None \<or> app_objects app \<noteq> None \<longrightarrow> app_controller app' \<noteq> None \<or> app_objects app' \<noteq> None)"
proof (cases x)
  case Transport
  show ?thesis
  proof (cases "app_transport app")
    case None
    with assms(1) Transport show ?thesis by simp
  next
    case (Some tp)
    with assms(1) have "transport_idle lib tp" by (simp add: leaving_def)
    from shutdown_idle [OF this] obtain tp' where "shutdown lib tp = Inr tp'"
      "filter is_running (ws_jobs (tp_slot tp')) = []" by blast
    with Some Transport assms(1) show ?thesis by (simp add: tp_destroy_def leaving_def)
  qed
next
  case Controller
  show ?thesis
  proof (cases "app_controller app")
    case None
    with assms(1) Controller show ?thesis by simp
  next
    case (Some k)
    with assms(1) have k: "no_start_pending k" "grounded L LH (sk_session k)"
      by (simp_all add: leaving_def leavable_def)
    then obtain L' H' where "sk_destroy env late k = Inr (L', H')" "set (live L') = set (live L)"
      "set (live (gh_ledger H')) = set (live LH)"
      using cs_destroy_quiet [of "sk_session k" L LH env late] assms(2,3)
      by (auto simp: grounded_def sk_destroy_no_start)
    with Some Controller assms(1) show ?thesis by (simp add: leaving_def)
  qed
qed

lemma delete_singletons_leave:
  assumes "leaving lib L LH app" "codec_drains (se_av env)" "allocs_succeed (se_av env)"
  shows "\<exists>app'. delete_singletons lib env late order app = Inr app' \<and> leaving lib L LH app'
    \<and> (app_controller app' = None) = (Controller \<in> set order \<or> app_controller app = None)
    \<and> (app_transport app' = None) = (Transport \<in> set order \<or> app_transport app = None)
    \<and> (app_controller app \<noteq> None \<or> app_objects app \<noteq> None \<longrightarrow> app_controller app' \<noteq> None \<or> app_objects app' \<noteq> None)"
  using assms(1)
proof (induction order arbitrary: app)
  case (Cons x xs)
  obtain app1 where 1: "delete_singleton lib env late x app = Inr app1" "leaving lib L LH app1"
    and c1: "(app_controller app1 = None) = (x = Controller \<or> app_controller app = None)"
    and t1: "(app_transport app1 = None) = (x = Transport \<or> app_transport app = None)"
    and o1: "app_controller app \<noteq> None \<or> app_objects app \<noteq> None \<longrightarrow> app_controller app1 \<noteq> None \<or> app_objects app1 \<noteq> None"
    using delete_singleton_leaves [OF Cons.prems assms(2,3), of late x] by (elim exE conjE) (rule that)
  obtain app2 where 2: "delete_singletons lib env late xs app1 = Inr app2" "leaving lib L LH app2"
    and c2: "(app_controller app2 = None) = (Controller \<in> set xs \<or> app_controller app1 = None)"
    and t2: "(app_transport app2 = None) = (Transport \<in> set xs \<or> app_transport app1 = None)"
    and o2: "app_controller app1 \<noteq> None \<or> app_objects app1 \<noteq> None \<longrightarrow> app_controller app2 \<noteq> None \<or> app_objects app2 \<noteq> None"
    using Cons.IH [OF 1(2)] by (elim exE conjE) (rule that)
  have r: "delete_singletons lib env late (x # xs) app = Inr app2" using 1(1) 2(1) by simp
  have c: "(app_controller app2 = None) = (Controller \<in> set (x # xs) \<or> app_controller app = None)"
    unfolding c2 c1 by auto
  have t: "(app_transport app2 = None) = (Transport \<in> set (x # xs) \<or> app_transport app = None)"
    unfolding t2 t1 by auto
  show ?case by (intro exI [of _ app2] conjI r 2(2) c t) (use o1 o2 in blast)
qed simp


text \<open>The operator quits in the middle of a stream, with two frames not yet encoded.\<close>

definition quitting :: "(nat, nat, av_packet list) event_loop run" where
  "quitting = andThen (cs_start steady_env ''u'' ''k'' (new_session no_objects empty_heap)) (\<lambda>(b, s).
     andThen (run_threads [Capture (demo_Frame 0), Capture (demo_Frame 0)] s) (\<lambda>s.
       Inr \<lparr>el_result = 0, el_page = OperatorPage, el_transport = Some new_transport,
         el_controller = Some ((new_controller no_objects empty_heap)\<lparr>sk_session := s\<rparr>)\<rparr>))"


end
