(* ===== verification/Pipeline_Threads.thy ===== *)
theory Pipeline_Threads
  imports Video_Pipeline "HOL-Library.Sublist" "HOL-Library.Multiset"
begin

text \<open>
  The threads of a running \<open>VideoPipeline\<close>: the capture thread in its frame callback, the
  encode thread in \<open>encodeLoop\<close>, and the thread that calls \<open>stop\<close>. Each step below is one
  action of one thread on the shared state: a critical section of \<open>queueMutex_\<close>, a call on
  the condition variable, an access to the stop token, an encoder call. The step relation is
  their interleaving.
\<close>

section \<open>Program counters\<close>

text \<open>
  The encode thread: at the loop condition; about to take the lock and evaluate the wait
  predicate; found it false and, still holding the lock, about to block; blocked on the
  condition variable; encoding a frame; past the loop.
\<close>

datatype enc_pc = EAbsent | ECheck | EEval | EBlocking | EWaiting | EHave Frame | EDone

text \<open>The capture thread: between callbacks; after pushing; after notifying.\<close>

datatype cap_pc = CAbsent | CIdle | CNotify | CCount

text \<open>
  The caller of \<open>stop\<close>: not yet; in \<open>captureDevice_->stop()\<close>; before \<open>notify_all\<close>;
  before the \<open>request_stop\<close> and in the \<open>join\<close> that the assignment to \<open>encodeThread_\<close>
  performs in this order; returned.
\<close>

datatype ctl_pc = KRun | KJoinCapture | KNotify | KRequest | KJoin | KStopped

text \<open>
  \<open>t_in\<close>, \<open>t_out\<close> and \<open>t_lost\<close> record every frame queued (those found in the queue at the
  start included), taken and dropped so far.
\<close>

record 'c threads =
  t_vp :: "'c pipeline"
  t_L :: ledger
  t_enc :: enc_pc
  t_cap :: cap_pc
  t_ctl :: ctl_pc
  t_stop :: bool
  t_in :: "Frame list"
  t_out :: "Frame list"
  t_lost :: "Frame list"

fun wake :: "enc_pc \<Rightarrow> enc_pc" where
  "wake EWaiting = EEval"
| "wake p = p"

section \<open>Steps\<close>

definition push_step :: "Frame \<Rightarrow> 'c threads \<Rightarrow> 'c threads" where
  "push_step f s = s\<lparr>t_vp := enqueue_frame f (t_vp s), t_cap := CNotify, t_in := t_in s @ [f],
     t_lost := t_lost s @ (if QUEUE_CAPACITY \<le> length (vp_queue (t_vp s)) then [hd (vp_queue (t_vp s))] else [])\<rparr>"

inductive tstep :: "'c av_lib \<Rightarrow> 'c threads \<Rightarrow> 'c threads \<Rightarrow> bool" for lib where
  cap_push: "t_cap s = CIdle \<Longrightarrow> t_enc s \<noteq> EBlocking \<Longrightarrow> fr_frame f \<noteq> None \<Longrightarrow> tstep lib s (push_step f s)"
| cap_notify: "t_cap s = CNotify \<Longrightarrow> tstep lib s (s\<lparr>t_enc := wake (t_enc s), t_cap := CCount\<rparr>)"
| cap_count: "t_cap s = CCount \<Longrightarrow>
    tstep lib s (s\<lparr>t_vp := t_vp s\<lparr>vp_frameCount := vp_frameCount (t_vp s) + 1\<rparr>, t_cap := CIdle\<rparr>)"
| cap_error: "t_cap s = CIdle \<Longrightarrow> vp_capture (t_vp s) = Some cam \<Longrightarrow>
    tstep lib s (s\<lparr>t_vp := t_vp s\<lparr>vp_capture := Some (cam_loop_end cam)\<rparr>, t_cap := CAbsent\<rparr>)"
| enc_leave: "t_enc s = ECheck \<Longrightarrow> t_stop s \<Longrightarrow> tstep lib s (s\<lparr>t_enc := EDone\<rparr>)"
| enc_enter: "t_enc s = ECheck \<Longrightarrow> \<not> t_stop s \<Longrightarrow> tstep lib s (s\<lparr>t_enc := EEval\<rparr>)"
| enc_take: "t_enc s = EEval \<Longrightarrow> vp_queue (t_vp s) = f # fs \<Longrightarrow>
    tstep lib s (s\<lparr>t_vp := t_vp s\<lparr>vp_queue := fs\<rparr>, t_enc := EHave f, t_out := t_out s @ [f]\<rparr>)"
| enc_exit: "t_enc s = EEval \<Longrightarrow> vp_queue (t_vp s) = [] \<Longrightarrow> t_stop s \<Longrightarrow> tstep lib s (s\<lparr>t_enc := EDone\<rparr>)"
| enc_false: "t_enc s = EEval \<Longrightarrow> vp_queue (t_vp s) = [] \<Longrightarrow> \<not> t_stop s \<Longrightarrow> tstep lib s (s\<lparr>t_enc := EBlocking\<rparr>)"
| enc_block: "t_enc s = EBlocking \<Longrightarrow> tstep lib s (s\<lparr>t_enc := EWaiting\<rparr>)"
| enc_encode: "t_enc s = EHave f \<Longrightarrow> encode_one lib f (t_vp s) = Inr (out, vp') \<Longrightarrow>
    tstep lib s (s\<lparr>t_vp := vp', t_enc := ECheck\<rparr>)"
| ctl_stop: "t_ctl s = KRun \<Longrightarrow> vp_capture (t_vp s) = Some cam \<Longrightarrow> cam_running cam \<Longrightarrow>
    tstep lib s (s\<lparr>t_ctl := KJoinCapture\<rparr>)"
| ctl_stop_idle: "t_ctl s = KRun \<Longrightarrow> vp_capture (t_vp s) = Some cam \<Longrightarrow> \<not> cam_running cam \<Longrightarrow>
    tstep lib s (s\<lparr>t_ctl := KNotify\<rparr>)"
| ctl_joined: "t_ctl s = KJoinCapture \<Longrightarrow> t_cap s = CIdle \<or> t_cap s = CAbsent \<Longrightarrow>
    tstep lib s (s\<lparr>t_vp := stop_capture (t_vp s), t_cap := CAbsent, t_ctl := KNotify\<rparr>)"
| ctl_notify: "t_ctl s = KNotify \<Longrightarrow> tstep lib s (s\<lparr>t_enc := wake (t_enc s), t_ctl := KRequest\<rparr>)"
| ctl_request: "t_ctl s = KRequest \<Longrightarrow> tstep lib s (s\<lparr>t_stop := True, t_ctl := KJoin\<rparr>)"
| ctl_join: "t_ctl s = KJoin \<Longrightarrow> t_enc s = EDone \<Longrightarrow> vp_finish lib (t_vp s) (t_L s) = Inr (out, vp', L') \<Longrightarrow>
    tstep lib s (s\<lparr>t_vp := vp', t_L := L', t_enc := EAbsent, t_ctl := KStopped\<rparr>)"

text \<open>
  What the environment may do beside: ask for a key frame, and, as the C++ standard permits but
  nobody can rely on, let the condition variable wake up spuriously.
\<close>

inductive estep :: "'c threads \<Rightarrow> 'c threads \<Rightarrow> bool" where
  env_keyframe: "estep s (s\<lparr>t_vp := vp_requestKeyframe (t_vp s)\<rparr>)"
| env_spurious: "t_enc s = EWaiting \<Longrightarrow> estep s (s\<lparr>t_enc := EEval\<rparr>)"

inductive reach :: "'c av_lib \<Rightarrow> 'c threads \<Rightarrow> 'c threads \<Rightarrow> bool" for lib s where
  reach_refl: "reach lib s s"
| reach_step: "reach lib s t \<Longrightarrow> tstep lib t u \<Longrightarrow> reach lib s u"
| reach_env: "reach lib s t \<Longrightarrow> estep t u \<Longrightarrow> reach lib s u"

text \<open>A schedule, as the list of states it goes through.\<close>

fun schedule_of :: "'c av_lib \<Rightarrow> 'c threads list \<Rightarrow> bool" where
  "schedule_of lib (s # t # xs) \<longleftrightarrow> tstep lib s t \<and> schedule_of lib (t # xs)"
| "schedule_of lib xs \<longleftrightarrow> True"

lemma schedule_reach: "schedule_of lib (s # xs) \<Longrightarrow> reach lib s0 s \<Longrightarrow> reach lib s0 (last (s # xs))"
proof (induction xs arbitrary: s)
  case (Cons t xs)
  then have "reach lib s0 t" by (auto intro: reach_step)
  with Cons show ?case by simp
qed simp

text \<open>The threads right after a \<open>start\<close> that reported success.\<close>

definition started :: "'c pipeline \<Rightarrow> ledger \<Rightarrow> 'c threads" where
  "started vp L = \<lparr>t_vp = vp, t_L = L, t_enc = ECheck, t_cap = CIdle, t_ctl = KRun, t_stop = False,
     t_in = vp_queue vp, t_out = [], t_lost = []\<rparr>"

section \<open>Invariant\<close>

text \<open>Frames: every one queued is taken, dropped or still there, in order, and counted.\<close>

definition frames_inv :: "'c pipeline \<Rightarrow> 'c threads \<Rightarrow> bool" where
  "frames_inv vp0 s \<longleftrightarrow>
     length (vp_queue (t_vp s)) \<le> QUEUE_CAPACITY
     \<and> mset (t_in s) = mset (t_out s) + mset (t_lost s) + mset (vp_queue (t_vp s))
     \<and> subseq (t_out s @ vp_queue (t_vp s)) (t_in s)
     \<and> vp_framesDropped (t_vp s) = vp_framesDropped vp0 + of_nat (length (t_lost s))
     \<and> vp_frameCount (t_vp s) + of_nat (length (vp_queue vp0)) + (if t_cap s \<in> {CNotify, CCount} then 1 else 0)
         = vp_frameCount vp0 + of_nat (length (t_in s))"

text \<open>Sleeping: who is about to wake the encode thread when there is a frame for it.\<close>

definition wakeup_inv :: "'c threads \<Rightarrow> bool" where
  "wakeup_inv s \<longleftrightarrow>
     (t_enc s = EBlocking \<longrightarrow> vp_queue (t_vp s) = [])
     \<and> (t_enc s = EWaiting \<longrightarrow> vp_queue (t_vp s) \<noteq> [] \<longrightarrow> t_cap s = CNotify)"

text \<open>Control: the stop token, the threads that exist, and the camera's flag.\<close>

definition control_inv :: "'c threads \<Rightarrow> bool" where
  "control_inv s \<longleftrightarrow>
     (t_stop s \<longleftrightarrow> t_ctl s \<in> {KJoin, KStopped})
     \<and> (t_ctl s \<in> {KNotify, KRequest, KJoin, KStopped} \<longrightarrow> t_cap s = CAbsent)
     \<and> (t_enc s = EAbsent \<longleftrightarrow> t_ctl s = KStopped) \<and> (t_enc s = EDone \<longrightarrow> t_stop s)
     \<and> (\<exists>cam. vp_capture (t_vp s) = Some cam \<and> (cam_running cam \<longleftrightarrow> t_cap s \<noteq> CAbsent))"

text \<open>Resources: the pipeline owns what it should and every frame has a picture.\<close>

definition resource_inv :: "ledger \<Rightarrow> 'c threads \<Rightarrow> bool" where
  "resource_inv L0 s \<longleftrightarrow> vp_owns L0 (t_vp s) (t_L s) \<and> vp_encoder (t_vp s) \<noteq> None \<and> queue_ok (t_vp s)
     \<and> (\<forall>f. t_enc s = EHave f \<longrightarrow> fr_frame f \<noteq> None)"

lemma requestKeyframe_keeps [keeps]:
  "vp_queue (vp_requestKeyframe vp) = vp_queue vp" "vp_framesDropped (vp_requestKeyframe vp) = vp_framesDropped vp"
  "vp_frameCount (vp_requestKeyframe vp) = vp_frameCount vp" "vp_capture (vp_requestKeyframe vp) = vp_capture vp"
  by (simp_all add: vp_requestKeyframe_def split: option.splits)

lemma wake_eq [simp]: "wake p = EBlocking \<longleftrightarrow> p = EBlocking" "wake p \<noteq> EWaiting"
  "wake p = EAbsent \<longleftrightarrow> p = EAbsent" "wake p = EDone \<longleftrightarrow> p = EDone" "wake p = EHave f \<longleftrightarrow> p = EHave f"
  by (cases p; simp)+

lemma subseq_drop_mid: "subseq (xs @ y # ys) zs \<Longrightarrow> subseq (xs @ ys) zs"
  by (rule subseq_order.trans [rotated]) (auto intro: list_emb_append_mono)

lemma push_frames_inv:
  assumes "frames_inv vp0 s" "t_cap s = CIdle"
  shows "frames_inv vp0 (push_step f s)"
proof (cases "length (vp_queue (t_vp s)) < QUEUE_CAPACITY")
  case True
  have "subseq ((t_out s @ vp_queue (t_vp s)) @ [f]) (t_in s @ [f])"
    using assms(1) by (intro list_emb_append_mono) (auto simp: frames_inv_def)
  with True assms show ?thesis
    by (simp add: frames_inv_def push_step_def enqueue_frame_def Let_def)
next
  case False
  with assms have l: "length (vp_queue (t_vp s)) = QUEUE_CAPACITY" by (simp add: frames_inv_def)
  then obtain q qs where q: "vp_queue (t_vp s) = q # qs"
    by (cases "vp_queue (t_vp s)") (auto simp: QUEUE_CAPACITY_def)
  have "subseq (t_out s @ q # qs) (t_in s)" using assms(1) q by (simp add: frames_inv_def)
  then have "subseq (t_out s @ qs) (t_in s)" by (rule subseq_drop_mid)
  then have "subseq ((t_out s @ qs) @ [f]) (t_in s @ [f])" by (intro list_emb_append_mono) auto
  with l q assms show ?thesis
    by (simp add: frames_inv_def push_step_def enqueue_frame_def Let_def)
qed

lemma tstep_frames_inv: "tstep lib s s' \<Longrightarrow> frames_inv vp0 s \<Longrightarrow> frames_inv vp0 s'"
proof (induction rule: tstep.induct)
  case (cap_push s f)
  then show ?case by (intro push_frames_inv)
next
  case (enc_encode s f out vp')
  then show ?case using encode_one_keeps [OF enc_encode(2)] by (simp add: frames_inv_def)
next
  case (ctl_join s out vp' L')
  then show ?case using vp_finish_keeps [OF ctl_join(3)] by (simp add: frames_inv_def)
qed (auto simp: frames_inv_def keeps add.commute add.left_commute)

lemma tstep_wakeup_inv: "tstep lib s s' \<Longrightarrow> wakeup_inv s \<Longrightarrow> wakeup_inv s'"
proof (induction rule: tstep.induct)
  case (enc_encode s f out vp')
  then show ?case by (simp add: wakeup_inv_def)
next
  case (ctl_join s out vp' L')
  then show ?case by (simp add: wakeup_inv_def)
qed (auto simp: wakeup_inv_def push_step_def keeps)

lemma tstep_control_inv: "tstep lib s s' \<Longrightarrow> control_inv s \<Longrightarrow> control_inv s'"
proof (induction rule: tstep.induct)
  case (cap_push s f)
  then show ?case by (auto simp: control_inv_def push_step_def enqueue_frame_keeps)
next
  case (enc_encode s f out vp')
  then show ?case using encode_one_keeps [OF enc_encode(2)] by (auto simp: control_inv_def)
next
  case (ctl_joined s)
  then show ?case by (auto simp: control_inv_def stop_capture_def cam_stop_def Let_def)
next
  case (ctl_join s out vp' L')
  then show ?case using vp_finish_keeps [OF ctl_join(3)] by (auto simp: control_inv_def)
qed (auto simp: control_inv_def cam_loop_end_def)

lemma tstep_resource_inv:
  assumes "tstep lib s s'" "resource_inv L0 s" "codec_drains lib" "allocs_succeed lib"
  shows "resource_inv L0 s'"
  using assms(1,2)
proof (induction rule: tstep.induct)
  case (cap_push s f)
  then have "queue_ok (enqueue_frame f (t_vp s))"
    using enqueue_frame_keeps(4) [of f "t_vp s"] by (auto simp: resource_inv_def queue_ok_def)
  with cap_push show ?case
    by (auto simp: resource_inv_def push_step_def enqueue_frame_keeps(1,2) elim!: vp_owns_cong)
next
  case (cap_error s cam)
  then show ?case
    by (auto simp: resource_inv_def vp_owns_def vp_handles_defs cam_loop_end_def cam_handles_def queue_ok_def)
next
  case (enc_encode s f out vp')
  then have "vp_owns L0 (t_vp s) (t_L s)" "vp_encoder (t_vp s) \<noteq> None" "fr_frame f \<noteq> None"
    by (auto simp: resource_inv_def)
  from encode_one_returns [OF this(1) assms(3,4) this(2,3)] enc_encode show ?case
    by (auto simp: resource_inv_def queue_ok_def)
next
  case (ctl_joined s)
  then show ?case
    by (auto simp: resource_inv_def stop_capture_owns keeps queue_ok_def)
next
  case (ctl_join s out vp' L')
  then have "vp_owns L0 (t_vp s) (t_L s)" "vp_encoder (t_vp s) \<noteq> None" by (auto simp: resource_inv_def)
  from vp_finish_owns [OF this(1) assms(3,4) this(2)] ctl_join show ?case
    by (auto simp: resource_inv_def queue_ok_def)
qed (auto simp: resource_inv_def queue_ok_def elim!: vp_owns_cong)

lemma estep_frames_inv: "estep s s' \<Longrightarrow> frames_inv vp0 s \<Longrightarrow> frames_inv vp0 s'"
  by (induction rule: estep.induct) (simp_all add: frames_inv_def keeps)

lemma estep_wakeup_inv: "estep s s' \<Longrightarrow> wakeup_inv s \<Longrightarrow> wakeup_inv s'"
  by (induction rule: estep.induct) (simp_all add: wakeup_inv_def keeps)

lemma estep_control_inv: "estep s s' \<Longrightarrow> control_inv s \<Longrightarrow> control_inv s'"
  by (induction rule: estep.induct) (auto simp: control_inv_def keeps)

lemma estep_resource_inv: "estep s s' \<Longrightarrow> resource_inv L0 s \<Longrightarrow> resource_inv L0 s'"
proof (induction rule: estep.induct)
  case (env_keyframe s)
  then obtain e where e: "vp_encoder (t_vp s) = Some e" by (auto simp: resource_inv_def)
  have "enc_inv (enc_requestKeyframe e)" "enc_owned (enc_requestKeyframe e) = enc_owned e"
    using env_keyframe e by (auto simp: resource_inv_def vp_owns_def enc_requestKeyframe_def enc_inv_def
        enc_owned_def split: encoder_kind.splits)
  with env_keyframe e show ?case
    by (simp add: resource_inv_def vp_requestKeyframe_def vp_owns_def vp_handles_defs queue_ok_def)
qed (simp add: resource_inv_def)

text \<open>All of it, for every state the threads can get into.\<close>

definition good_start :: "ledger \<Rightarrow> 'c pipeline \<Rightarrow> ledger \<Rightarrow> bool" where
  "good_start L0 vp L \<longleftrightarrow> vp_owns L0 vp L \<and> vp_encoder vp \<noteq> None \<and> queue_ok vp
     \<and> length (vp_queue vp) \<le> QUEUE_CAPACITY
     \<and> (\<exists>cam. vp_capture vp = Some cam \<and> cam_running cam)"

lemma reach_invs:
  assumes "reach lib (started vp L) s" "good_start L0 vp L" "codec_drains lib" "allocs_succeed lib"
  shows "frames_inv vp s \<and> wakeup_inv s \<and> control_inv s \<and> resource_inv L0 s"
  using assms(1)
proof (induction rule: reach.induct)
  case reach_refl
  then show ?case using assms(2)
    by (auto simp: good_start_def started_def frames_inv_def wakeup_inv_def control_inv_def resource_inv_def)
next
  case (reach_step t u)
  then show ?case
    using tstep_frames_inv tstep_wakeup_inv tstep_control_inv tstep_resource_inv assms(3,4) by blast
next
  case (reach_env t u)
  then show ?case
    using estep_frames_inv estep_wakeup_inv estep_control_inv estep_resource_inv by blast
qed

section \<open>Progress\<close>

lemma cap_step:
  assumes "t_ctl s = KJoinCapture"
  shows "\<exists>s'. tstep lib s s'"
  using assms by (cases "t_cap s") (blast intro: ctl_joined cap_notify cap_count)+

lemma join_progress:
  assumes "control_inv s" "resource_inv L0 s" "codec_drains lib" "allocs_succeed lib"
    and "t_ctl s = KJoin" "t_enc s \<noteq> EWaiting"
  shows "\<exists>s'. tstep lib s s'"
proof -
  have st: "t_stop s" "t_enc s \<noteq> EAbsent" using assms(1,5) by (auto simp: control_inv_def)
  have r: "vp_owns L0 (t_vp s) (t_L s)" "vp_encoder (t_vp s) \<noteq> None" using assms(2) by (auto simp: resource_inv_def)
  show ?thesis
  proof (cases "t_enc s")
    case ECheck
    with st show ?thesis by (blast intro: enc_leave)
  next
    case EEval
    with st show ?thesis by (cases "vp_queue (t_vp s)") (blast intro: enc_exit enc_take)+
  next
    case EBlocking
    then show ?thesis by (blast intro: enc_block)
  next
    case (EHave f)
    then have "fr_frame f \<noteq> None" using assms(2) by (auto simp: resource_inv_def)
    with encode_one_returns [OF r(1) assms(3,4) r(2) this] EHave show ?thesis by (blast intro: enc_encode)
  next
    case EDone
    with vp_finish_owns [OF r(1) assms(3,4) r(2)] assms(5) show ?thesis by (blast intro: ctl_join)
  qed (use assms(6) st in simp_all)
qed

lemma progress:
  assumes "control_inv s" "resource_inv L0 s" "codec_drains lib" "allocs_succeed lib"
    and "t_ctl s \<noteq> KStopped" "\<not> (t_ctl s = KJoin \<and> t_enc s = EWaiting)"
  shows "\<exists>s'. tstep lib s s'"
proof (cases "t_ctl s")
  case KRun
  obtain cam where "vp_capture (t_vp s) = Some cam" using assms(1) by (auto simp: control_inv_def)
  with KRun show ?thesis by (cases "cam_running cam") (blast intro: ctl_stop ctl_stop_idle)+
next
  case KJoinCapture
  then show ?thesis by (rule cap_step)
next
  case KNotify
  then show ?thesis by (blast intro: ctl_notify)
next
  case KRequest
  then show ?thesis by (blast intro: ctl_request)
next
  case KJoin
  with join_progress [OF assms(1-4)] assms(6) show ?thesis by blast
qed (use assms(5) in simp)

lemma asleep_stuck:
  assumes "control_inv s" "t_ctl s = KJoin" "t_enc s = EWaiting"
  shows "\<not> tstep lib s s'"
proof
  assume "tstep lib s s'"
  moreover have "t_cap s = CAbsent" using assms(1,2) by (simp add: control_inv_def)
  ultimately show False using assms(2,3) by (cases rule: tstep.cases) auto
qed

text \<open>\<open>inevitable\<close>: however the threads are scheduled, \<open>P\<close> comes true after finitely many steps.\<close>

inductive inevitable :: "'c av_lib \<Rightarrow> ('c threads \<Rightarrow> bool) \<Rightarrow> 'c threads \<Rightarrow> bool" for lib P where
  inev_now: "P s \<Longrightarrow> inevitable lib P s"
| inev_later: "tstep lib s t \<Longrightarrow> (\<And>s'. tstep lib s s' \<Longrightarrow> inevitable lib P s') \<Longrightarrow> inevitable lib P s"

fun enc_rank :: "enc_pc \<Rightarrow> nat" where
  "enc_rank EEval = 3"
| "enc_rank (EHave f) = 2"
| "enc_rank ECheck = 1"
| "enc_rank _ = 0"

lemma join_step_down:
  assumes "tstep lib s s'" "control_inv s" "t_ctl s = KJoin" "t_enc s \<notin> {EWaiting, EBlocking}"
  shows "t_ctl s' = KStopped \<or>
    t_ctl s' = KJoin \<and> t_enc s' \<notin> {EWaiting, EBlocking} \<and> enc_rank (t_enc s') < enc_rank (t_enc s)"
proof -
  have "t_cap s = CAbsent" "t_stop s" using assms(2,3) by (simp_all add: control_inv_def)
  with assms(1,3,4) show ?thesis by (cases rule: tstep.cases) auto
qed

lemma join_inevitable:
  assumes "control_inv s" "resource_inv L0 s" "codec_drains lib" "allocs_succeed lib"
    and "t_ctl s = KJoin" "t_enc s \<notin> {EWaiting, EBlocking}"
  shows "inevitable lib (\<lambda>s. t_ctl s = KStopped) s"
  using assms(1,2,5,6)
proof (induction "enc_rank (t_enc s)" arbitrary: s rule: less_induct)
  case less
  obtain t where "tstep lib s t"
    using join_progress [OF less.prems(1,2) assms(3,4) less.prems(3)] less.prems(4) by blast
  then show ?case
  proof (rule inev_later)
    fix s'
    assume st: "tstep lib s s'"
    note inv = tstep_control_inv [OF st less.prems(1)] tstep_resource_inv [OF st less.prems(2) assms(3,4)]
    from join_step_down [OF st less.prems(1,3,4)]
    show "inevitable lib (\<lambda>s. t_ctl s = KStopped) s'"
    proof (elim disjE conjE)
      assume "t_ctl s' = KStopped"
      then show ?thesis by (rule inev_now)
    next
      assume "t_ctl s' = KJoin" "t_enc s' \<notin> {EWaiting, EBlocking}" "enc_rank (t_enc s') < enc_rank (t_enc s)"
      then show ?thesis using less.hyps [OF _ inv] by simp
    qed
  qed
qed

section \<open>Properties of the running pipeline\<close>

text \<open>C1: in every interleaving of capture, encoding and stop, no frame is unaccounted for: the queue
  never exceeds three, each frame queued is taken by the encode thread, dropped, or still queued
  (each exactly once), frames are taken in capture order, and the statistics count drops and
  captures exactly (modulo \<open>2^32\<close>).\<close>

theorem frames_accounted:
  assumes "reach lib (started vp L) s" "good_start L0 vp L" "codec_drains lib" "allocs_succeed lib"
  shows "length (vp_queue (t_vp s)) \<le> 3
    \<and> mset (t_in s) = mset (t_out s) + mset (t_lost s) + mset (vp_queue (t_vp s))
    \<and> subseq (t_out s @ vp_queue (t_vp s)) (t_in s)
    \<and> vp_framesDropped (t_vp s) = vp_framesDropped vp + of_nat (length (t_lost s))
    \<and> (t_cap s = CIdle \<or> t_cap s = CAbsent \<longrightarrow>
         vp_frameCount (t_vp s) + of_nat (length (vp_queue vp)) = vp_frameCount vp + of_nat (length (t_in s)))"
  using reach_invs [OF assms] by (auto simp: frames_inv_def QUEUE_CAPACITY_def split: if_splits)

text \<open>C15: no frame waits for nothing: in every reachable state, if the encode thread sleeps on the
  condition variable while frames are queued, the capture thread is just about to notify it; and
  a frame the encode thread has taken can always be encoded without fault.\<close>

theorem no_lost_frame_wakeup:
  assumes "reach lib (started vp L) s" "good_start L0 vp L" "codec_drains lib" "allocs_succeed lib"
  shows "(t_enc s \<in> {EBlocking, EWaiting} \<and> vp_queue (t_vp s) \<noteq> [] \<longrightarrow> t_enc s = EWaiting \<and> t_cap s = CNotify)
    \<and> (\<forall>f. t_enc s = EHave f \<longrightarrow> (\<exists>out vp'. encode_one lib f (t_vp s) = Inr (out, vp')))"
proof -
  have inv: "wakeup_inv s" "resource_inv L0 s" using reach_invs [OF assms] by auto
  then have "vp_owns L0 (t_vp s) (t_L s)" "vp_encoder (t_vp s) \<noteq> None" by (auto simp: resource_inv_def)
  then have "\<exists>out vp'. encode_one lib f (t_vp s) = Inr (out, vp')" if "t_enc s = EHave f" for f
    using encode_one_returns [OF _ assms(3,4), of L0 "t_vp s" "t_L s" f] inv(2) that
    by (auto simp: resource_inv_def)
  with inv(1) show ?thesis by (auto simp: wakeup_inv_def)
qed

text \<open>C13: the exact deadlock of \<open>stop\<close>: a reachable state in which \<open>stop\<close> has not returned has no
  next step if and only if \<open>stop\<close> is joining the encode thread while that thread sleeps on the
  condition variable (its queue is then empty, and nobody is left to wake it).\<close>

theorem stop_deadlock_iff:
  assumes "reach lib (started vp L) s" "good_start L0 vp L" "codec_drains lib" "allocs_succeed lib"
    and "t_ctl s \<noteq> KStopped"
  shows "(\<forall>s'. \<not> tstep lib s s') \<longleftrightarrow> t_ctl s = KJoin \<and> t_enc s = EWaiting"
proof -
  have inv: "control_inv s" "resource_inv L0 s" using reach_invs [OF assms(1-4)] by auto
  show ?thesis using progress [OF inv assms(3,4,5)] asleep_stuck [OF inv(1)] by blast
qed

text \<open>\<open>stop\<close> can hang: from every started pipeline with an empty queue there is a schedule in
  which \<open>notify_all\<close> comes before \<open>request_stop\<close>, the encode thread goes back to sleep in
  between, and \<open>stop\<close> waits for it for ever.\<close>

theorem stop_can_deadlock:
  assumes "good_start L0 vp L" "vp_queue vp = []"
  shows "\<exists>s. reach lib (started vp L) s \<and> t_ctl s = KJoin \<and> (\<forall>s'. \<not> tstep lib s s')"
proof -
  obtain cam where cam: "vp_capture vp = Some cam" "cam_running cam" using assms(1) by (auto simp: good_start_def)
  define s0 where "s0 = started vp L"
  define s1 where "s1 = s0\<lparr>t_enc := EEval\<rparr>"
  define s2 where "s2 = s1\<lparr>t_enc := EBlocking\<rparr>"
  define s3 where "s3 = s2\<lparr>t_enc := EWaiting\<rparr>"
  define s4 where "s4 = s3\<lparr>t_ctl := KJoinCapture\<rparr>"
  define s5 where "s5 = s4\<lparr>t_vp := stop_capture (t_vp s4), t_cap := CAbsent, t_ctl := KNotify\<rparr>"
  define s6 where "s6 = s5\<lparr>t_enc := wake (t_enc s5), t_ctl := KRequest\<rparr>"
  define s7 where "s7 = s6\<lparr>t_enc := EBlocking\<rparr>"
  define s8 where "s8 = s7\<lparr>t_enc := EWaiting\<rparr>"
  define s9 where "s9 = s8\<lparr>t_stop := True, t_ctl := KJoin\<rparr>"
  note defs = s0_def s1_def s2_def s3_def s4_def s5_def s6_def s7_def s8_def s9_def started_def
  have "tstep lib s0 s1" unfolding s1_def by (rule enc_enter) (simp_all add: defs)
  moreover have "tstep lib s1 s2" unfolding s2_def by (rule enc_false) (simp_all add: defs assms(2))
  moreover have "tstep lib s2 s3" unfolding s3_def by (rule enc_block) (simp add: defs)
  moreover have "tstep lib s3 s4" unfolding s4_def by (rule ctl_stop [where cam = cam]) (simp_all add: defs cam)
  moreover have "tstep lib s4 s5" unfolding s5_def by (rule ctl_joined) (simp_all add: defs)
  moreover have "tstep lib s5 s6" unfolding s6_def by (rule ctl_notify) (simp add: s5_def)
  moreover have "tstep lib s6 s7" unfolding s7_def
    by (rule enc_false) (simp_all add: defs assms(2) keeps)
  moreover have "tstep lib s7 s8" unfolding s8_def by (rule enc_block) (simp add: s7_def)
  moreover have "tstep lib s8 s9" unfolding s9_def by (rule ctl_request) (simp add: s8_def s7_def s6_def)
  ultimately have "schedule_of lib [s0, s1, s2, s3, s4, s5, s6, s7, s8, s9]" by simp
  from schedule_reach [OF this reach_refl] have "reach lib s0 s9" by simp
  moreover have "control_inv s9"
    using stop_capture_keeps(6) [of vp] cam
    by (simp add: defs control_inv_def stop_capture_def cam_stop_def Let_def)
  then have "\<not> tstep lib s9 s'" for s' by (rule asleep_stuck) (simp_all add: s9_def s8_def)
  ultimately show ?thesis by (intro exI [of _ s9]) (simp add: s0_def s9_def)
qed

text \<open>C14: except for that race \<open>stop\<close> always completes: once the stop is requested and the encode
  thread is neither asleep nor about to fall asleep, \<open>stop\<close> returns after finitely many steps
  under every schedule.\<close>

theorem stop_completes:
  assumes "reach lib (started vp L) s" "good_start L0 vp L" "codec_drains lib" "allocs_succeed lib"
    and "t_ctl s = KJoin" "t_enc s \<notin> {EWaiting, EBlocking}"
  shows "inevitable lib (\<lambda>s. t_ctl s = KStopped) s"
  using join_inevitable [OF _ _ assms(3-6)] reach_invs [OF assms(1-4)] by blast

text \<open>frames can be left behind: \<open>encodeLoop\<close> checks the stop token before the queue, so there
  is a schedule in which \<open>stop\<close> returns with a captured frame still queued and never encoded
  (the next \<open>start\<close> finds it there).\<close>

theorem stop_can_abandon_frames:
  assumes "good_start L0 vp L" "codec_drains lib" "allocs_succeed lib" "vp_queue vp = []" "fr_frame f \<noteq> None"
  shows "\<exists>s. reach lib (started vp L) s \<and> t_ctl s = KStopped \<and> vp_queue (t_vp s) = [f] \<and> t_out s = []
    \<and> t_lost s = []"
proof -
  obtain cam where cam: "vp_capture vp = Some cam" "cam_running cam" using assms(1) by (auto simp: good_start_def)
  define s0 where "s0 = started vp L"
  define s1 where "s1 = push_step f s0"
  define s2 where "s2 = s1\<lparr>t_enc := wake (t_enc s1), t_cap := CCount\<rparr>"
  define s3 where "s3 = s2\<lparr>t_vp := t_vp s2\<lparr>vp_frameCount := vp_frameCount (t_vp s2) + 1\<rparr>, t_cap := CIdle\<rparr>"
  define s4 where "s4 = s3\<lparr>t_ctl := KJoinCapture\<rparr>"
  define s5 where "s5 = s4\<lparr>t_vp := stop_capture (t_vp s4), t_cap := CAbsent, t_ctl := KNotify\<rparr>"
  define s6 where "s6 = s5\<lparr>t_enc := wake (t_enc s5), t_ctl := KRequest\<rparr>"
  define s7 where "s7 = s6\<lparr>t_stop := True, t_ctl := KJoin\<rparr>"
  define s8 where "s8 = s7\<lparr>t_enc := EDone\<rparr>"
  note defs = s0_def s1_def s2_def s3_def s4_def s5_def s6_def s7_def s8_def started_def push_step_def
    enqueue_frame_def
  have "tstep lib s0 s1" unfolding s1_def using assms(5) by (intro cap_push) (simp_all add: s0_def started_def)
  moreover have "tstep lib s1 s2" unfolding s2_def by (rule cap_notify) (simp add: s1_def push_step_def)
  moreover have "tstep lib s2 s3" unfolding s3_def by (rule cap_count) (simp add: s2_def)
  moreover have "tstep lib s3 s4" unfolding s4_def
    by (rule ctl_stop [where cam = cam]) (simp_all add: defs cam QUEUE_CAPACITY_def assms(4))
  moreover have "tstep lib s4 s5" unfolding s5_def by (rule ctl_joined) (simp_all add: defs)
  moreover have "tstep lib s5 s6" unfolding s6_def by (rule ctl_notify) (simp add: s5_def)
  moreover have "tstep lib s6 s7" unfolding s7_def by (rule ctl_request) (simp add: s6_def)
  moreover have "tstep lib s7 s8" unfolding s8_def by (rule enc_leave) (simp_all add: defs)
  ultimately have "schedule_of lib [s0, s1, s2, s3, s4, s5, s6, s7, s8]" by simp
  from schedule_reach [OF this reach_refl] have r: "reach lib s0 s8" by simp
  then have "resource_inv L0 s8" using reach_invs [OF _ assms(1-3)] by (simp add: s0_def)
  then obtain out vp' L' where f: "vp_finish lib (t_vp s8) (t_L s8) = Inr (out, vp', L')"
    using vp_finish_owns [OF _ assms(2,3), of L0 "t_vp s8" "t_L s8"] by (auto simp: resource_inv_def)
  have "tstep lib s8 (s8\<lparr>t_vp := vp', t_L := L', t_enc := EAbsent, t_ctl := KStopped\<rparr>)"
    by (rule ctl_join [OF _ _ f]) (simp_all add: s8_def s7_def)
  from reach_step [OF r this] vp_finish_keeps [OF f] show ?thesis
    by (intro exI [of _ "s8\<lparr>t_vp := vp', t_L := L', t_enc := EAbsent, t_ctl := KStopped\<rparr>"])
       (simp add: defs QUEUE_CAPACITY_def assms(4) keeps)
qed

section \<open>Witnesses of the running pipeline\<close>

definition running_pipeline :: "av_packet list pipeline" where
  "running_pipeline = demo_pipeline\<lparr>vp_encodeThread := True,
     vp_capture := Some (demo_camera\<lparr>cam_running := True, cam_thread := True, cam_state := GST_PLAYING\<rparr>)\<rparr>"

lemma running_pipeline_good: "good_start \<lparr>next_handle = 0, live = []\<rparr> running_pipeline demo_ledger"
  using demo_pipeline_owns
  by (simp add: good_start_def running_pipeline_def demo_pipeline_def new_pipeline_def vp_owns_def vp_handles_defs
      cam_handles_def queue_ok_def)

lemma running_pipeline_queue: "vp_queue running_pipeline = []" "vp_frameCount running_pipeline = 0"
  by (simp_all add: running_pipeline_def demo_pipeline_def new_pipeline_def)

theorem frames_accounted_witness:
  "vp_framesDropped (t_vp (started running_pipeline demo_ledger)) = vp_framesDropped running_pipeline"
  using frames_accounted [OF reach_refl running_pipeline_good queue_lib_ok]
  by (simp add: started_def)

theorem no_lost_frame_wakeup_witness:
  "t_enc (push_step (demo_Frame 1) (started running_pipeline demo_ledger)) \<noteq> EBlocking"
proof -
  have "tstep queue_lib (started running_pipeline demo_ledger) (push_step (demo_Frame 1) (started running_pipeline demo_ledger))"
    by (rule cap_push) (simp_all add: started_def demo_Frame_def)
  from no_lost_frame_wakeup [OF reach_step [OF reach_refl this] running_pipeline_good queue_lib_ok]
  show ?thesis by (auto simp: push_step_def started_def)
qed

theorem stop_deadlock_iff_witness:
  "\<exists>s'. tstep queue_lib (started running_pipeline demo_ledger) s'"
  using stop_deadlock_iff [OF reach_refl running_pipeline_good queue_lib_ok] by (simp add: started_def)

theorem stop_can_deadlock_witness:
  "\<exists>s. reach queue_lib (started running_pipeline demo_ledger) s \<and> t_ctl s = KJoin \<and> (\<forall>s'. \<not> tstep queue_lib s s')"
  by (rule stop_can_deadlock [OF running_pipeline_good running_pipeline_queue(1)])

text \<open>A schedule in which the encode thread has not yet looked at the queue when \<open>stop\<close> joins it.\<close>

definition stopping_schedule :: "'c threads \<Rightarrow> 'c threads list" where
  "stopping_schedule s0 =
     (let s1 = s0\<lparr>t_ctl := KJoinCapture\<rparr>;
          s2 = s1\<lparr>t_vp := stop_capture (t_vp s1), t_cap := CAbsent, t_ctl := KNotify\<rparr>;
          s3 = s2\<lparr>t_enc := wake (t_enc s2), t_ctl := KRequest\<rparr>;
          s4 = s3\<lparr>t_stop := True, t_ctl := KJoin\<rparr>
      in [s0, s1, s2, s3, s4])"

theorem stop_completes_witness:
  "inevitable queue_lib (\<lambda>s. t_ctl s = KStopped) (last (stopping_schedule (started running_pipeline demo_ledger)))"
proof -
  let ?s0 = "started running_pipeline demo_ledger"
  let ?s1 = "?s0\<lparr>t_ctl := KJoinCapture\<rparr>"
  let ?s2 = "?s1\<lparr>t_vp := stop_capture (t_vp ?s1), t_cap := CAbsent, t_ctl := KNotify\<rparr>"
  let ?s3 = "?s2\<lparr>t_enc := wake (t_enc ?s2), t_ctl := KRequest\<rparr>"
  let ?s4 = "?s3\<lparr>t_stop := True, t_ctl := KJoin\<rparr>"
  obtain cam where cam: "vp_capture running_pipeline = Some cam" "cam_running cam"
    by (simp add: running_pipeline_def)
  have "tstep queue_lib ?s0 ?s1" by (rule ctl_stop [where cam = cam]) (simp_all add: started_def cam)
  moreover have "tstep queue_lib ?s1 ?s2" by (rule ctl_joined) (simp_all add: started_def)
  moreover have "tstep queue_lib ?s2 ?s3" by (rule ctl_notify) simp
  moreover have "tstep queue_lib ?s3 ?s4" by (rule ctl_request) simp
  ultimately have "schedule_of queue_lib [?s0, ?s1, ?s2, ?s3, ?s4]"
    unfolding schedule_of.simps by blast
  from schedule_reach [OF this reach_refl] have "reach queue_lib ?s0 ?s4" by simp
  from stop_completes [OF this running_pipeline_good queue_lib_ok] show ?thesis
    by (simp add: started_def stopping_schedule_def Let_def)
qed

theorem stop_can_abandon_frames_witness:
  "\<exists>s. reach queue_lib (started running_pipeline demo_ledger) s \<and> t_ctl s = KStopped
     \<and> vp_queue (t_vp s) = [demo_Frame 7]"
  using stop_can_abandon_frames [OF running_pipeline_good queue_lib_ok running_pipeline_queue(1), of "demo_Frame 7"]
  by (auto simp: demo_Frame_def)

end
