(* ===== verification/Decoder.thy ===== *)
theory Decoder
  imports Common_Types
begin

text \<open>
  The H.264 decoders of \<open>video-core\<close>: \<open>SoftwareDecoder\<close>, \<open>NvdecDecoder\<close> and the
  factory \<open>createDecoder\<close>. FFmpeg is the parameter \<open>dec_lib\<close>. The decoders own several
  library objects (codec context, scratch frames, device reference), so most of what can go
  wrong here is about ownership; the ledger of the prelude keeps the accounts.
\<close>

section \<open>The library interface\<close>

record 'c dec_lib =
  dl_hwdevice_create :: bool
  dl_find_cuvid :: bool
  dl_find_h264 :: bool
  dl_alloc_context :: bool
  dl_buffer_ref :: bool
  dl_open2 :: "int \<Rightarrow> 'c option"
  dl_frame_alloc :: bool
  dl_cpuFrame_alloc :: bool
  dl_time_base :: rational
  dl_send_packet :: "'c \<Rightarrow> av_packet option \<Rightarrow> int \<times> 'c"
  dl_receive_frame :: "'c \<Rightarrow> av_frame option \<times> 'c"
  dl_hwframe_transfer :: "av_frame \<Rightarrow> av_frame option"
  dl_frame_clone :: "av_frame \<Rightarrow> av_frame option"
  dl_rescale :: rescale_q

text \<open>
  A decoder context, with the device reference it took (\<open>hw_device_ctx\<close>), which
  \<open>avcodec_free_context\<close> gives back. \<open>dctx_state\<close> is there once \<open>avcodec_open2\<close>
  succeeded.
\<close>

record 'c dec_ctx =
  dctx_handle :: handle
  dctx_hw :: "handle option"
  dctx_state :: "'c option"

datatype decoder_kind = SoftwareDecoder | NvdecDecoder

record 'c decoder =
  dec_kind :: decoder_kind
  dec_callback :: bool
  dec_ctx :: "'c dec_ctx option"
  dec_hwDevice :: "handle option"
  dec_frame :: "handle option"
  dec_cpuFrame :: "handle option"
  dec_initialized :: bool

definition new_decoder :: "decoder_kind \<Rightarrow> 'c decoder" where
  "new_decoder k = \<lparr>dec_kind = k, dec_callback = False, dec_ctx = None, dec_hwDevice = None,
     dec_frame = None, dec_cpuFrame = None, dec_initialized = False\<rparr>"

section \<open>Freeing a context\<close>

definition free_ctx :: "'c dec_ctx option \<Rightarrow> ledger \<Rightarrow> ledger run" where
  "free_ctx c L =
     (case c of None \<Rightarrow> Inr L
      | Some ctx \<Rightarrow> andThen (release_opt (dctx_hw ctx) L) (release (dctx_handle ctx)))"

section \<open>createDecoder\<close>

text \<open>The probe opens a CUDA device and closes it again before it answers.\<close>

definition createDecoder :: "'c dec_lib \<Rightarrow> ledger \<Rightarrow> ('c decoder \<times> ledger) run" where
  "createDecoder lib L =
     (if dl_find_cuvid lib then
        (case try_acquire (dl_hwdevice_create lib) L of
           (None, L') \<Rightarrow> Inr (new_decoder SoftwareDecoder, L')
         | (Some h, L') \<Rightarrow> andThen (release h L') (\<lambda>L''. Inr (new_decoder NvdecDecoder, L'')))
      else Inr (new_decoder SoftwareDecoder, L))"

section \<open>Initialisation\<close>

definition dec_base_initialize :: "bool \<Rightarrow> 'c decoder \<Rightarrow> Result \<times> 'c decoder" where
  "dec_base_initialize cb d = (Success, d\<lparr>dec_callback := cb\<rparr>)"

definition swdec_initialize ::
  "'c dec_lib \<Rightarrow> bool \<Rightarrow> 'c decoder \<Rightarrow> ledger \<Rightarrow> Result \<times> 'c decoder \<times> ledger" where
  "swdec_initialize lib cb d L =
     (case dec_base_initialize cb d of (res, d) \<Rightarrow>
      if res \<noteq> Success then (res, d, L)
      else if \<not> dl_find_h264 lib then (ErrorInitFailed, d, L)
      else (case try_acquire (dl_alloc_context lib) L of
          (None, L) \<Rightarrow> (ErrorInitFailed, d\<lparr>dec_ctx := None\<rparr>, L)
        | (Some h, L) \<Rightarrow>
            (case dl_open2 lib 1 of
               None \<Rightarrow> (ErrorInitFailed,
                 d\<lparr>dec_ctx := Some \<lparr>dctx_handle = h, dctx_hw = None, dctx_state = None\<rparr>\<rparr>, L)
             | Some c \<Rightarrow>
                 (let d = d\<lparr>dec_ctx := Some \<lparr>dctx_handle = h, dctx_hw = None, dctx_state = Some c\<rparr>\<rparr>
                  in case try_acquire (dl_frame_alloc lib) L of (fr, L) \<Rightarrow>
                    (let d = d\<lparr>dec_frame := fr\<rparr> in
                     if fr = None then (ErrorInitFailed, d, L)
                     else (Success, d\<lparr>dec_initialized := True\<rparr>, L))))))"

definition nvdec_initialize ::
  "'c dec_lib \<Rightarrow> bool \<Rightarrow> 'c decoder \<Rightarrow> ledger \<Rightarrow> Result \<times> 'c decoder \<times> ledger" where
  "nvdec_initialize lib cb d L =
     (case dec_base_initialize cb d of (res, d) \<Rightarrow>
      if res \<noteq> Success then (res, d, L)
      else (case try_acquire (dl_hwdevice_create lib) L of (hw, L) \<Rightarrow>
        (let d = d\<lparr>dec_hwDevice := hw\<rparr> in
         if hw = None then (ErrorDeviceNotFound, d, L)
         else if \<not> dl_find_cuvid lib then (ErrorDeviceNotFound, d, L)
         else (case try_acquire (dl_alloc_context lib) L of
             (None, L) \<Rightarrow> (ErrorInitFailed, d\<lparr>dec_ctx := None\<rparr>, L)
           | (Some h, L) \<Rightarrow>
               (case try_acquire (dl_buffer_ref lib) L of (ref, L) \<Rightarrow>
                 (case dl_open2 lib 0 of
                    None \<Rightarrow> (ErrorInitFailed,
                      d\<lparr>dec_ctx := Some \<lparr>dctx_handle = h, dctx_hw = ref, dctx_state = None\<rparr>\<rparr>, L)
                  | Some c \<Rightarrow>
                      (let d = d\<lparr>dec_ctx := Some \<lparr>dctx_handle = h, dctx_hw = ref, dctx_state = Some c\<rparr>\<rparr>
                       in case try_acquire (dl_frame_alloc lib) L of (fr, L) \<Rightarrow>
                         (case try_acquire (dl_cpuFrame_alloc lib) L of (cpu, L) \<Rightarrow>
                           (let d = d\<lparr>dec_frame := fr, dec_cpuFrame := cpu\<rparr> in
                            if fr = None \<or> cpu = None then (ErrorInitFailed, d, L)
                            else (Success, d\<lparr>dec_initialized := True\<rparr>, L))))))))))"

definition dec_initialize ::
  "'c dec_lib \<Rightarrow> bool \<Rightarrow> 'c decoder \<Rightarrow> ledger \<Rightarrow> Result \<times> 'c decoder \<times> ledger" where
  "dec_initialize lib cb d L =
     (case dec_kind d of SoftwareDecoder \<Rightarrow> swdec_initialize lib cb d L
      | NvdecDecoder \<Rightarrow> nvdec_initialize lib cb d L)"

section \<open>Decoding a packet\<close>

text \<open>Wrapping a decoded frame: time stamp from the codec's frame, the rest from the copy.\<close>

definition wrap_frame :: "'c dec_lib \<Rightarrow> i64 \<Rightarrow> av_frame \<Rightarrow> Frame" where
  "wrap_frame lib pts f = \<lparr>fr_frame = dl_frame_clone lib f,
     fr_pts = dec_rescaleToNs (dl_rescale lib) pts (dl_time_base lib),
     fr_width = af_width f, fr_height = af_height f, fr_format = af_format f\<rparr>"

text \<open>
  One received frame becomes at most one delivered frame: the software decoder delivers each,
  the GPU decoder skips those that cannot be copied from the device.
\<close>

definition swdec_deliver :: "'c dec_lib \<Rightarrow> av_frame \<Rightarrow> Frame option" where
  "swdec_deliver lib f = Some (wrap_frame lib (af_pts f) f)"

definition nvdec_deliver :: "'c dec_lib \<Rightarrow> av_frame \<Rightarrow> Frame option" where
  "nvdec_deliver lib f = map_option (wrap_frame lib (af_pts f)) (dl_hwframe_transfer lib f)"

text \<open>
  \<open>decodePacket\<close>, class by class: send, then receive until the codec has no more frames. The
  delivered frames are those the callback is called with.
\<close>

definition swdec_decodePacket ::
  "'c dec_lib \<Rightarrow> Packet \<Rightarrow> 'c decoder \<Rightarrow> (Frame list \<times> 'c decoder) run" where
  "swdec_decodePacket lib pkt d =
     (if \<not> dec_initialized d then Inr ([], d)
      else (case dec_ctx d of
          None \<Rightarrow> Inl NullDeref
        | Some ctx \<Rightarrow>
            (case dctx_state ctx of
               None \<Rightarrow> Inr ([], d)
             | Some c \<Rightarrow>
                 (case dl_send_packet lib c (pk_packet pkt) of (ret, c) \<Rightarrow>
                   if ret < 0 then Inr ([], d\<lparr>dec_ctx := Some (ctx\<lparr>dctx_state := Some c\<rparr>)\<rparr>)
                   else (case receive_loop (dl_receive_frame lib) c of
                       None \<Rightarrow> Inl NonTermination
                     | Some (fs, c') \<Rightarrow>
                         Inr (if dec_callback d then List.map_filter (swdec_deliver lib) fs else [],
                           d\<lparr>dec_ctx := Some (ctx\<lparr>dctx_state := Some c'\<rparr>)\<rparr>))))))"

definition nvdec_decodePacket ::
  "'c dec_lib \<Rightarrow> Packet \<Rightarrow> 'c decoder \<Rightarrow> (Frame list \<times> 'c decoder) run" where
  "nvdec_decodePacket lib pkt d =
     (if \<not> dec_initialized d then Inr ([], d)
      else (case dec_ctx d of
          None \<Rightarrow> Inl NullDeref
        | Some ctx \<Rightarrow>
            (case dctx_state ctx of
               None \<Rightarrow> Inr ([], d)
             | Some c \<Rightarrow>
                 (case dl_send_packet lib c (pk_packet pkt) of (ret, c) \<Rightarrow>
                   if ret < 0 then Inr ([], d\<lparr>dec_ctx := Some (ctx\<lparr>dctx_state := Some c\<rparr>)\<rparr>)
                   else (case receive_loop (dl_receive_frame lib) c of
                       None \<Rightarrow> Inl NonTermination
                     | Some (fs, c') \<Rightarrow>
                         Inr (if dec_callback d then List.map_filter (nvdec_deliver lib) fs else [],
                           d\<lparr>dec_ctx := Some (ctx\<lparr>dctx_state := Some c'\<rparr>)\<rparr>))))))"

definition decodePacket :: "'c dec_lib \<Rightarrow> Packet \<Rightarrow> 'c decoder \<Rightarrow> (Frame list \<times> 'c decoder) run" where
  "decodePacket lib pkt d =
     (case dec_kind d of SoftwareDecoder \<Rightarrow> swdec_decodePacket lib pkt d
      | NvdecDecoder \<Rightarrow> nvdec_decodePacket lib pkt d)"

section \<open>Stopping and destruction\<close>

text \<open>Flush and discard: the codec's remaining frames go nowhere.\<close>

definition dec_flush :: "'c dec_lib \<Rightarrow> 'c decoder \<Rightarrow> 'c decoder run" where
  "dec_flush lib d =
     (case dec_ctx d of
        None \<Rightarrow> Inl NullDeref
      | Some ctx \<Rightarrow>
          (case dctx_state ctx of
             None \<Rightarrow> Inr d
           | Some c \<Rightarrow>
               (case receive_loop (dl_receive_frame lib) (snd (dl_send_packet lib c None)) of
                  None \<Rightarrow> Inl NonTermination
                | Some (fs, c') \<Rightarrow> Inr (d\<lparr>dec_ctx := Some (ctx\<lparr>dctx_state := Some c'\<rparr>)\<rparr>))))"

definition swdec_stop :: "'c dec_lib \<Rightarrow> 'c decoder \<Rightarrow> ledger \<Rightarrow> ('c decoder \<times> ledger) run" where
  "swdec_stop lib d L =
     (if \<not> dec_initialized d then Inr (d, L)
      else andThen (dec_flush lib d) (\<lambda>d. andThen (free_ctx (dec_ctx d) L)
        (\<lambda>L. Inr (d\<lparr>dec_ctx := None, dec_initialized := False\<rparr>, L))))"

definition nvdec_stop :: "'c dec_lib \<Rightarrow> 'c decoder \<Rightarrow> ledger \<Rightarrow> ('c decoder \<times> ledger) run" where
  "nvdec_stop lib d L =
     (if \<not> dec_initialized d then Inr (d, L)
      else andThen (dec_flush lib d) (\<lambda>d. andThen (free_ctx (dec_ctx d) L)
        (\<lambda>L. Inr (d\<lparr>dec_ctx := None, dec_initialized := False\<rparr>, L))))"

definition dec_stop :: "'c dec_lib \<Rightarrow> 'c decoder \<Rightarrow> ledger \<Rightarrow> ('c decoder \<times> ledger) run" where
  "dec_stop lib d L =
     (case dec_kind d of SoftwareDecoder \<Rightarrow> swdec_stop lib d L
      | NvdecDecoder \<Rightarrow> nvdec_stop lib d L)"

text \<open>The destructors. Only the GPU class has a second scratch frame and a device to free.\<close>

definition swdec_destroy :: "'c dec_lib \<Rightarrow> 'c decoder \<Rightarrow> ledger \<Rightarrow> ('c decoder \<times> ledger) run" where
  "swdec_destroy lib d L =
     andThen (if dec_initialized d
              then andThen (dec_flush lib d) (\<lambda>d. Inr (d\<lparr>dec_initialized := False\<rparr>)) else Inr d)
       (\<lambda>d. andThen (release_opt (dec_frame d) L)
       (\<lambda>L. andThen (free_ctx (dec_ctx d) L)
       (\<lambda>L. Inr (d\<lparr>dec_frame := None, dec_ctx := None\<rparr>, L))))"

definition nvdec_destroy :: "'c dec_lib \<Rightarrow> 'c decoder \<Rightarrow> ledger \<Rightarrow> ('c decoder \<times> ledger) run" where
  "nvdec_destroy lib d L =
     andThen (if dec_initialized d
              then andThen (dec_flush lib d) (\<lambda>d. Inr (d\<lparr>dec_initialized := False\<rparr>)) else Inr d)
       (\<lambda>d. andThen (release_opt (dec_frame d) L)
       (\<lambda>L. andThen (release_opt (dec_cpuFrame d) L)
       (\<lambda>L. andThen (free_ctx (dec_ctx d) L)
       (\<lambda>L. andThen (release_opt (dec_hwDevice d) L)
       (\<lambda>L. Inr (d\<lparr>dec_frame := None, dec_cpuFrame := None, dec_ctx := None,
                   dec_hwDevice := None\<rparr>, L))))))"

definition dec_destroy :: "'c dec_lib \<Rightarrow> 'c decoder \<Rightarrow> ledger \<Rightarrow> ('c decoder \<times> ledger) run" where
  "dec_destroy lib d L =
     (case dec_kind d of SoftwareDecoder \<Rightarrow> swdec_destroy lib d L
      | NvdecDecoder \<Rightarrow> nvdec_destroy lib d L)"

section \<open>Invariant and ownership\<close>

text \<open>
  The members only \<open>NvdecDecoder\<close> has are empty in a software decoder; an initialised
  decoder has an open context and its scratch frames.
\<close>

definition dec_class :: "'c decoder \<Rightarrow> bool" where
  "dec_class d \<longleftrightarrow> (dec_kind d = SoftwareDecoder \<longrightarrow> dec_cpuFrame d = None \<and> dec_hwDevice d = None)"

definition dec_inv :: "'c decoder \<Rightarrow> bool" where
  "dec_inv d \<longleftrightarrow> dec_class d \<and> (dec_initialized d \<longrightarrow>
     (\<exists>ctx. dec_ctx d = Some ctx \<and> dctx_state ctx \<noteq> None) \<and> dec_frame d \<noteq> None
     \<and> (dec_kind d = NvdecDecoder \<longrightarrow> dec_cpuFrame d \<noteq> None))"

text \<open>The classes differ only in what they deliver for a received frame.\<close>

definition dec_deliver :: "'c decoder \<Rightarrow> 'c dec_lib \<Rightarrow> av_frame \<Rightarrow> Frame option" where
  "dec_deliver d lib f =
     (case dec_kind d of SoftwareDecoder \<Rightarrow> swdec_deliver lib f
      | NvdecDecoder \<Rightarrow> nvdec_deliver lib f)"

lemma decodePacket_eq:
  "decodePacket lib pkt d =
     (if \<not> dec_initialized d then Inr ([], d)
      else (case dec_ctx d of
          None \<Rightarrow> Inl NullDeref
        | Some ctx \<Rightarrow>
            (case dctx_state ctx of
               None \<Rightarrow> Inr ([], d)
             | Some c \<Rightarrow>
                 (case dl_send_packet lib c (pk_packet pkt) of (ret, c) \<Rightarrow>
                   if ret < 0 then Inr ([], d\<lparr>dec_ctx := Some (ctx\<lparr>dctx_state := Some c\<rparr>)\<rparr>)
                   else (case receive_loop (dl_receive_frame lib) c of
                       None \<Rightarrow> Inl NonTermination
                     | Some (fs, c') \<Rightarrow>
                         Inr (if dec_callback d then List.map_filter (dec_deliver d lib) fs else [],
                           d\<lparr>dec_ctx := Some (ctx\<lparr>dctx_state := Some c'\<rparr>)\<rparr>))))))"
proof -
  have "dec_deliver d lib = (case dec_kind d of SoftwareDecoder \<Rightarrow> swdec_deliver lib
      | NvdecDecoder \<Rightarrow> nvdec_deliver lib)"
    by (auto simp: fun_eq_iff dec_deliver_def split: decoder_kind.splits)
  then show ?thesis
    by (cases "dec_kind d")
       (simp_all add: decodePacket_def swdec_decodePacket_def nvdec_decodePacket_def
          split: option.split prod.split)
qed

lemma dec_stop_eq:
  "dec_stop lib d L =
     (if \<not> dec_initialized d then Inr (d, L)
      else andThen (dec_flush lib d) (\<lambda>d. andThen (free_ctx (dec_ctx d) L)
        (\<lambda>L. Inr (d\<lparr>dec_ctx := None, dec_initialized := False\<rparr>, L))))"
  by (cases "dec_kind d") (simp_all add: dec_stop_def swdec_stop_def nvdec_stop_def)

fun ctx_owned :: "'c dec_ctx option \<Rightarrow> handle list" where
  "ctx_owned None = []"
| "ctx_owned (Some ctx) = opt_list (dctx_hw ctx) @ [dctx_handle ctx]"

definition dec_owned :: "'c decoder \<Rightarrow> handle list" where
  "dec_owned d = opt_list (dec_frame d) @ opt_list (dec_cpuFrame d) @ ctx_owned (dec_ctx d)
     @ opt_list (dec_hwDevice d)"

text \<open>\<open>decoder_drains\<close>: \<open>avcodec_receive_frame\<close> eventually has no more frames.\<close>

definition decoder_drains :: "'c dec_lib \<Rightarrow> bool" where
  "decoder_drains lib \<longleftrightarrow> (\<forall>c. drains (dl_receive_frame lib) c)"

lemma free_ctx_all: "free_ctx c L = release_all (ctx_owned c) L"
  by (cases c) (simp_all add: free_ctx_def release_opt_all release_all_append release_all_single)

lemma dec_flush_keeps:
  assumes "dec_flush lib d = Inr d'"
  shows "dec_owned d' = dec_owned d \<and> dec_initialized d' = dec_initialized d \<and> dec_kind d' = dec_kind d
    \<and> (dec_ctx d' \<noteq> None)"
  using assms by (auto simp: dec_flush_def dec_owned_def split: option.splits)

lemma dec_flush_members:
  "dec_flush lib d = Inr d' \<Longrightarrow> dec_cpuFrame d' = dec_cpuFrame d \<and> dec_hwDevice d' = dec_hwDevice d"
  by (auto simp: dec_flush_def split: option.splits)

lemma dec_flush_class: "dec_flush lib d = Inr d' \<Longrightarrow> dec_class d' = dec_class d"
  by (auto simp: dec_class_def dest: dec_flush_members dec_flush_keeps)

lemma dec_flush_returns:
  assumes "decoder_drains lib" "dec_inv d" "dec_initialized d"
  obtains d' where "dec_flush lib d = Inr d'"
proof -
  from assms obtain ctx c where c: "dec_ctx d = Some ctx" "dctx_state ctx = Some c"
    by (auto simp: dec_inv_def)
  obtain fs c' where "receive_loop (dl_receive_frame lib) (snd (dl_send_packet lib c None)) = Some (fs, c')"
    using assms(1) receive_loop_drains by (metis decoder_drains_def)
  with c that show thesis by (simp add: dec_flush_def)
qed

text \<open>The releases of either destructor are the release of everything owned, in that order.\<close>

lemma dec_destroy_all:
  assumes "dec_class d"
  shows "dec_destroy lib d L =
     andThen (if dec_initialized d
              then andThen (dec_flush lib d) (\<lambda>d. Inr (d\<lparr>dec_initialized := False\<rparr>)) else Inr d)
       (\<lambda>d. andThen (release_all (dec_owned d) L)
         (\<lambda>L. Inr (d\<lparr>dec_frame := None, dec_cpuFrame := None, dec_ctx := None,
                   dec_hwDevice := None\<rparr>, L)))"
proof (cases "dec_kind d")
  case NvdecDecoder
  then show ?thesis
    by (simp add: dec_destroy_def nvdec_destroy_def dec_owned_def release_opt_all free_ctx_all
        release_all_append andThen_assoc)
next
  case SoftwareDecoder
  let ?rest = "\<lambda>e. andThen (release_all (dec_owned e) L)
    (\<lambda>L. Inr (e\<lparr>dec_frame := None, dec_cpuFrame := None, dec_ctx := None, dec_hwDevice := None\<rparr>, L))"
  have rest: "andThen (release_opt (dec_frame e) L) (\<lambda>L. andThen (free_ctx (dec_ctx e) L)
      (\<lambda>L. Inr (e\<lparr>dec_frame := None, dec_ctx := None\<rparr>, L))) = ?rest e"
    if "dec_cpuFrame e = None" "dec_hwDevice e = None" for e :: "'a decoder"
  proof -
    have eq: "e\<lparr>dec_frame := None, dec_cpuFrame := None, dec_ctx := None, dec_hwDevice := None\<rparr> =
        e\<lparr>dec_frame := None, dec_ctx := None\<rparr>"
      using that by (cases e) simp
    show ?thesis
      unfolding eq using that by (simp add: dec_owned_def release_opt_all free_ctx_all release_all_append andThen_assoc)
  qed
  have n: "dec_cpuFrame d = None" "dec_hwDevice d = None"
    using SoftwareDecoder assms by (simp_all add: dec_class_def)
  show ?thesis
  proof (cases "dec_initialized d")
    case False
    with n SoftwareDecoder rest [of d] show ?thesis by (simp add: dec_destroy_def swdec_destroy_def)
  next
    case True
    show ?thesis
    proof (cases "dec_flush lib d")
      case (Inl x)
      with True SoftwareDecoder show ?thesis by (simp add: dec_destroy_def swdec_destroy_def)
    next
      case (Inr d1)
      with n have "dec_cpuFrame d1 = None" "dec_hwDevice d1 = None" by (auto dest: dec_flush_members)
      with Inr True SoftwareDecoder rest [of "d1\<lparr>dec_initialized := False\<rparr>"] show ?thesis
        by (simp add: dec_destroy_def swdec_destroy_def)
    qed
  qed
qed

lemma dec_destroy_releases:
  assumes "decoder_drains lib" "dec_inv d" and "grows L hs L1" "distinct (dec_owned d)"
    "set (dec_owned d) = set hs"
  shows "\<exists>d' L2. dec_destroy lib d L1 = Inr (d', L2) \<and> set (live L2) = set (live L)
    \<and> dec_owned d' = []"
proof -
  obtain L2 where r: "release_all (dec_owned d) L1 = Inr L2" "set (live L2) = set (live L)"
    using release_all_grown [OF assms(3-5)] by blast
  have cl: "dec_class d" using assms(2) by (simp add: dec_inv_def)
  show ?thesis
  proof (cases "dec_initialized d")
    case False
    with r cl show ?thesis by (simp add: dec_destroy_all dec_owned_def)
  next
    case True
    then obtain d1 where f: "dec_flush lib d = Inr d1" using assms(1,2) dec_flush_returns by blast
    then have "dec_owned (d1\<lparr>dec_initialized := False\<rparr>) = dec_owned d"
      using dec_flush_keeps [OF f] by (simp add: dec_owned_def)
    with r f True cl show ?thesis by (simp add: dec_destroy_all) (simp add: dec_owned_def)
  qed
qed

text \<open>
  What \<open>initialize\<close> on a new decoder leaves behind, on each of its outcomes: the ledger
  has grown by exactly what the decoder owns.
\<close>

lemma swdec_initialize_owned:
  assumes "swdec_initialize lib cb (new_decoder SoftwareDecoder) L = (r, d, L')" "wf_ledger L"
  shows "dec_inv d \<and> distinct (dec_owned d) \<and> (\<exists>hs. grows L hs L' \<and> set (dec_owned d) = set hs)"
proof -
  obtain p1 L1 where a1: "try_acquire (dl_alloc_context lib) L = (p1, L1)" by fastforce
  obtain p2 L2 where a2: "try_acquire (dl_frame_alloc lib) L1 = (p2, L2)" by fastforce
  note g1 = grows_try_acquire [OF grows_refl [OF assms(2)] a1]
  note g2 = grows_try_acquire [OF g1 a2]
  note defs = swdec_initialize_def dec_base_initialize_def new_decoder_def dec_owned_def
        dec_inv_def dec_class_def Let_def
  consider (find) "\<not> dl_find_h264 lib"
    | (ctx) "dl_find_h264 lib" "p1 = None"
    | (fail) h where "dl_find_h264 lib" "p1 = Some h" "dl_open2 lib 1 = None"
    | (opened) h c where "dl_find_h264 lib" "p1 = Some h" "dl_open2 lib 1 = Some c"
    by (cases p1; cases "dl_open2 lib 1") auto
  then show ?thesis
  proof cases
    case find
    with assms(1) grows_refl [OF assms(2)] show ?thesis
      by (intro conjI exI [of _ "[]"]) (auto simp: defs)
  next
    case ctx
    with assms(1) a1 g1 show ?thesis by (intro conjI exI [of _ "opt_list p1"]) (auto simp: defs)
  next
    case fail
    with assms(1) a1 g1 show ?thesis by (intro conjI exI [of _ "opt_list p1"]) (auto simp: defs)
  next
    case opened
    with assms(1) a1 a2 g2 show ?thesis
      by (intro conjI exI [of _ "opt_list p2 @ opt_list p1"])
         (auto simp: defs grows_def split: if_splits)
  qed
qed

lemma nvdec_initialize_owned:
  assumes "nvdec_initialize lib cb (new_decoder NvdecDecoder) L = (r, d, L')" "wf_ledger L"
  shows "dec_inv d \<and> distinct (dec_owned d) \<and> (\<exists>hs. grows L hs L' \<and> set (dec_owned d) = set hs)"
proof -
  obtain p1 L1 where a1: "try_acquire (dl_hwdevice_create lib) L = (p1, L1)" by fastforce
  obtain p2 L2 where a2: "try_acquire (dl_alloc_context lib) L1 = (p2, L2)" by fastforce
  obtain p3 L3 where a3: "try_acquire (dl_buffer_ref lib) L2 = (p3, L3)" by fastforce
  obtain p4 L4 where a4: "try_acquire (dl_frame_alloc lib) L3 = (p4, L4)" by fastforce
  obtain p5 L5 where a5: "try_acquire (dl_cpuFrame_alloc lib) L4 = (p5, L5)" by fastforce
  note g1 = grows_try_acquire [OF grows_refl [OF assms(2)] a1]
  note g2 = grows_try_acquire [OF g1 a2]
  note g3 = grows_try_acquire [OF g2 a3]
  note g5 = grows_try_acquire [OF grows_try_acquire [OF g3 a4] a5]
  note defs = nvdec_initialize_def dec_base_initialize_def new_decoder_def dec_owned_def
        dec_inv_def dec_class_def Let_def
  consider (hw) "p1 = None"
    | (find) h where "p1 = Some h" "\<not> dl_find_cuvid lib"
    | (ctx) h where "p1 = Some h" "dl_find_cuvid lib" "p2 = None"
    | (fail) h h' where "p1 = Some h" "dl_find_cuvid lib" "p2 = Some h'" "dl_open2 lib 0 = None"
    | (opened) h h' c where "p1 = Some h" "dl_find_cuvid lib" "p2 = Some h'" "dl_open2 lib 0 = Some c"
    by (cases p1; cases p2; cases "dl_open2 lib 0") auto
  then show ?thesis
  proof cases
    case find
    with assms(1) a1 g1 show ?thesis by (intro conjI exI [of _ "opt_list p1"]) (auto simp: defs)
  next
    case hw
    with assms(1) a1 g1 show ?thesis by (intro conjI exI [of _ "opt_list p1"]) (auto simp: defs)
  next
    case ctx
    with assms(1) a1 a2 g2 show ?thesis
      by (intro conjI exI [of _ "opt_list p2 @ opt_list p1"]) (auto simp: defs)
  next
    case fail
    with assms(1) a1 a2 a3 g3 show ?thesis
      by (intro conjI exI [of _ "opt_list p3 @ opt_list p2 @ opt_list p1"])
         (auto simp: defs grows_def)
  next
    case opened
    let ?d = "(new_decoder NvdecDecoder)\<lparr>dec_callback := cb, dec_hwDevice := p1,
      dec_ctx := Some \<lparr>dctx_handle = h', dctx_hw = p3, dctx_state = Some c\<rparr>,
      dec_frame := p4, dec_cpuFrame := p5\<rparr>"
    have "nvdec_initialize lib cb (new_decoder NvdecDecoder) L =
      (if p4 = None \<or> p5 = None then (ErrorInitFailed, ?d, L5)
       else (Success, ?d\<lparr>dec_initialized := True\<rparr>, L5))"
      by (simp add: nvdec_initialize_def dec_base_initialize_def Let_def a1 a2 a3 a4 a5 opened)
    then have "L' = L5" "dec_inv d" "dec_owned d = opt_list p4 @ opt_list p5 @ opt_list p3 @ [h']
      @ opt_list p1"
      using assms(1) by (auto simp: dec_owned_def dec_inv_def dec_class_def new_decoder_def split: if_splits)
    with g5 opened show ?thesis
      by (intro conjI exI [of _ "opt_list p5 @ opt_list p4 @ opt_list p3 @ opt_list p2 @ opt_list p1"])
         (auto simp: grows_def)
  qed
qed

lemma dec_initialize_owned:
  assumes "dec_initialize lib cb (new_decoder k) L = (r, d, L')" "wf_ledger L"
  shows "dec_inv d \<and> distinct (dec_owned d) \<and> (\<exists>hs. grows L hs L' \<and> set (dec_owned d) = set hs)"
proof (cases k)
  case SoftwareDecoder
  with assms show ?thesis
    by (intro swdec_initialize_owned) (simp_all add: dec_initialize_def new_decoder_def)
next
  case NvdecDecoder
  with assms show ?thesis
    by (intro nvdec_initialize_owned) (simp_all add: dec_initialize_def new_decoder_def)
qed

section \<open>The decoder interface\<close>

text \<open>
  What a user of \<open>createDecoder\<close> relies on: a decoder that is not ready ignores packets,
  decoding neither readies it nor stops it nor changes what it owns, and \<open>stop\<close> leaves
  it not ready.
\<close>

fun decode_all :: "('p \<Rightarrow> 'd \<Rightarrow> ('f list \<times> 'd) run) \<Rightarrow> 'p list \<Rightarrow> 'd \<Rightarrow> ('f list \<times> 'd) run" where
  "decode_all dec [] d = Inr ([], d)"
| "decode_all dec (p # ps) d =
     andThen (dec p d) (\<lambda>(fs, d'). andThen (decode_all dec ps d') (\<lambda>(gs, d''). Inr (fs @ gs, d'')))"

locale decoder_ops =
  fixes dec :: "'p \<Rightarrow> 'd \<Rightarrow> ('f list \<times> 'd) run"
    and halt :: "'d \<Rightarrow> ledger \<Rightarrow> ('d \<times> ledger) run"
    and ready :: "'d \<Rightarrow> bool"
    and inv :: "'d \<Rightarrow> bool"
    and owned :: "'d \<Rightarrow> handle list"
  assumes dec_ignores: "\<not> ready d \<Longrightarrow> dec p d = Inr ([], d)"
    and dec_returns: "inv d \<Longrightarrow> \<exists>fs d'. dec p d = Inr (fs, d')"
    and dec_keeps: "inv d \<Longrightarrow> dec p d = Inr (fs, d') \<Longrightarrow> inv d' \<and> ready d' = ready d \<and> owned d' = owned d"
    and halt_stopped: "halt d L = Inr (d', L') \<Longrightarrow> \<not> ready d'"
begin

lemma decode_all_returns:
  "inv d \<Longrightarrow> \<exists>fs d'. decode_all dec ps d = Inr (fs, d') \<and> inv d' \<and> owned d' = owned d"
proof (induction ps arbitrary: d)
  case (Cons p ps)
  from dec_returns [OF Cons.prems] obtain fs d1 where d1: "dec p d = Inr (fs, d1)" by blast
  with dec_keeps [OF Cons.prems d1] Cons.IH [of d1] show ?case by auto
qed simp

lemma decode_all_stopped: "\<not> ready d \<Longrightarrow> decode_all dec ps d = Inr ([], d)"
  by (induction ps) (simp_all add: dec_ignores)

lemma ignores_after_halt: "halt d L = Inr (d', L') \<Longrightarrow> decode_all dec ps d' = Inr ([], d')"
  using halt_stopped decode_all_stopped by blast

end

definition dec_inv_lib :: "'c dec_lib \<Rightarrow> 'c decoder \<Rightarrow> bool" where
  "dec_inv_lib lib d \<longleftrightarrow> dec_inv d \<and> decoder_drains lib"

lemma decodePacket_returns:
  assumes "dec_inv d" "decoder_drains lib"
  shows "\<exists>fs d'. decodePacket lib p d = Inr (fs, d')"
proof (cases "dec_initialized d")
  case True
  with assms(1) obtain ctx c where c: "dec_ctx d = Some ctx" "dctx_state ctx = Some c"
    by (auto simp: dec_inv_def)
  obtain ret c1 where s: "dl_send_packet lib c (pk_packet p) = (ret, c1)" by fastforce
  obtain fs c2 where "receive_loop (dl_receive_frame lib) c1 = Some (fs, c2)"
    using assms(2) receive_loop_drains by (metis decoder_drains_def)
  with True c s show ?thesis by (simp add: decodePacket_eq)
qed (simp add: decodePacket_eq)

lemma decodePacket_keeps:
  assumes "decodePacket lib p d = Inr (fs, d')"
  shows "dec_initialized d' = dec_initialized d \<and> dec_owned d' = dec_owned d
    \<and> (dec_inv d \<longrightarrow> dec_inv d')"
  using assms
  by (auto simp: decodePacket_eq dec_owned_def dec_inv_def dec_class_def split: if_splits option.splits prod.splits)

interpretation decoder: decoder_ops "decodePacket lib" "dec_stop lib'" dec_initialized
  "dec_inv_lib lib" dec_owned for lib lib'
proof unfold_locales
  fix d :: "'a decoder" and p
  assume "\<not> dec_initialized d"
  then show "decodePacket lib p d = Inr ([], d)" by (simp add: decodePacket_eq)
next
  fix d :: "'a decoder" and p
  assume "dec_inv_lib lib d"
  then show "\<exists>fs d'. decodePacket lib p d = Inr (fs, d')"
    by (simp add: dec_inv_lib_def decodePacket_returns)
next
  fix d d' :: "'a decoder" and p fs
  assume "dec_inv_lib lib d" "decodePacket lib p d = Inr (fs, d')"
  then show "dec_inv_lib lib d' \<and> dec_initialized d' = dec_initialized d \<and> dec_owned d' = dec_owned d"
    by (auto simp: dec_inv_lib_def dest: decodePacket_keeps)
next
  fix d d' :: "'a decoder" and L L'
  assume "dec_stop lib' d L = Inr (d', L')"
  then show "\<not> dec_initialized d'" by (auto simp: dec_stop_eq split: if_splits)
qed

lemma dec_stop_releases:
  assumes "decoder_drains lib" "dec_inv d" "grows L (dec_owned d) L1"
  shows "\<exists>d' L2. dec_stop lib d L1 = Inr (d', L2) \<and> dec_inv d' \<and> grows L (dec_owned d') L2
    \<and> \<not> dec_initialized d'"
proof (cases "dec_initialized d")
  case False
  with assms show ?thesis by (simp add: dec_stop_eq)
next
  case True
  then obtain d1 where f: "dec_flush lib d = Inr d1" using assms(1,2) dec_flush_returns by blast
  have "grows L ((opt_list (dec_frame d1) @ opt_list (dec_cpuFrame d1)) @ ctx_owned (dec_ctx d1)
      @ opt_list (dec_hwDevice d1)) L1"
    using assms(3) dec_flush_keeps [OF f] by (simp add: dec_owned_def)
  from grows_release [OF this] True f dec_flush_class [OF f] assms(2) show ?thesis
    by (auto simp: dec_stop_eq free_ctx_all dec_owned_def dec_inv_def dec_class_def)
qed

section \<open>Properties of the decoders\<close>

text \<open>\<open>createDecoder\<close> always yields a decoder, the GPU one exactly if the
  codec is registered and a CUDA device opens, and its device probe leaks nothing.\<close>

theorem createDecoder_probe:
  assumes "wf_ledger L"
  shows "\<exists>L'. createDecoder lib L = Inr (new_decoder
      (if dl_find_cuvid lib \<and> dl_hwdevice_create lib then NvdecDecoder else SoftwareDecoder), L')
    \<and> live L' = live L"
  using assms release_acquire [of L]
  by (auto simp: createDecoder_def try_acquire_def split: prod.splits)

text \<open>C30: a decoder's life leaves nothing behind: initialising a new decoder of either class,
  whatever the outcome, decoding any packets, stopping it or not, then destroying it runs without
  fault (and returns) and frees exactly what was allocated.\<close>

theorem decoder_life_no_leak:
  assumes "dec_initialize lib cb (new_decoder k) L = (r, d1, L1)" "wf_ledger L" "decoder_drains lib"
  shows "\<exists>fs d2 d3 L3 d4 L4 d5 L5. decode_all (decodePacket lib) ps d1 = Inr (fs, d2)
    \<and> dec_stop lib d2 L1 = Inr (d3, L3)
    \<and> dec_destroy lib d3 L3 = Inr (d4, L4) \<and> set (live L4) = set (live L)
    \<and> dec_destroy lib d2 L1 = Inr (d5, L5) \<and> set (live L5) = set (live L)"
proof -
  from dec_initialize_owned [OF assms(1,2)] have i: "dec_inv d1" "grows L (dec_owned d1) L1"
    using grows_cong by blast+
  obtain fs d2 where d2: "decode_all (decodePacket lib) ps d1 = Inr (fs, d2)" "dec_inv d2"
      "dec_owned d2 = dec_owned d1"
    using decoder.decode_all_returns [of lib d1 ps] i(1) assms(3) by (auto simp: dec_inv_lib_def)
  have g2: "grows L (dec_owned d2) L1" using i(2) d2(3) by simp
  obtain d3 L3 where d3: "dec_stop lib d2 L1 = Inr (d3, L3)" "dec_inv d3" "grows L (dec_owned d3) L3"
    using dec_stop_releases [OF assms(3) d2(2) g2] by blast
  have dist: "distinct (dec_owned d2)" "distinct (dec_owned d3)" using g2 d3(3) by (auto simp: grows_def)
  from dec_destroy_releases [OF assms(3) d3(2,3) dist(2)] dec_destroy_releases [OF assms(3) d2(2) g2 dist(1)]
    d2(1) d3(1) show ?thesis by blast
qed

text \<open>packets handed to a decoder after \<open>stop\<close> are ignored, however many: no frame is
  delivered and the object does not change.\<close>

theorem stopped_decoder_ignores_packets:
  assumes "dec_stop lib d L = Inr (d', L')"
  shows "decode_all (decodePacket lib') ps d' = Inr ([], d')"
  using assms by (rule decoder.ignores_after_halt)

lemma swdec_reinitialize:
  assumes "swdec_initialize lib cb d L = (Success, d', L')" "wf_ledger L"
    and "dec_kind d = SoftwareDecoder" "dec_hwDevice d = None" "dec_cpuFrame d = None"
  shows "dec_inv d' \<and> grows L (dec_owned d') L'"
proof -
  obtain p1 L1 where a1: "try_acquire (dl_alloc_context lib) L = (p1, L1)" by fastforce
  obtain p2 L2 where a2: "try_acquire (dl_frame_alloc lib) L1 = (p2, L2)" by fastforce
  have g: "grows L (opt_list p2 @ opt_list p1) L2"
    using grows_try_acquire [OF grows_try_acquire [OF grows_refl [OF assms(2)] a1] a2] by simp
  from assms(1) a1 a2 obtain h c fr where p: "p1 = Some h" "p2 = Some fr" "L' = L2"
    and d: "d' = d\<lparr>dec_callback := cb, dec_ctx := Some \<lparr>dctx_handle = h, dctx_hw = None,
      dctx_state = Some c\<rparr>, dec_frame := Some fr, dec_initialized := True\<rparr>"
    by (auto simp: swdec_initialize_def dec_base_initialize_def Let_def
        split: if_splits option.splits prod.splits)
  with g assms(3-5) show ?thesis by (auto simp: dec_owned_def dec_inv_def dec_class_def intro: grows_cong)
qed

text \<open>initialising a software decoder that owns a context or a scratch frame leaks them: a
  second successful \<open>initialize\<close>, directly or after \<open>stop\<close>, overwrites the pointers, and
  after the destructor everything the decoder owned before is still allocated.\<close>

theorem decoder_reinitialize_leaks:
  assumes "dec_kind d = SoftwareDecoder" "dec_hwDevice d = None" "dec_cpuFrame d = None"
    and "wf_ledger L" "set (dec_owned d) \<subseteq> set (live L)" "decoder_drains lib"
    and "dec_initialize lib cb d L = (Success, d1, L1)"
  shows "\<exists>d2 L2. dec_destroy lib d1 L1 = Inr (d2, L2) \<and> dec_owned d2 = []
    \<and> set (dec_owned d) \<subseteq> set (live L2)"
proof -
  have "swdec_initialize lib cb d L = (Success, d1, L1)"
    using assms(1,7) by (simp add: dec_initialize_def)
  from swdec_reinitialize [OF this assms(4,1-3)]
  have "dec_inv d1" and g: "grows L (dec_owned d1) L1" by auto
  moreover have "distinct (dec_owned d1)" using g by (simp add: grows_def)
  ultimately obtain d2 L2 where "dec_destroy lib d1 L1 = Inr (d2, L2)" "dec_owned d2 = []"
      "set (live L2) = set (live L)"
    using dec_destroy_releases [OF assms(6)] by blast
  with assms(5) show ?thesis by auto
qed


section \<open>Decoder witnesses\<close>

text \<open>A concrete decoding library: one frame per packet, in order; a device is present.\<close>

definition queue_dec :: "av_frame list dec_lib" where
  "queue_dec = \<lparr>dl_hwdevice_create = True, dl_find_cuvid = True, dl_find_h264 = True,
     dl_alloc_context = True, dl_buffer_ref = True, dl_open2 = (\<lambda>n. Some []),
     dl_frame_alloc = True, dl_cpuFrame_alloc = True, dl_time_base = fps_tb 30,
     dl_send_packet = (\<lambda>q p. (0, case p of None \<Rightarrow> q | Some pk \<Rightarrow>
        q @ [\<lparr>af_format = PIX_FMT_YUV420P, af_width = 320, af_height = 240, af_linesize = [320],
              af_data = [], af_color_range = RANGE_MPEG, af_pict_type = PICTURE_TYPE_NONE,
              af_pts = ap_pts pk\<rparr>])),
     dl_receive_frame = (\<lambda>q. case q of [] \<Rightarrow> (None, []) | f # q' \<Rightarrow> (Some f, q')),
     dl_hwframe_transfer = Some, dl_frame_clone = Some, dl_rescale = rescale_ref\<rparr>"

lemma queue_dec_drains: "decoder_drains queue_dec"
  by (auto simp: decoder_drains_def queue_dec_def split: list.splits
      intro!: drains_measure [where m = length])

definition demo_packet :: Packet where
  "demo_packet = \<lparr>pk_packet = Some \<lparr>ap_pts = 3, ap_dts = 3, ap_size = 100, ap_flags = 1, ap_data = []\<rparr>,
     pk_pts = 100000000, pk_dts = 100000000, pk_size = 100, pk_isKeyframe = True\<rparr>"

definition demo_decoder :: "av_frame list decoder" where
  "demo_decoder = (new_decoder SoftwareDecoder)\<lparr>dec_callback := True, dec_ctx :=
     Some \<lparr>dctx_handle = 0, dctx_hw = None, dctx_state = Some []\<rparr>, dec_frame := Some 1,
     dec_initialized := True\<rparr>"

theorem createDecoder_probe_witness:
  "\<exists>L'. createDecoder queue_dec \<lparr>next_handle = 1, live = [0]\<rparr> = Inr (new_decoder NvdecDecoder, L')
     \<and> live L' = [0]"
  using createDecoder_probe [of "\<lparr>next_handle = 1, live = [0]\<rparr>" queue_dec]
  by (simp add: wf_ledger_def queue_dec_def)

theorem decoder_life_no_leak_witness:
  "\<exists>d1 L1 fs d2 d5 L5. dec_initialize queue_dec True (new_decoder NvdecDecoder)
       \<lparr>next_handle = 1, live = [0]\<rparr> = (Success, d1, L1)
     \<and> decode_all (decodePacket queue_dec) [demo_packet] d1 = Inr (fs, d2)
     \<and> dec_destroy queue_dec d2 L1 = Inr (d5, L5) \<and> set (live L5) = {0}"
proof -
  obtain d1 L1 where i: "dec_initialize queue_dec True (new_decoder NvdecDecoder)
       \<lparr>next_handle = 1, live = [0]\<rparr> = (Success, d1, L1)"
    by (simp add: dec_initialize_def nvdec_initialize_def dec_base_initialize_def new_decoder_def
        queue_dec_def try_acquire_def acquire_def Let_def)
  have "wf_ledger \<lparr>next_handle = 1, live = [0]\<rparr>" by (simp add: wf_ledger_def)
  from decoder_life_no_leak [OF i this queue_dec_drains, of "[demo_packet]"]
  obtain fs d2 d5 L5 where "decode_all (decodePacket queue_dec) [demo_packet] d1 = Inr (fs, d2)"
    "dec_destroy queue_dec d2 L1 = Inr (d5, L5)"
    "set (live L5) = set (live \<lparr>next_handle = 1, live = [0]\<rparr>)" by blast
  moreover have "set (live \<lparr>next_handle = 1, live = [0]\<rparr>) = {0}" by simp
  ultimately show ?thesis using i by metis
qed

theorem stopped_decoder_ignores_packets_witness:
  "\<exists>d' L'. dec_stop queue_dec demo_decoder \<lparr>next_handle = 2, live = [0, 1]\<rparr> = Inr (d', L')
     \<and> decode_all (decodePacket queue_dec) [demo_packet, demo_packet] d' = Inr ([], d')"
proof -
  have "dec_inv demo_decoder"
    "grows \<lparr>next_handle = 0, live = []\<rparr> (dec_owned demo_decoder) \<lparr>next_handle = 2, live = [0, 1]\<rparr>"
    by (auto simp: demo_decoder_def new_decoder_def dec_inv_def dec_class_def dec_owned_def grows_def
        wf_ledger_def)
  then obtain d' L' where s: "dec_stop queue_dec demo_decoder \<lparr>next_handle = 2, live = [0, 1]\<rparr> = Inr (d', L')"
    using dec_stop_releases [OF queue_dec_drains] by blast
  from stopped_decoder_ignores_packets [OF s] s show ?thesis by blast
qed

theorem decoder_reinitialize_leaks_witness:
  "\<exists>d1 L1 d2 L2. dec_initialize queue_dec True demo_decoder \<lparr>next_handle = 2, live = [0, 1]\<rparr>
       = (Success, d1, L1)
     \<and> dec_destroy queue_dec d1 L1 = Inr (d2, L2) \<and> {0, 1} \<subseteq> set (live L2)"
proof -
  obtain d1 L1 where i: "dec_initialize queue_dec True demo_decoder \<lparr>next_handle = 2, live = [0, 1]\<rparr>
      = (Success, d1, L1)"
    by (simp add: dec_initialize_def swdec_initialize_def dec_base_initialize_def demo_decoder_def
        new_decoder_def queue_dec_def try_acquire_def acquire_def Let_def)
  have "dec_kind demo_decoder = SoftwareDecoder" "dec_hwDevice demo_decoder = None"
    "dec_cpuFrame demo_decoder = None" "wf_ledger \<lparr>next_handle = 2, live = [0, 1]\<rparr>"
    "set (dec_owned demo_decoder) \<subseteq> set (live \<lparr>next_handle = 2, live = [0, 1]\<rparr>)"
    and o: "set (dec_owned demo_decoder) = {0, 1}"
    by (auto simp: demo_decoder_def new_decoder_def wf_ledger_def dec_owned_def)
  from decoder_reinitialize_leaks [OF this(1-5) queue_dec_drains i] i o
  show ?thesis by auto
qed


end
