(* ===== verification/Capture_Objects.thy ===== *)
theory Capture_Objects
  imports Camera_Capture
begin

text \<open>
  The capture thread of \<open>camera_capture.cpp\<close> once more, with every object it takes from
  GStreamer and FFmpeg: samples, mapped video frames, \<open>AVFrame\<close>s, buses and messages. The
  definitions here follow the source call by call, each early \<open>continue\<close> with its own clean-up;
  the definitions of \<open>Camera_Capture\<close> are what remains when the objects are forgotten. The
  theorems show that they agree and that no path leaks or frees twice.
\<close>

section \<open>Starting, with the diagnostics of a failure\<close>

text \<open>What the bus holds when \<open>logPipelineError\<close> asks it.\<close>

record camera_start_answers =
  ca_play :: play_answers
  ca_bus :: bool
  ca_msg :: "(string option \<times> string option) option"

definition cam_start_objects ::
  "camera_start_answers \<Rightarrow> bool \<Rightarrow> camera \<Rightarrow> ledger \<Rightarrow> (Result \<times> camera \<times> ledger) run" where
  "cam_start_objects a cb cam L =
     (case cam_pipeline cam of
        None \<Rightarrow> Inr (ErrorInitFailed, cam, L)
      | Some p \<Rightarrow>
         if cam_running cam \<or> cam_thread cam then Inr (ErrorInitFailed, cam, L)
         else (let cam = cam\<lparr>cam_callback := cb\<rparr> in
           andThen (use_handle p L) (\<lambda>L.
             if \<not> pa_set_playing (ca_play a)
             then andThen (logPipelineError (ca_bus a) (ca_msg a) p L) (\<lambda>(out, L).
               andThen (use_handle p L) (\<lambda>L. Inr (ErrorCaptureFailed, cam\<lparr>cam_state := GST_NULL\<rparr>, L)))
             else if \<not> fst (pa_get_state (ca_play a)) \<or> snd (pa_get_state (ca_play a)) \<noteq> GST_PLAYING
             then andThen (logPipelineError (ca_bus a) (ca_msg a) p L) (\<lambda>(out, L).
               andThen (use_handle p L) (\<lambda>L. Inr (ErrorCaptureFailed, cam\<lparr>cam_state := GST_NULL\<rparr>, L)))
             else Inr (Success, cam\<lparr>cam_state := GST_PLAYING, cam_running := True, cam_thread := True\<rparr>, L))))"

section \<open>One pass of the loop\<close>

text \<open>What \<open>gst_bus_pop_filtered\<close> finds: the two strings of an error may be null.\<close>

datatype bus_pop = PopError "string option" "string option" | PopEOS

text \<open>
  A pass without a sample sees a bus or none, with a message or none; the other kind of pass has
  a sample.
\<close>

datatype pull_objects = NoSampleObjects "bus_pop option option" | SampleObjects gst_sample

fun pop_kind :: "bus_pop \<Rightarrow> bus_message" where
  "pop_kind (PopError err dbg) = BusError"
| "pop_kind PopEOS = BusEOS"

fun pull_kind :: "pull_objects \<Rightarrow> pull" where
  "pull_kind (NoSampleObjects None) = NoSample None"
| "pull_kind (NoSampleObjects (Some m)) = NoSample (map_option pop_kind m)"
| "pull_kind (SampleObjects s) = Sample s"

text \<open>Checking the bus: whether the loop breaks.\<close>

definition check_bus :: "bus_pop option option \<Rightarrow> ledger \<Rightarrow> (bool \<times> ledger) run" where
  "check_bus b L =
     (case b of
        None \<Rightarrow> Inr (False, L)
      | Some m \<Rightarrow>
         (case acquire L of (bus, L) \<Rightarrow>
          (case m of
             None \<Rightarrow> andThen (release bus L) (\<lambda>L. Inr (False, L))
           | Some pop \<Rightarrow>
              (case acquire L of (msg, L) \<Rightarrow>
                 andThen (case pop of
                     PopError err dbg \<Rightarrow>
                       (case try_acquire (err \<noteq> None) L of (e, L) \<Rightarrow>
                        case try_acquire (dbg \<noteq> None) L of (d, L) \<Rightarrow>
                          andThen (release_opt e L) (release_opt d))
                   | PopEOS \<Rightarrow> Inr L)
                 (\<lambda>L. andThen (release msg L) (\<lambda>L. andThen (release bus L) (\<lambda>L. Inr (True, L))))))))"

text \<open>
  A sample: \<open>sm\<close> is the sample, \<open>mp\<close> the mapped video frame, \<open>avf\<close> the frame to hand on.
  Without a callback the wrapped frame is destroyed at the end of the pass.
\<close>

definition sample_objects :: "bool \<Rightarrow> gst_sample \<Rightarrow> ledger \<Rightarrow> ((Frame \<times> handle) option \<times> ledger) run" where
  "sample_objects cb s L =
     (case acquire L of (sm, L) \<Rightarrow>
      if \<not> gs_caps s \<or> \<not> gs_buffer s then andThen (release sm L) (\<lambda>L. Inr (None, L))
      else if \<not> gs_info s then andThen (release sm L) (\<lambda>L. Inr (None, L))
      else (case try_acquire (gs_map s) L of
          (None, L) \<Rightarrow> andThen (release sm L) (\<lambda>L. Inr (None, L))
        | (Some mp, L) \<Rightarrow>
           (case try_acquire (gs_frame_alloc s) L of
              (None, L) \<Rightarrow> andThen (release mp L) (\<lambda>L. andThen (release sm L) (\<lambda>L. Inr (None, L)))
            | (Some avf, L) \<Rightarrow>
               (case gs_buffers s of
                  None \<Rightarrow> andThen (release avf L) (\<lambda>L. andThen (release mp L) (\<lambda>L.
                    andThen (release sm L) (\<lambda>L. Inr (None, L))))
                | Some bufs \<Rightarrow>
                   andThen (capture_copy_planes (gs_height s) (gs_planes s) bufs) (\<lambda>planes.
                     let av = capture_avframe s planes in
                     andThen (release mp L) (\<lambda>L. andThen (release sm L) (\<lambda>L.
                       let wrapped = \<lparr>fr_frame = Some av, fr_pts = af_pts av, fr_width = af_width av,
                         fr_height = af_height av, fr_format = PIX_FMT_YUV420P\<rparr> in
                       if cb then Inr (Some (wrapped, avf), L)
                       else andThen (release avf L) (\<lambda>L. Inr (None, L)))))))))"

section \<open>The loop\<close>

text \<open>Each delivered frame comes with its \<open>AVFrame\<close>, which the callback now owns.\<close>

fun captureLoop_objects ::
  "bool \<Rightarrow> (bool \<times> pull_objects) list \<Rightarrow> ledger \<Rightarrow> ((Frame \<times> handle) list \<times> bool \<times> ledger) run" where
  "captureLoop_objects cb [] L = Inr ([], False, L)"
| "captureLoop_objects cb ((stop_requested, p) # ps) L =
     (if stop_requested then Inr ([], True, L)
      else (case p of
          NoSampleObjects b \<Rightarrow>
            andThen (check_bus b L) (\<lambda>(brk, L).
              if brk then Inr ([], True, L) else captureLoop_objects cb ps L)
        | SampleObjects s \<Rightarrow>
            andThen (sample_objects cb s L) (\<lambda>(r, L). andThen (captureLoop_objects cb ps L)
              (\<lambda>(fs, ended, L). Inr ((case r of None \<Rightarrow> fs | Some f \<Rightarrow> f # fs), ended, L)))))"

section \<open>No path leaks\<close>

lemma check_bus_balanced:
  "\<exists>L'. check_bus b L = Inr (\<exists>m. b = Some (Some m), L') \<and> balanced L L'"
proof -
  have "\<exists>L'. check_bus (Some (Some pop)) L = Inr (True, L') \<and> balanced L L'" for pop
    by (cases pop) (auto simp: check_bus_def acquire_def try_acquire_def release_def balanced_def
        split: option.splits)
  moreover have "\<exists>L'. check_bus (Some None) L = Inr (False, L') \<and> balanced L L'"
    by (simp add: check_bus_def acquire_def release_def balanced_def)
  moreover have "check_bus None L = Inr (False, L)" by (simp add: check_bus_def)
  ultimately show ?thesis by (cases b; cases "the b") auto
qed

lemma sample_objects_fault:
  assumes "capture_frame s = Inl e"
  shows "sample_objects cb s L = Inl e"
proof -
  obtain bufs where ok: "gs_caps s" "gs_buffer s" "gs_info s" "gs_map s" "gs_frame_alloc s"
      "gs_buffers s = Some bufs"
    and f: "capture_copy_planes (gs_height s) (gs_planes s) bufs = Inl e"
  proof -
    from assms obtain bufs where ok: "gs_caps s" "gs_buffer s" "gs_info s" "gs_map s" "gs_frame_alloc s"
        "gs_buffers s = Some bufs"
      by (auto simp: capture_frame_def split: if_splits option.splits)
    moreover have "capture_copy_planes (gs_height s) (gs_planes s) bufs = Inl e"
      using assms ok by (cases "capture_copy_planes (gs_height s) (gs_planes s) bufs")
        (simp_all add: capture_frame_def Let_def)
    ultimately show thesis using that by blast
  qed
  show ?thesis by (simp add: sample_objects_def ok f acquire_def try_acquire_def)
qed

text \<open>A sample that is skipped leaves the ledger balanced; a frame that is handed on is all that stays.\<close>

lemma sample_objects_skip:
  assumes "capture_frame s = Inr None"
  shows "\<exists>L'. sample_objects cb s L = Inr (None, L') \<and> balanced L L'"
proof -
  consider "\<not> (gs_caps s \<and> gs_buffer s \<and> gs_info s)"
    | "gs_caps s" "gs_buffer s" "gs_info s" "\<not> gs_map s"
    | "gs_caps s" "gs_buffer s" "gs_info s" "gs_map s" "\<not> gs_frame_alloc s"
    | "gs_caps s" "gs_buffer s" "gs_info s" "gs_map s" "gs_frame_alloc s" "gs_buffers s = None"
    using assms by (auto simp: capture_frame_def Let_def split: if_splits option.splits)
  then show ?thesis
    by cases (auto simp: sample_objects_def acquire_def try_acquire_def release_def balanced_def)
qed

lemma sample_objects_frame:
  assumes "capture_frame s = Inr (Some f)"
  shows "sample_objects cb s L =
    (let h = Suc (Suc (next_handle L)) in
     if cb then Inr (Some (f, h), L\<lparr>next_handle := Suc h, live := h # live L\<rparr>)
     else Inr (None, L\<lparr>next_handle := Suc h\<rparr>))"
proof -
  obtain bufs planes where ok: "gs_caps s" "gs_buffer s" "gs_info s" "gs_map s" "gs_frame_alloc s"
      "gs_buffers s = Some bufs" "capture_copy_planes (gs_height s) (gs_planes s) bufs = Inr planes"
    and f: "f = (let avf = capture_avframe s planes in \<lparr>fr_frame = Some avf, fr_pts = af_pts avf,
      fr_width = af_width avf, fr_height = af_height avf, fr_format = PIX_FMT_YUV420P\<rparr>)"
    using assms by (auto simp: capture_frame_def Let_def split: if_splits option.splits)
  show ?thesis
    by (simp add: sample_objects_def ok f Let_def acquire_def try_acquire_def release_def)
qed

lemma sample_objects_grows:
  assumes "capture_frame s = Inr r" "wf_ledger L"
  shows "\<exists>q L'. sample_objects cb s L = Inr (q, L') \<and> map_option fst q = (if cb then r else None)
    \<and> grows L (opt_list (map_option snd q)) L'"
proof (cases r)
  case None
  with assms sample_objects_skip [of s cb L] grows_balanced [OF grows_refl [OF assms(2)]] show ?thesis
    by auto
next
  case (Some f)
  let ?h = "Suc (Suc (next_handle L))"
  have "?h \<notin> set (live L)" "wf_ledger (L\<lparr>next_handle := Suc ?h\<rparr>)"
    "wf_ledger (L\<lparr>next_handle := Suc ?h, live := ?h # live L\<rparr>)"
    using assms(2) by (force simp: wf_ledger_def)+
  with Some assms(1) show ?thesis by (simp add: sample_objects_frame Let_def grows_def)
qed

text \<open>The two loops agree, on faults too, and the ledger grows by the delivered frames.\<close>

lemma captureLoop_objects_fault:
  assumes "captureLoop cb (map (apsnd pull_kind) ps) = Inl e" "wf_ledger L"
  shows "captureLoop_objects cb ps L = Inl e"
  using assms
proof (induction ps arbitrary: L)
  case (Cons sp ps)
  obtain st p where sp: "sp = (st, p)" by fastforce
  with Cons.prems have st: "\<not> st" by (auto split: if_splits)
  show ?case
  proof (cases p)
    case (NoSampleObjects b)
    obtain L' where b: "check_bus b L = Inr (\<exists>m. b = Some (Some m), L')" "balanced L L'"
      using check_bus_balanced by blast
    have n: "\<not> (\<exists>m. b = Some (Some m))" and "captureLoop cb (map (apsnd pull_kind) ps) = Inl e"
      using Cons.prems(1) sp st NoSampleObjects by (cases b; cases "the b"; auto)+
    with Cons.IH balanced_wf [OF b(2) Cons.prems(2)] b(1) sp st NoSampleObjects show ?thesis by auto
  next
    case (SampleObjects s)
    show ?thesis
    proof (cases "capture_frame s")
      case (Inl e')
      with Cons.prems(1) sp st SampleObjects show ?thesis by (simp add: sample_objects_fault)
    next
      case (Inr r)
      then obtain q L' where q: "sample_objects cb s L = Inr (q, L')" "wf_ledger L'"
        using sample_objects_grows [OF Inr Cons.prems(2)] unfolding grows_def by blast
      have "captureLoop cb (map (apsnd pull_kind) ps) = Inl e"
        using Cons.prems(1) sp st SampleObjects Inr
        by (cases "captureLoop cb (map (apsnd pull_kind) ps)") auto
      from Cons.IH [OF this q(2)] q(1) sp st SampleObjects show ?thesis by simp
    qed
  qed
qed simp

lemma captureLoop_objects_grows:
  assumes "captureLoop cb (map (apsnd pull_kind) ps) = Inr (fs, ended)" "wf_ledger L"
  shows "\<exists>gs L'. captureLoop_objects cb ps L = Inr (gs, ended, L') \<and> map fst gs = fs
    \<and> grows L (rev (map snd gs)) L'"
  using assms
proof (induction ps arbitrary: fs L)
  case Nil
  then show ?case by (simp add: grows_refl)
next
  case (Cons sp ps)
  obtain st p where sp: "sp = (st, p)" by fastforce
  show ?case
  proof (cases st)
    case True
    with Cons.prems sp show ?thesis by (simp add: grows_refl)
  next
    case st: False
    show ?thesis
    proof (cases p)
      case (NoSampleObjects b)
      obtain L' where b: "check_bus b L = Inr (\<exists>m. b = Some (Some m), L')" "balanced L L'"
        using check_bus_balanced by blast
      note w = balanced_wf [OF b(2) Cons.prems(2)]
      show ?thesis
      proof (cases "\<exists>m. b = Some (Some m)")
        case True
        with Cons.prems(1) b sp st NoSampleObjects grows_balanced [OF grows_refl [OF Cons.prems(2)] b(2)]
        show ?thesis by auto
      next
        case False
        then have "captureLoop cb (map (apsnd pull_kind) ps) = Inr (fs, ended)"
          using Cons.prems(1) sp st NoSampleObjects by (cases b; cases "the b"; auto)
        from Cons.IH [OF this w] b False sp st NoSampleObjects show ?thesis
          by (auto intro: balanced_grows)
      qed
    next
      case (SampleObjects s)
      from Cons.prems(1) sp st SampleObjects obtain r fs' where r: "capture_frame s = Inr r"
        and l: "captureLoop cb (map (apsnd pull_kind) ps) = Inr (fs', ended)"
        and fs: "fs = (case r of None \<Rightarrow> fs' | Some f \<Rightarrow> if cb then f # fs' else fs')"
        by (cases "capture_frame s"; cases "captureLoop cb (map (apsnd pull_kind) ps)") auto
      obtain q L1 where q: "sample_objects cb s L = Inr (q, L1)" "map_option fst q = (if cb then r else None)"
        and g: "grows L (opt_list (map_option snd q)) L1"
        using sample_objects_grows [OF r Cons.prems(2)] by blast
      have w: "wf_ledger L1" using g by (simp add: grows_def)
      obtain gs L2 where gs: "captureLoop_objects cb ps L1 = Inr (gs, ended, L2)" "map fst gs = fs'"
        and g2: "grows L1 (rev (map snd gs)) L2" using Cons.IH [OF l w] by blast
      have "fs = map fst (case q of None \<Rightarrow> gs | Some f \<Rightarrow> f # gs)"
        using fs q(2) gs(2) by (cases r; cases q) (auto split: if_splits)
      moreover have "rev (map snd (case q of None \<Rightarrow> gs | Some f \<Rightarrow> f # gs)) =
          rev (map snd gs) @ opt_list (map_option snd q)" by (cases q) simp_all
      ultimately show ?thesis
        using grows_trans [OF g g2] q(1) gs(1) sp st SampleObjects by simp
    qed
  qed
qed

text \<open>
  Starting with diagnostics is starting: same result, same camera, and the ledger is balanced.
\<close>

lemma cam_start_objects_eq:
  assumes "\<And>p. cam_pipeline cam = Some p \<Longrightarrow> p \<in> set (live L)"
  shows "\<exists>L'. cam_start_objects a cb cam L =
      Inr (fst (cam_start (ca_play a) cb cam), snd (cam_start (ca_play a) cb cam), L') \<and> balanced L L'"
proof (cases "cam_pipeline cam")
  case None
  then show ?thesis by (simp add: cam_start_objects_def cam_start_def)
next
  case (Some p)
  with assms have p: "p \<in> set (live L)" by blast
  obtain out L' where l: "logPipelineError (ca_bus a) (ca_msg a) p L = Inr (out, L')" and b: "balanced L L'"
    using logPipelineError_balanced [OF p] by metis
  then have "p \<in> set (live L')" using p by (simp add: balanced_live)
  with Some p l b show ?thesis by (simp add: cam_start_objects_def cam_start_def Let_def)
qed

section \<open>Properties of the capture thread\<close>

text \<open>C8: 
  The capture thread leaks nothing: whatever the sequence of pulls, each with its sample, bus or
  message, the loop with all its objects delivers the frames of the plain loop and ends when that
  ends, and afterwards exactly the delivered frames' \<open>AVFrame\<close>s are allocated in addition, one
  for each frame and owned by the callback.
\<close>

theorem capture_thread_no_leak:
  assumes "captureLoop cb (map (apsnd pull_kind) ps) = Inr (fs, ended)" "wf_ledger L"
  shows "\<exists>hs L'. captureLoop_objects cb ps L = Inr (zip fs hs, ended, L') \<and> length hs = length fs
    \<and> distinct hs \<and> set hs \<inter> set (live L) = {} \<and> set (live L') = set (live L) \<union> set hs"
proof -
  obtain gs L' where gs: "captureLoop_objects cb ps L = Inr (gs, ended, L')" "map fst gs = fs"
    "grows L (rev (map snd gs)) L'" using captureLoop_objects_grows [OF assms] by blast
  have "gs = zip fs (map snd gs)" using gs(2) by (simp add: zip_map_fst_snd flip: gs(2))
  moreover have "length (map snd gs) = length fs" using gs(2) by auto
  moreover have "distinct (map snd gs)" "set (map snd gs) \<inter> set (live L) = {}"
    "set (live L') = set (live L) \<union> set (map snd gs)"
    using gs(3) by (auto simp: grows_def simp flip: rev_map)
  ultimately show ?thesis using gs(1) by metis
qed

section \<open>Capture witnesses\<close>

text \<open>A timeout, a frame, a sample without caps and an error on the bus.\<close>

definition demo_pulls :: "(bool \<times> pull_objects) list" where
  "demo_pulls = [(False, NoSampleObjects (Some None)), (False, SampleObjects demo_sample),
     (False, SampleObjects (demo_sample\<lparr>gs_caps := False\<rparr>)),
     (False, NoSampleObjects (Some (Some (PopError (Some ''device lost'') None))))]"

lemma demo_pulls_run:
  "\<exists>f. captureLoop True (map (apsnd pull_kind) demo_pulls) = Inr ([f], True)"
proof -
  have "capture_frame (demo_sample\<lparr>gs_caps := False\<rparr>) = Inr None" by (simp add: capture_frame_def)
  moreover obtain f where "capture_frame demo_sample = Inr (Some f)"
    using capture_copy.copy_planes_correct [OF _ demo_sample_ok]
    by (auto simp: capture_frame_def capture_copy_planes_def demo_sample_def demo_bufs_def Let_def)
  ultimately show ?thesis by (simp add: demo_pulls_def)
qed

theorem capture_thread_no_leak_witness:
  "\<exists>f h L'. captureLoop_objects True demo_pulls \<lparr>next_handle = 2, live = [0, 1]\<rparr> = Inr ([(f, h)], True, L')
     \<and> h \<notin> {0, 1} \<and> set (live L') = {0, 1, h}"
proof -
  obtain f where f: "captureLoop True (map (apsnd pull_kind) demo_pulls) = Inr ([f], True)"
    using demo_pulls_run by blast
  have "wf_ledger \<lparr>next_handle = 2, live = [0, 1]\<rparr>" by (simp add: wf_ledger_def)
  from capture_thread_no_leak [OF f this] obtain hs L' where
    "captureLoop_objects True demo_pulls \<lparr>next_handle = 2, live = [0, 1]\<rparr> = Inr (zip [f] hs, True, L')"
    "length hs = length [f]" "set hs \<inter> {0, 1} = {}" "set (live L') = {0, 1} \<union> set hs" by auto
  then show ?thesis by (cases hs) auto
qed

end
