(* ===== verification/Encode_Objects.thy ===== *)
theory Encode_Objects
  imports Encoder
begin

text \<open>
  Encoding once more, with every object it takes from FFmpeg: the converted frame, the scaling
  context, the packet of the receive loop and its clones. As in \<open>Capture_Objects\<close> the
  definitions follow the source call by call, and the definitions of \<open>Encoder\<close> are what
  remains when the objects are forgotten; no path leaks, and what stays are the delivered
  packets.
\<close>

section \<open>Conversion\<close>

text \<open>
  The frame to send, whether it is the converted one, and \<open>converted_frame\<close>, which exists also
  when no scaling context could be made.
\<close>

definition sw_convert_objects ::
  "'c av_lib \<Rightarrow> codec_params \<Rightarrow> av_frame \<Rightarrow> ledger \<Rightarrow> (av_frame \<times> bool \<times> handle option \<times> ledger) run" where
  "sw_convert_objects lib p f L =
     (case src_format f of (src_fmt, full) \<Rightarrow>
       if src_fmt \<noteq> PIX_FMT_YUV420P \<or> full \<or> af_width f \<noteq> cp_width p
          \<or> af_height f \<noteq> cp_height p \<or> linesize0 f = 0
       then (case try_acquire (lib_frame_alloc lib) L of
           (None, L) \<Rightarrow> Inl NullDeref
         | (Some cf, L) \<Rightarrow>
             (let conv = converted_frame lib (cp_width p) (cp_height p) PIX_FMT_YUV420P in
              case try_acquire (lib_sws_context lib (af_width f) (af_height f) src_fmt
                  (cp_width p) (cp_height p) PIX_FMT_YUV420P) L of
                (None, L) \<Rightarrow> Inr (f, False, Some cf, L)
              | (Some sws, L) \<Rightarrow>
                  (let data = lib_sws_scale lib full f (af_linesize conv) in
                   andThen (release sws L) (\<lambda>L.
                     Inr (conv\<lparr>af_data := data, af_pts := af_pts f\<rparr>, True, Some cf, L)))))
       else Inr (f, False, None, L))"

definition nvenc_convert_objects ::
  "'c av_lib \<Rightarrow> codec_params \<Rightarrow> av_frame \<Rightarrow> ledger \<Rightarrow> (av_frame \<times> bool \<times> handle option \<times> ledger) run" where
  "nvenc_convert_objects lib p f L =
     (if af_format f \<noteq> cp_pix_fmt p \<or> af_width f \<noteq> cp_width p
         \<or> af_height f \<noteq> cp_height p \<or> linesize0 f = 0
      then (case try_acquire (lib_frame_alloc lib) L of
          (None, L) \<Rightarrow> Inl NullDeref
        | (Some cf, L) \<Rightarrow>
            (let conv = converted_frame lib (cp_width p) (cp_height p) (cp_pix_fmt p) in
             case try_acquire (lib_sws_context lib (af_width f) (af_height f) (af_format f)
                 (cp_width p) (cp_height p) (cp_pix_fmt p)) L of
               (None, L) \<Rightarrow> Inr (f, False, Some cf, L)
             | (Some sws, L) \<Rightarrow>
                 (let data = lib_sws_scale lib False f (af_linesize conv) in
                  andThen (release sws L) (\<lambda>L.
                    Inr (conv\<lparr>af_data := data, af_pts := af_pts f\<rparr>, True, Some cf, L)))))
      else Inr (f, False, None, L))"

section \<open>Receiving\<close>

text \<open>
  The receive loop: each packet is cloned, which may fail, wrapped and handed to the callback;
  without one the wrapped packet is destroyed at the end of the pass.
\<close>

partial_function (option) receive_objects ::
  "'c av_lib \<Rightarrow> bool \<Rightarrow> 'c codec_ctx \<Rightarrow> ledger \<Rightarrow> ((Packet \<times> handle option) list \<times> 'c codec_ctx \<times> ledger) run option"
where
  "receive_objects lib cb ctx L =
     (case ctx_receive lib ctx of
        (None, ctx') \<Rightarrow> Some (Inr ([], ctx', L))
      | (Some pkt, ctx') \<Rightarrow>
          (case try_acquire (lib_packet_clone lib pkt \<noteq> None) L of (clone, L) \<Rightarrow>
             (case (if cb then Inr L else release_opt clone L) of
                Inl e \<Rightarrow> Some (Inl e)
              | Inr L \<Rightarrow> Option.bind (receive_objects lib cb ctx' L) (\<lambda>r. Some (andThen r (\<lambda>(ps, d, L).
                  Inr (if cb then (wrap_packet lib (cp_time_base (ctx_params ctx')) pkt, clone) # ps else ps, d, L)))))))"

declare receive_objects.simps [code]

definition receive_packets_objects ::
  "'c av_lib \<Rightarrow> 'c codec_ctx \<Rightarrow> bool \<Rightarrow> ledger \<Rightarrow> ((Packet \<times> handle option) list \<times> 'c codec_ctx \<times> ledger) run" where
  "receive_packets_objects lib ctx cb L =
     (case try_acquire (lib_packet_alloc lib) L of
        (None, L) \<Rightarrow> Inl NullDeref
      | (Some pkt, L) \<Rightarrow>
          (case receive_objects lib cb ctx L of
             None \<Rightarrow> Inl NonTermination
           | Some r \<Rightarrow> andThen r (\<lambda>(ps, ctx', L). andThen (release pkt L) (\<lambda>L. Inr (ps, ctx', L)))))"

section \<open>Encoding and stopping\<close>

definition submit_objects ::
  "'c av_lib \<Rightarrow> av_frame \<Rightarrow> av_frame \<Rightarrow> handle option \<Rightarrow> 'c codec_ctx \<Rightarrow> 'c encoder \<Rightarrow> ledger \<Rightarrow>
   (Result \<times> (Packet \<times> handle option) list \<times> av_frame \<times> 'c encoder \<times> ledger) run" where
  "submit_objects lib inp f' cf ctx e L =
     (case ctx_send lib (Some inp) ctx of (ret, ctx') \<Rightarrow>
        andThen (release_opt cf L) (\<lambda>L.
          if ret < 0 then Inr (ErrorEncodeFailed, [], f', e\<lparr>enc_ctx := Some ctx'\<rparr>, L)
          else andThen (receive_packets_objects lib ctx' (enc_callback e) L)
            (\<lambda>(ps, ctx'', L). Inr (Success, ps, f', e\<lparr>enc_ctx := Some ctx''\<rparr>, L))))"

definition sw_encode_objects ::
  "'c av_lib \<Rightarrow> av_frame \<Rightarrow> 'c encoder \<Rightarrow> ledger \<Rightarrow>
   (Result \<times> (Packet \<times> handle option) list \<times> av_frame \<times> 'c encoder \<times> ledger) run" where
  "sw_encode_objects lib f e L =
     (if \<not> enc_running e then Inr (ErrorEncodeFailed, [], f, e, L)
      else (case enc_ctx e of
          None \<Rightarrow> Inl NullDeref
        | Some ctx \<Rightarrow>
            andThen (sw_convert_objects lib (ctx_params ctx) f L) (\<lambda>(inp, conv, cf, L).
              let inp = stamp_frame lib (ctx_params ctx) (enc_forceKeyframe e) f inp in
              submit_objects lib inp (if conv then f else inp) cf ctx (e\<lparr>enc_forceKeyframe := False\<rparr>) L)))"

definition nvenc_encode_objects ::
  "'c av_lib \<Rightarrow> av_frame \<Rightarrow> 'c encoder \<Rightarrow> ledger \<Rightarrow>
   (Result \<times> (Packet \<times> handle option) list \<times> av_frame \<times> 'c encoder \<times> ledger) run" where
  "nvenc_encode_objects lib f e L =
     (if \<not> enc_running e then Inr (ErrorEncodeFailed, [], f, e, L)
      else (case enc_ctx e of
          None \<Rightarrow> Inl NullDeref
        | Some ctx \<Rightarrow>
            andThen (nvenc_convert_objects lib (ctx_params ctx) f L) (\<lambda>(inp, conv, cf, L).
              let inp = stamp_frame lib (ctx_params ctx) False f inp in
              submit_objects lib inp (if conv then f else inp) cf ctx e L)))"

definition encode_objects ::
  "'c av_lib \<Rightarrow> av_frame \<Rightarrow> 'c encoder \<Rightarrow> ledger \<Rightarrow>
   (Result \<times> (Packet \<times> handle option) list \<times> av_frame \<times> 'c encoder \<times> ledger) run" where
  "encode_objects lib f e L =
     (case enc_kind e of SoftwareEncoder \<Rightarrow> sw_encode_objects lib f e L
      | NVENCEncoder \<Rightarrow> nvenc_encode_objects lib f e L)"

text \<open>\<open>stop\<close> of either class; the two bodies are the same text.\<close>

definition stop_objects ::
  "'c av_lib \<Rightarrow> 'c encoder \<Rightarrow> ledger \<Rightarrow> ((Packet \<times> handle option) list \<times> 'c encoder \<times> ledger) run" where
  "stop_objects lib e L =
     (case enc_ctx e of
        None \<Rightarrow> Inr ([], e, L)
      | Some ctx \<Rightarrow>
          andThen (receive_packets_objects lib (snd (ctx_send lib None ctx)) (enc_callback e) L)
            (\<lambda>(ps, ctx', L). andThen (release (ctx_handle ctx') L)
              (\<lambda>L. Inr (ps, e\<lparr>enc_ctx := None, enc_running := False\<rparr>, L))))"

section \<open>Agreement, and no leak\<close>

text \<open>What a list of delivered packets owns, the newest first.\<close>

definition clones :: "(Packet \<times> handle option) list \<Rightarrow> handle list" where
  "clones qs = rev (concat (map (opt_list \<circ> snd) qs))"

lemma clones_simps [simp]: "clones [] = []" "clones (q # qs) = clones qs @ opt_list (snd q)"
  by (cases "snd q"; simp add: clones_def)+

text \<open>The two results agree, and the ledger has grown by what the callback now owns.\<close>

lemma receive_objects_some:
  fixes lib :: "'c av_lib"
  assumes "receive_loop (ctx_receive lib) ctx = Some (pkts, ctx')" "wf_ledger L"
  shows "\<exists>qs L'. receive_objects lib cb ctx L = Some (Inr (qs, ctx', L'))
    \<and> map fst qs = (if cb then map (wrap_packet lib (cp_time_base (ctx_params ctx))) pkts else [])
    \<and> grows L (clones qs) L'"
proof -
  have "drains (ctx_receive lib) ctx" using assms(1) by (rule receive_loop_Some_drains)
  then show ?thesis using assms
  proof (induction arbitrary: pkts L rule: drains.induct)
    case (drains_stop ctx d)
    then show ?case
      by (auto simp: receive_loop.simps [of _ ctx] receive_objects.simps [of _ _ ctx] grows_refl)
  next
    case (drains_more ctx pkt d)
    then obtain ps where ps: "pkts = pkt # ps" "receive_loop (ctx_receive lib) d = Some (ps, ctx')"
      by (auto simp: receive_loop.simps [of _ ctx] split: bind_splits)
    have tb: "ctx_params d = ctx_params ctx" using ctx_receive_same [OF drains_more.hyps(1)] by (simp add: same_ctx_def)
    obtain clone L1 where c: "try_acquire (lib_packet_clone lib pkt \<noteq> None) L = (clone, L1)" by fastforce
    have g: "grows L (opt_list clone) L1" using grows_try_acquire [OF grows_refl [OF drains_more.prems(2)] c] by simp
    show ?case
    proof (cases cb)
      case True
      have "wf_ledger L1" using g by (simp add: grows_def)
      from drains_more.IH [OF ps(2) this] obtain qs L2 where
        r: "receive_objects lib cb d L1 = Some (Inr (qs, ctx', L2))"
        and m: "map fst qs = map (wrap_packet lib (cp_time_base (ctx_params d))) ps" and g2: "grows L1 (clones qs) L2"
        using True by auto
      let ?qs = "(wrap_packet lib (cp_time_base (ctx_params d)) pkt, clone) # qs"
      have "receive_objects lib cb ctx L = Some (Inr (?qs, ctx', L2))"
        using drains_more.hyps(1) c r True by (simp add: receive_objects.simps [of _ _ ctx])
      moreover have "grows L (clones ?qs) L2" using grows_trans [OF g g2] by simp
      ultimately show ?thesis using True m tb ps(1) by simp
    next
      case False
      have "release_opt clone L1 = Inr (L\<lparr>next_handle := next_handle L1\<rparr>) \<and> next_handle L \<le> next_handle L1"
        using c by (auto simp: try_acquire_def acquire_def release_def split: if_splits)
      then obtain L2 where r2: "release_opt clone L1 = Inr L2" "balanced L L2" by (auto simp: balanced_def)
      from drains_more.IH [OF ps(2) balanced_wf [OF r2(2) drains_more.prems(2)]] obtain L3 where
        r: "receive_objects lib cb d L2 = Some (Inr ([], ctx', L3))" and g3: "grows L2 [] L3"
        using False by auto
      have "receive_objects lib cb ctx L = Some (Inr ([], ctx', L3))"
        using drains_more.hyps(1) c r r2(1) False by (simp add: receive_objects.simps [of _ _ ctx])
      with False balanced_grows [OF r2(2) g3] show ?thesis by simp
    qed
  qed
qed

text \<open>A clone that was just made can be given back.\<close>

lemma try_acquire_release:
  assumes "try_acquire ok L = (h, L1)"
  shows "\<exists>L2. release_opt h L1 = Inr L2 \<and> balanced L L2"
  using assms by (auto simp: try_acquire_def acquire_def release_def balanced_def split: if_splits)

lemma receive_objects_ends:
  fixes lib :: "'c av_lib"
  assumes "receive_objects lib cb ctx L = Some r"
  shows "succeeds r \<and> drains (ctx_receive lib) ctx"
proof (rule receive_objects.raw_induct [where P = "\<lambda>lib cb ctx L r. succeeds r \<and> drains (ctx_receive lib) ctx", OF _ assms])
  fix f :: "'c av_lib \<Rightarrow> bool \<Rightarrow> 'c codec_ctx \<Rightarrow> ledger \<Rightarrow> ((Packet \<times> handle option) list \<times> 'c codec_ctx \<times> ledger) run option"
    and lib cb ctx L r
  assume IH: "\<And>lib cb ctx L r. f lib cb ctx L = Some r \<Longrightarrow> succeeds r \<and> drains (ctx_receive lib) ctx"
    and eq: "(case ctx_receive lib ctx of
      (None, ctx') \<Rightarrow> Some (Inr ([], ctx', L))
    | (Some pkt, ctx') \<Rightarrow>
        (case try_acquire (lib_packet_clone lib pkt \<noteq> None) L of (clone, L) \<Rightarrow>
           (case (if cb then Inr L else release_opt clone L) of
              Inl e \<Rightarrow> Some (Inl e)
            | Inr L \<Rightarrow> Option.bind (f lib cb ctx' L) (\<lambda>r. Some (andThen r (\<lambda>(ps, d, L).
                Inr (if cb then (wrap_packet lib (cp_time_base (ctx_params ctx')) pkt, clone) # ps else ps, d, L))))))) = Some r"
  obtain p d where rc: "ctx_receive lib ctx = (p, d)" by fastforce
  show "succeeds r \<and> drains (ctx_receive lib) ctx"
  proof (cases p)
    case None
    with rc eq show ?thesis by (auto intro: drains_stop)
  next
    case (Some pkt)
    obtain clone L1 where c: "try_acquire (lib_packet_clone lib pkt \<noteq> None) L = (clone, L1)" by fastforce
    obtain L2 where "(if cb then Inr L1 else release_opt clone L1) = Inr L2"
      using try_acquire_release [OF c] by (cases cb) auto
    with eq rc Some c obtain r' where r': "f lib cb d L2 = Some r'"
      and r: "r = andThen r' (\<lambda>(ps, d', L). Inr (if cb then (wrap_packet lib (cp_time_base (ctx_params d)) pkt, clone) # ps else ps, d', L))"
      by (auto split: bind_splits)
    from IH [OF r'] obtain x where "r' = Inr x" "drains (ctx_receive lib) d" by (auto simp: succeeds_iff)
    with r rc Some show ?thesis by (auto intro: drains_more simp: succeeds_iff split: prod.splits)
  qed
qed

lemma receive_packets_objects_agrees:
  assumes "wf_ledger L"
  shows "(\<forall>x. receive_packets lib ctx cb = Inl x \<longrightarrow> receive_packets_objects lib ctx cb L = Inl x)
    \<and> (\<forall>ps ctx'. receive_packets lib ctx cb = Inr (ps, ctx') \<longrightarrow>
         (\<exists>qs L'. receive_packets_objects lib ctx cb L = Inr (qs, ctx', L') \<and> map fst qs = ps \<and> grows L (clones qs) L'))"
proof (cases "lib_packet_alloc lib")
  case False
  then show ?thesis by (simp add: receive_packets_def receive_packets_objects_def try_acquire_def)
next
  case True
  obtain h L1 where h: "acquire L = (h, L1)" by fastforce
  have g1: "grows L [h] L1" using grows_acquire [OF grows_refl [OF assms] h] .
  show ?thesis
  proof (cases "receive_loop (ctx_receive lib) ctx")
    case None
    have "receive_objects lib cb ctx L1 = None"
    proof (rule ccontr)
      assume "receive_objects lib cb ctx L1 \<noteq> None"
      then have "drains (ctx_receive lib) ctx" using receive_objects_ends by fastforce
      with receive_loop_drains None show False by fastforce
    qed
    with None True h show ?thesis by (simp add: receive_packets_def receive_packets_objects_def try_acquire_def)
  next
    case (Some r)
    obtain pkts d where "r = (pkts, d)" by fastforce
    with Some have l: "receive_loop (ctx_receive lib) ctx = Some (pkts, d)" by simp
    have "wf_ledger L1" using g1 by (simp add: grows_def)
    from receive_objects_some [OF l this, of cb] obtain qs L2 where
      r: "receive_objects lib cb ctx L1 = Some (Inr (qs, d, L2))"
      and m: "map fst qs = (if cb then map (wrap_packet lib (cp_time_base (ctx_params ctx))) pkts else [])"
      and g2: "grows L1 (clones qs) L2" by blast
    have "grows L (clones qs @ [h] @ []) L2" using grows_trans [OF g1 g2] by simp
    from grows_release [OF this] obtain L3 where
      "release h L2 = Inr L3" "grows L (clones qs) L3" by (auto simp: release_all_single)
    with True h l r m show ?thesis
      by (auto simp: receive_packets_def receive_packets_objects_def try_acquire_def)
  qed
qed

text \<open>Conversion leaves the converted frame, if one was made, and nothing else.\<close>

lemma sw_convert_objects_agrees:
  assumes "wf_ledger L"
  shows "(\<forall>x. sw_convert lib p f = Inl x \<longrightarrow> sw_convert_objects lib p f L = Inl x)
    \<and> (\<forall>inp conv. sw_convert lib p f = Inr (inp, conv) \<longrightarrow>
         (\<exists>cf L'. sw_convert_objects lib p f L = Inr (inp, conv, cf, L') \<and> grows L (opt_list cf) L'))"
  using assms
  by (auto simp: sw_convert_def sw_convert_objects_def Let_def try_acquire_def acquire_def release_def grows_def
      wf_ledger_def less_SucI split: prod.splits)

lemma nvenc_convert_objects_agrees:
  assumes "wf_ledger L"
  shows "(\<forall>x. nvenc_convert lib p f = Inl x \<longrightarrow> nvenc_convert_objects lib p f L = Inl x)
    \<and> (\<forall>inp conv. nvenc_convert lib p f = Inr (inp, conv) \<longrightarrow>
         (\<exists>cf L'. nvenc_convert_objects lib p f L = Inr (inp, conv, cf, L') \<and> grows L (opt_list cf) L'))"
  using assms
  by (auto simp: nvenc_convert_def nvenc_convert_objects_def Let_def try_acquire_def acquire_def release_def grows_def
      wf_ledger_def less_SucI)

lemma submit_objects_agrees:
  assumes "grows L (opt_list cf) L1"
  shows "(\<forall>x. submit_frame lib inp f' ctx e = Inl x \<longrightarrow> submit_objects lib inp f' cf ctx e L1 = Inl x)
    \<and> (\<forall>r ps g e'. submit_frame lib inp f' ctx e = Inr (r, ps, g, e') \<longrightarrow>
         (\<exists>qs L'. submit_objects lib inp f' cf ctx e L1 = Inr (r, qs, g, e', L') \<and> map fst qs = ps \<and> grows L (clones qs) L'))"
proof -
  have "grows L ([] @ opt_list cf @ []) L1" using assms by simp
  from grows_release [OF this] obtain L2 where rel: "release_opt cf L1 = Inr L2" and g2: "grows L [] L2"
    by (auto simp: release_opt_all)
  obtain ret ctx' where s: "ctx_send lib (Some inp) ctx = (ret, ctx')" by fastforce
  show ?thesis
  proof (cases "ret < 0")
    case True
    with s rel g2 show ?thesis by (simp add: submit_frame_def submit_objects_def)
  next
    case False
    have "wf_ledger L2" using g2 by (simp add: grows_def)
    note a = receive_packets_objects_agrees [OF this, of lib ctx' "enc_callback e"]
    show ?thesis
    proof (cases "receive_packets lib ctx' (enc_callback e)")
      case (Inl x)
      with a False s rel show ?thesis by (simp add: submit_frame_def submit_objects_def)
    next
      case (Inr pc)
      obtain ps d where pc: "pc = (ps, d)" by fastforce
      with a Inr obtain qs L3 where r: "receive_packets_objects lib ctx' (enc_callback e) L2 = Inr (qs, d, L3)"
        "map fst qs = ps" and g3: "grows L2 (clones qs) L3" by blast
      have "grows L (clones qs) L3" using grows_trans [OF g2 g3] by simp
      with False s rel r Inr pc show ?thesis by (simp add: submit_frame_def submit_objects_def)
    qed
  qed
qed

section \<open>The property\<close>

lemma sw_encode_objects_agrees:
  assumes "wf_ledger L"
  shows "(\<forall>x. sw_encodeFrame lib f e = Inl x \<longrightarrow> sw_encode_objects lib f e L = Inl x)
    \<and> (\<forall>r ps g e'. sw_encodeFrame lib f e = Inr (r, ps, g, e') \<longrightarrow>
         (\<exists>qs L'. sw_encode_objects lib f e L = Inr (r, qs, g, e', L') \<and> map fst qs = ps \<and> grows L (clones qs) L'))"
proof (cases "enc_running e \<and> enc_ctx e \<noteq> None")
  case False
  with assms show ?thesis by (auto simp: sw_encodeFrame_def sw_encode_objects_def grows_refl)
next
  case True
  then obtain ctx where ctx: "enc_ctx e = Some ctx" by blast
  note a = sw_convert_objects_agrees [OF assms, of lib "ctx_params ctx" f]
  show ?thesis
  proof (cases "sw_convert lib (ctx_params ctx) f")
    case (Inl x)
    with a True ctx show ?thesis by (simp add: sw_encodeFrame_def sw_encode_objects_def)
  next
    case (Inr ic)
    obtain inp conv where "ic = (inp, conv)" by fastforce
    with Inr a obtain cf L1 where c: "sw_convert lib (ctx_params ctx) f = Inr (inp, conv)"
      "sw_convert_objects lib (ctx_params ctx) f L = Inr (inp, conv, cf, L1)" "grows L (opt_list cf) L1" by blast
    let ?inp = "stamp_frame lib (ctx_params ctx) (enc_forceKeyframe e) f inp"
    have "sw_encodeFrame lib f e = submit_frame lib ?inp (if conv then f else ?inp) ctx (e\<lparr>enc_forceKeyframe := False\<rparr>)"
      "sw_encode_objects lib f e L = submit_objects lib ?inp (if conv then f else ?inp) cf ctx (e\<lparr>enc_forceKeyframe := False\<rparr>) L1"
      using True ctx c(1,2) by (simp_all add: sw_encodeFrame_def sw_encode_objects_def Let_def)
    then show ?thesis using submit_objects_agrees [OF c(3)] by (simp only:)
  qed
qed

lemma nvenc_encode_objects_agrees:
  assumes "wf_ledger L"
  shows "(\<forall>x. nvenc_encodeFrame lib f e = Inl x \<longrightarrow> nvenc_encode_objects lib f e L = Inl x)
    \<and> (\<forall>r ps g e'. nvenc_encodeFrame lib f e = Inr (r, ps, g, e') \<longrightarrow>
         (\<exists>qs L'. nvenc_encode_objects lib f e L = Inr (r, qs, g, e', L') \<and> map fst qs = ps \<and> grows L (clones qs) L'))"
proof (cases "enc_running e \<and> enc_ctx e \<noteq> None")
  case False
  with assms show ?thesis by (auto simp: nvenc_encodeFrame_def nvenc_encode_objects_def grows_refl)
next
  case True
  then obtain ctx where ctx: "enc_ctx e = Some ctx" by blast
  note a = nvenc_convert_objects_agrees [OF assms, of lib "ctx_params ctx" f]
  show ?thesis
  proof (cases "nvenc_convert lib (ctx_params ctx) f")
    case (Inl x)
    with a True ctx show ?thesis by (simp add: nvenc_encodeFrame_def nvenc_encode_objects_def)
  next
    case (Inr ic)
    obtain inp conv where "ic = (inp, conv)" by fastforce
    with Inr a obtain cf L1 where c: "nvenc_convert lib (ctx_params ctx) f = Inr (inp, conv)"
      "nvenc_convert_objects lib (ctx_params ctx) f L = Inr (inp, conv, cf, L1)" "grows L (opt_list cf) L1" by blast
    let ?inp = "stamp_frame lib (ctx_params ctx) False f inp"
    have "nvenc_encodeFrame lib f e = submit_frame lib ?inp (if conv then f else ?inp) ctx e"
      "nvenc_encode_objects lib f e L = submit_objects lib ?inp (if conv then f else ?inp) cf ctx e L1"
      using True ctx c(1,2) by (simp_all add: nvenc_encodeFrame_def nvenc_encode_objects_def Let_def)
    then show ?thesis using submit_objects_agrees [OF c(3)] by (simp only:)
  qed
qed

text \<open>Stopping frees the context too, and again keeps only what it delivered.\<close>

lemma stop_objects_agrees:
  assumes "wf_ledger L" "\<And>ctx. enc_ctx e = Some ctx \<Longrightarrow> ctx_handle ctx \<in> set (live L)"
    and "enc_stop lib e L = Inr (ps, e', L1)"
  shows "\<exists>qs L'. stop_objects lib e L = Inr (qs, e', L') \<and> map fst qs = ps
    \<and> wf_ledger L' \<and> set (live L') = set (live L1) \<union> set (clones qs)"
proof (cases "enc_ctx e")
  case None
  with assms show ?thesis by (simp add: enc_stop_eq stop_objects_def)
next
  case (Some ctx)
  then obtain d where r: "receive_packets lib (snd (ctx_send lib None ctx)) (enc_callback e) = Inr (ps, d)"
    and rel: "release (ctx_handle d) L = Inr L1" and e': "e' = e\<lparr>enc_ctx := None, enc_running := False\<rparr>"
    using assms(3) by (auto simp: enc_stop_eq)
  obtain qs L2 where q: "receive_packets_objects lib (snd (ctx_send lib None ctx)) (enc_callback e) L = Inr (qs, d, L2)"
    "map fst qs = ps" and g: "grows L (clones qs) L2"
    using receive_packets_objects_agrees [OF assms(1)] r by blast
  have h: "ctx_handle d \<in> set (live L)" using rel by (auto simp: release_def split: if_splits)
  then have "ctx_handle d \<in> set (live L2)" using g by (auto simp: grows_def)
  then obtain L3 where l3: "release (ctx_handle d) L2 = Inr L3" by (simp add: release_def)
  have w: "wf_ledger L2" using g by (simp add: grows_def)
  have "set (live L3) = set (live L1) \<union> set (clones qs)"
    using release_live [OF w l3] release_live [OF assms(1) rel] g h by (auto simp: grows_def)
  with q l3 wf_release [OF w l3] Some e' show ?thesis by (simp add: stop_objects_def)
qed

text \<open>C9: 
  Encoding a frame leaks nothing, on any path: with all objects taken from FFmpeg accounted for,
  \<open>encodeFrame\<close> of either class has the same outcome, faults included, and what is live
  afterwards besides the objects from before are exactly the packet clones that the callback has
  been given: a converted frame is freed when the codec refuses it and when no scaling context
  was made, and scaling context and packet on every path.
\<close>

theorem encode_frame_no_leak:
  assumes "wf_ledger L"
  shows "(\<forall>x. encodeFrame lib f e = Inl x \<longrightarrow> encode_objects lib f e L = Inl x)
    \<and> (\<forall>r ps g e'. encodeFrame lib f e = Inr (r, ps, g, e') \<longrightarrow>
         (\<exists>qs L'. encode_objects lib f e L = Inr (r, qs, g, e', L') \<and> map fst qs = ps \<and> grows L (clones qs) L'))"
  using sw_encode_objects_agrees [OF assms, of lib f e] nvenc_encode_objects_agrees [OF assms, of lib f e]
  by (cases "enc_kind e") (simp_all add: encodeFrame_def encode_objects_def)

text \<open>A frame that has to be converted and that the codec refuses: the converted frame goes all the same.\<close>

definition refusing_lib :: "av_packet list av_lib" where
  "refusing_lib = queue_lib\<lparr>lib_send_frame := (\<lambda>c f. (- 1, c))\<rparr>"

theorem encode_frame_no_leak_witness:
  "\<exists>g e' L'. encode_objects refusing_lib demo_frame (demo_encoder []) \<lparr>next_handle = 5, live = [3]\<rparr> =
       Inr (ErrorEncodeFailed, [], g, e', L') \<and> set (live L') = {3}"
proof -
  let ?L = "\<lparr>next_handle = 5, live = [3]\<rparr>"
  have w: "wf_ledger ?L" by (simp add: wf_ledger_def)
  have "case encodeFrame refusing_lib demo_frame (demo_encoder []) of
      Inr (r, ps, g, e') \<Rightarrow> r = ErrorEncodeFailed \<and> ps = [] | Inl x \<Rightarrow> False" by code_simp
  then obtain g e' where "encodeFrame refusing_lib demo_frame (demo_encoder []) = Inr (ErrorEncodeFailed, [], g, e')"
    by (auto split: sum.splits prod.splits)
  with encode_frame_no_leak [OF w, of refusing_lib demo_frame "demo_encoder []"] obtain qs L' where
    "encode_objects refusing_lib demo_frame (demo_encoder []) ?L = Inr (ErrorEncodeFailed, qs, g, e', L')"
    "map fst qs = []" "grows ?L (clones qs) L'" by blast
  then show ?thesis by (auto simp: grows_def)
qed

end
