(* ===== verification/Spec2Isabelle.thy ===== *)
theory Spec2Isabelle
  imports Application Operator Pipeline_Threads Decoder Director_Transport Session_Client Capture_Objects Encode_Objects
begin

text \<open>
  DirectLink: verification of the C++ part.

  \<^bold>\<open>The program.\<close> Camera operators capture video, encode it and publish it to a LiveKit
  server over WHIP; a director watches the cameras. The C++ code has three layers.

  \<^item> \<open>video-core\<close>: \<open>CameraCapture\<close> (a GStreamer pipeline read by a thread), the encoders
    and decoders over FFmpeg with their factories, and \<open>VideoPipeline\<close>, which joins capture
    and encoder by a bounded queue and a second thread.
  \<^item> \<open>networking\<close>: \<open>WHIPPublisher\<close>, a GStreamer pipeline fed with encoded packets.
  \<^item> \<open>client\<close>: \<open>main.cpp\<close>; on the operator's side \<open>CameraSession\<close> (pipeline and publisher together) and
    \<open>CameraSessionController\<close> (starts it in a worker, shows a preview); on the director's side
    \<open>DirectorTransport\<close> (the LiveKit room), \<open>DirectorSession\<close> (the subscribed tracks),
    \<open>VideoTrack\<close> (reads one stream) and \<open>FrameReader\<close> (puts frames on a video sink); and
    \<open>SessionClient\<close>, the gRPC client of the signaling backend.

  \<^bold>\<open>Theories.\<close> Each opens with what it holds; the order is the order of dependency.

  \<^item> \<open>Prelude\<close>: machine integers, the faults (undefined behaviour, uncaught exceptions and
    non-termination are results), the error monad \<open>andThen\<close>, the ``call until there is no
    more'' loop \<open>receive_loop\<close>, the ledger of library-owned objects, the locale \<open>service\<close>
    of things that are started and stopped.
  \<^item> \<open>Common_Types\<close>: \<open>common/types.hpp\<close>, \<open>networking/include/types.hpp\<close>, the
    configuration structs, time bases and \<open>rescaleToNs\<close>.
  \<^item> \<open>Plane_Copy\<close>: \<open>memcpy\<close> with bounds and the row loops of the three places that copy
    image planes, verified once in the locale \<open>plane_copier\<close>.
  \<^item> \<open>Encoder\<close>, \<open>Decoder\<close>: both classes of each and the factories; \<open>Camera_Capture\<close>:
    \<open>capture/camera_capture.cpp\<close>; \<open>Whip_Publisher\<close>: \<open>whip_publisher.cpp\<close>.
  \<^item> \<open>Video_Pipeline\<close>: \<open>pipeline/video_pipeline.cpp\<close> operation by operation, with the frame
    queue behind the locale \<open>drop_oldest\<close>; \<open>Pipeline_Threads\<close>: the same code as three
    interleaved threads (capture callback, \<open>encodeLoop\<close>, \<open>stop\<close>), a step per critical
    section, condition-variable call or stop-token access.
  \<^item> \<open>Capture_Objects\<close>, \<open>Encode_Objects\<close>: capture thread and \<open>encodeFrame\<close> once more, with
    every object they take from GStreamer and FFmpeg; they agree with the definitions of
    \<open>Camera_Capture\<close> and \<open>Encoder\<close> and leak nothing on any path.
  \<^item> \<open>Camera_Session\<close>: \<open>session/camera_session.cpp\<close>, the composition of pipeline and
    publisher. \<open>Guarded_Calls\<close> and \<open>Session_Threads\<close>: its \<open>start\<close> and \<open>stop\<close> as stages of
    two threads, interleaved with the pipeline's threads; the locale \<open>guarded_object\<close> shows that
    asking a flag first and setting it last makes such calls atomic. \<open>Session_Life\<close>: cycles of
    start, streaming and stop, and the destruction.
  \<^item> \<open>Frame_Reader\<close>, \<open>Video_Track\<close>, \<open>Director_Session\<close>: the director's view, from the
    pixels of a frame to the list of tracks (\<open>std::map\<close> behind the locale
    \<open>indexed_map\<close>).
  \<^item> \<open>Future_Watcher\<close>: the \<open>QFutureWatcher\<close> pattern; \<open>Director_Transport\<close> and
    \<open>Session_Controller\<close>, its two users.
  \<^item> \<open>Session_Client\<close>: the requests and the handlers of the replies. \<open>Operator\<close>: from the
    reply to \<open>joinSession\<close> to the configured and running stream, and key frame requests on the
    way back. \<open>Application\<close>: \<open>main.cpp\<close>, with the leave of the open page (\<open>SessionPage.qml\<close>)
    and the destruction of the singletons.

  \<^bold>\<open>How code became definitions.\<close> Objects are records whose fields keep the members' names
  with a prefix per class (\<open>vp_\<close> VideoPipeline, \<open>wp_\<close> WHIPPublisher, \<open>tp_\<close>
  DirectorTransport and so on); methods are functions that return the updated record, in the
  error monad where they can be undefined. Libraries (FFmpeg, GStreamer, Qt, LiveKit, gRPC) are
  records of functions or answers passed as arguments, and what a theorem needs of them is a
  named hypothesis with a concrete instance in its witness (\<open>queue_lib\<close>, \<open>all_ok\<close>,
  \<open>qt_ref\<close>, \<open>stream_ref\<close>). Signals and callbacks are lists of what was emitted. Library
  objects are handles in a ledger: using a dead one is the fault \<open>UseAfterFree\<close>, and ``no leak''
  means that the set of live handles is the one from before. Loops over a library that may never
  end are \<open>partial_function\<close>s, and that they return is proved from \<open>drains\<close>, the library's
  promise to report the end at some point; loops over integers have a termination proof. No fuel
  is used; where the scheduler decides how much happens (the frames the encode thread still takes
  during a stop) that number is an argument and theorems hold for all of it.

  \<^bold>\<open>What is shown.\<close>

  \<^item> Data: captured, previewed and received frames are copied exactly and within bounds (the
    client loses the last chroma row and column of odd sizes, which is shown too), time
    stamps survive their two conversions up to half a frame, the codec only sees its own format,
    packets reach the network in order with relative time stamps, the two decoder
    classes agree.
  \<^item> State: the bounded queue refines ``keep the newest three''; a camera session runs entirely
    or not at all after any history, and starting and stopping it from two threads is as good as
    whole calls; an operator who joined publishes to the endpoint of the reply with the fixed
    configuration; the director's mirror of the tracks follows the signals; a
    track with stream and sink is being read in every interleaving; transports are well formed
    in every reachable state.
  \<^item> Resources: lives of encoders, decoders, publishers, pipelines and controllers free what
    they allocate, and so do a session that is used again and again, the objects of one captured
    sample or one encoded frame on every path, and the whole program when it is left; the
    histories that leak or touch freed memory are characterised.
  \<^item> Threads: frames are accounted for in every interleaving; \<open>stop\<close> is stuck exactly when the
    notification comes before the encode thread sleeps, and otherwise completes under every
    schedule; the connecting worker is safe exactly while nobody disconnects.
  \<^item> Errors: every error branch of the operations is a branch of the model; the properties of
    kind error say where it leads.

  \<^bold>\<open>Not modelled.\<close> Log output, except where its construction touches library objects; the
  text of GStreamer errors; \<open>double\<close> rounding (elapsed time and aspect ratio are rationals);
  \<open>int\<close> products of row and stride (images are below 2 GiB); data races on plain members:
  accesses to \<open>isRunning_\<close> are atomic steps in \<open>Session_Threads\<close>, and a call of a sink or of a
  pipeline operation inside a stage is one step; getters that only read a member; the QML user
  interface, but for the page's leave, and the Go backend, which are other languages; generated
  gRPC code. The Windows variant of \<open>CameraSession::start\<close> differs only in the device constants
  and is left out.

  \<^bold>\<open>Plan.\<close> Still worth adding: the objects of the decoders' \<open>decodePacket\<close> and of the
  publisher's buffers in the style of \<open>Encode_Objects\<close>; the director's page as
  \<open>Operator\<close> has the operator's, from the reply to the first track on a sink.
\<close>

end
